(* ===== verification/Cyber_Prelude.thy ===== *)
theory Cyber_Prelude
  imports Main "HOL-Library.Word" "HOL-Library.AList"
begin

text \<open>
  Shared vocabulary of the Cyber RT development: names for the machine types of the C++
  sources, the model of \<^verbatim>\<open>std::unordered_map\<close> as an association list with
  distinct keys, and the word and list lemmas that the component theories use.

  \<^item> Counters and ids keep the width of the source (\<open>u64\<close>, \<open>u32\<close>, \<open>i32\<close>); arithmetic on
    them wraps, and the lemmas below move to \<open>nat\<close> where no overflow occurs.
  \<^item> \<open>umap\<close> stands for \<^verbatim>\<open>unordered_map\<close>. The order of the pairs is the iteration order
    of the container, which C++ leaves open; statements about the program do not depend on it.
\<close>

unbundle bit_operations_syntax

type_synonym u8 = "8 word"
type_synonym u32 = "32 word"
type_synonym u64 = "64 word"

named_theorems inv_defs \<open>definitions of the component invariants\<close>
named_theorems op_defs \<open>definitions of the component operations\<close>

section \<open>Words\<close>

lemma unat_plus_one:
  fixes x :: "'a::len word"
  assumes "unat x + 1 < 2 ^ LENGTH('a)"
  shows "unat (x + 1) = unat x + 1"
proof -
  have "unat (x + 1) = (unat x + unat (1 :: 'a word)) mod 2 ^ LENGTH('a)"
    by (rule unat_word_ariths)
  also have "\<dots> = unat x + 1"
    using assms by simp
  finally show ?thesis .
qed

lemma unat_diff_le:
  fixes a b :: "'a::len word"
  shows "unat b \<le> unat a \<Longrightarrow> unat (a - b) = unat a - unat b"
  by (simp add: unat_sub word_le_nat_alt)

lemma unat_lt_u64 [simp]: "unat (x :: u64) < 18446744073709551616"
proof -
  have "unat x < 2 ^ LENGTH(64)" by (rule unsigned_less)
  then show ?thesis by simp
qed

lemma unat_lt_u32 [simp]: "unat (x :: u32) < 4294967296"
proof -
  have "unat x < 2 ^ LENGTH(32)" by (rule unsigned_less)
  then show ?thesis by simp
qed

lemma unat_plus_one_u64: "unat (x :: u64) + 1 < 2 ^ 64 \<Longrightarrow> unat (x + 1) = unat x + 1"
  by (rule unat_plus_one) simp

lemma unat_u64_bound: "unat (x :: u64) < 2 ^ 64"
  by simp

lemma unat_add_u64: "unat (x :: u64) + unat y < 2 ^ 64 \<Longrightarrow> unat (x + y) = unat x + unat y"
  by (simp add: unat_word_ariths)

lemma unat_mult_u64: "unat (x :: u64) * unat y < 2 ^ 64 \<Longrightarrow> unat (x * y) = unat x * unat y"
  by (simp add: unat_word_ariths)

lemma unat_ucast_u32_u64 [simp]: "unat (ucast (q :: u32) :: u64) = unat q"
proof -
  have "unat q < 2 ^ LENGTH(32)" by (rule unsigned_less)
  also have "(2 :: nat) ^ LENGTH(32) \<le> 2 ^ 64" by simp
  finally have "take_bit 64 (unat q) = unat q" by (rule take_bit_nat_eq_self)
  then show ?thesis by (simp add: unsigned_ucast_eq)
qed

lemma ucast_u32_room: "unat (ucast (q :: u32) :: u64) + 1 < 2 ^ 64"
  unfolding unat_ucast_u32_u64 by (rule less_le_trans [OF add_strict_right_mono [OF unat_lt_u32]]) simp

section \<open>Unordered maps\<close>

type_synonym ('k, 'v) umap = "('k \<times> 'v) list"

abbreviation um_keys :: "('k, 'v) umap \<Rightarrow> 'k list" where
  "um_keys m \<equiv> map fst m"

abbreviation um_vals :: "('k, 'v) umap \<Rightarrow> 'v list" where
  "um_vals m \<equiv> map snd m"

abbreviation um_wf :: "('k, 'v) umap \<Rightarrow> bool" where
  "um_wf m \<equiv> distinct (um_keys m)"

text \<open>\<^verbatim>\<open>m[k] = v\<close>: overwrite in place, or a new pair.\<close>

abbreviation um_set :: "'k \<Rightarrow> 'v \<Rightarrow> ('k, 'v) umap \<Rightarrow> ('k, 'v) umap" where
  "um_set \<equiv> AList.update"

text \<open>\<^verbatim>\<open>m.erase(k)\<close>.\<close>

abbreviation um_erase :: "'k \<Rightarrow> ('k, 'v) umap \<Rightarrow> ('k, 'v) umap" where
  "um_erase \<equiv> AList.delete"

text \<open>
  \<^verbatim>\<open>m[k]\<close> used as a value: the element, after a default element has been inserted when
  the key is missing. \<open>um_at\<close> is the element and \<open>um_touch\<close> the map afterwards.
\<close>

definition um_at :: "'v \<Rightarrow> 'k \<Rightarrow> ('k, 'v) umap \<Rightarrow> 'v" where
  "um_at d k m = (case map_of m k of None \<Rightarrow> d | Some v \<Rightarrow> v)"

definition um_touch :: "'v \<Rightarrow> 'k \<Rightarrow> ('k, 'v) umap \<Rightarrow> ('k, 'v) umap" where
  "um_touch d k m = (case map_of m k of None \<Rightarrow> um_set k d m | Some v \<Rightarrow> m)"

lemma um_wf_set [simp, intro]: "um_wf m \<Longrightarrow> um_wf (um_set k v m)"
  by (rule distinct_update)

lemma um_wf_erase [simp, intro]: "um_wf m \<Longrightarrow> um_wf (um_erase k m)"
  by (rule distinct_delete)

lemma map_of_um_set [simp]: "map_of (um_set k v m) = (map_of m)(k \<mapsto> v)"
  by (rule update_conv')

lemma map_of_um_erase [simp]: "map_of (um_erase k m) = (map_of m)(k := None)"
  by (rule delete_conv')

lemma um_keys_set: "set (um_keys (um_set k v m)) = insert k (set (um_keys m))"
  by (metis dom_map_of_conv_image_fst list.set_map map_of_um_set dom_fun_upd option.distinct(1))

lemma um_touch_present [simp]: "map_of m k \<noteq> None \<Longrightarrow> um_touch d k m = m"
  by (auto simp: um_touch_def)

lemma um_wf_touch [simp, intro]: "um_wf m \<Longrightarrow> um_wf (um_touch d k m)"
  by (auto simp: um_touch_def split: option.splits)

lemma map_of_um_touch:
  "map_of (um_touch d k m) = (map_of m)(k \<mapsto> um_at d k m)"
  by (auto simp: um_touch_def um_at_def fun_eq_iff split: option.splits)

lemma um_at_set [simp]: "um_at d k (um_set k' v m) = (if k = k' then v else um_at d k m)"
  by (simp add: um_at_def)

lemma um_at_erase [simp]: "um_at d k (um_erase k' m) = (if k = k' then d else um_at d k m)"
  by (simp add: um_at_def)

lemma um_at_touch [simp]: "um_at d k (um_touch d k' m) = um_at d k m"
  by (auto simp: um_at_def map_of_um_touch)

lemma um_at_Nil [simp]: "um_at d k [] = d"
  by (simp add: um_at_def)

end
