(* ===== verification/Base_Locks.thy ===== *)
theory Base_Locks
  imports Cyber_Prelude
begin

text \<open>
  The reader/writer spin lock \<^verbatim>\<open>AtomicRWLock\<close> (\<^verbatim>\<open>cyber/base/atomic_rw_lock.h\<close>) as a step relation in which any
  number of threads interleave, one step per atomic access.

  The lock word \<^verbatim>\<open>lock_num_\<close> is an integer: 0 is free, a positive number counts readers, \<open>-1\<close> is a
  writer. It stays between \<open>-1\<close> and the number of threads, so its 32 bits do not overflow.

  The locale \<open>rw_lock\<close> states what an implementation of the lock word has to do at each step and
  gives mutual exclusion; this lock and the lock of a shared memory block are interpretations of it.
\<close>

section \<open>AtomicRWLock\<close>

record atomic_rw_lock =
  write_lock_wait_num :: nat
  lock_num :: int
  write_first :: bool

definition AtomicRWLock :: "bool \<Rightarrow> atomic_rw_lock" where
  "AtomicRWLock first = \<lparr>write_lock_wait_num = 0, lock_num = 0, write_first = first\<rparr>"

text \<open>The condition of the inner loops of \<^verbatim>\<open>ReadLock\<close>, on the local copy \<open>n\<close> of the lock word.\<close>

definition arw_read_blocked :: "int \<Rightarrow> atomic_rw_lock \<Rightarrow> bool" where
  "arw_read_blocked n l = (n < 0 \<or> write_first l \<and> 0 < write_lock_wait_num l)"

definition arw_cas_read :: "int \<Rightarrow> atomic_rw_lock \<Rightarrow> atomic_rw_lock option" where
  "arw_cas_read n l = (if lock_num l = n then Some (l\<lparr>lock_num := n + 1\<rparr>) else None)"

definition arw_wait :: "atomic_rw_lock \<Rightarrow> atomic_rw_lock" where
  "arw_wait l = l\<lparr>write_lock_wait_num := write_lock_wait_num l + 1\<rparr>"

definition arw_cas_write :: "atomic_rw_lock \<Rightarrow> atomic_rw_lock option" where
  "arw_cas_write l = (if lock_num l = 0 then Some (l\<lparr>lock_num := -1\<rparr>) else None)"

definition arw_unwait :: "atomic_rw_lock \<Rightarrow> atomic_rw_lock" where
  "arw_unwait l = l\<lparr>write_lock_wait_num := write_lock_wait_num l - 1\<rparr>"

definition arw_ReadUnlock :: "atomic_rw_lock \<Rightarrow> atomic_rw_lock" where
  "arw_ReadUnlock l = l\<lparr>lock_num := lock_num l - 1\<rparr>"

definition arw_WriteUnlock :: "atomic_rw_lock \<Rightarrow> atomic_rw_lock" where
  "arw_WriteUnlock l = l\<lparr>lock_num := lock_num l + 1\<rparr>"

text \<open>
  Where a thread is. The integer is its local \<^verbatim>\<open>lock_num\<close>: just loaded (\<open>ReadSpin\<close>), or found
  good (\<open>ReadTry\<close>). \<open>WriteGot\<close> holds the lock and still has to leave the waiting count.
\<close>

datatype rw_pc = RwIdle | ReadSpin int | ReadTry int | Reading | WriteTry | WriteGot | Writing

record rw_sys =
  rws_lock :: atomic_rw_lock
  rws_pc :: "nat \<Rightarrow> rw_pc"

definition rws_init :: "bool \<Rightarrow> rw_sys" where
  "rws_init first = \<lparr>rws_lock = AtomicRWLock first, rws_pc = (\<lambda>_. RwIdle)\<rparr>"

abbreviation rw_goto :: "nat \<Rightarrow> rw_pc \<Rightarrow> atomic_rw_lock \<Rightarrow> rw_sys \<Rightarrow> rw_sys" where
  "rw_goto i pc l s \<equiv> s\<lparr>rws_lock := l, rws_pc := (rws_pc s)(i := pc)\<rparr>"

inductive rw_step :: "rw_sys \<Rightarrow> rw_sys \<Rightarrow> bool" where
  read_call: "rws_pc s i = RwIdle \<Longrightarrow>
    rw_step s (rw_goto i (ReadSpin (lock_num (rws_lock s))) (rws_lock s) s)"
| read_spin: "rws_pc s i = ReadSpin n \<Longrightarrow> arw_read_blocked n (rws_lock s) \<Longrightarrow>
    rw_step s (rw_goto i (ReadSpin (lock_num (rws_lock s))) (rws_lock s) s)"
| read_pass: "rws_pc s i = ReadSpin n \<Longrightarrow> \<not> arw_read_blocked n (rws_lock s) \<Longrightarrow>
    rw_step s (rw_goto i (ReadTry n) (rws_lock s) s)"
| read_fail: "rws_pc s i = ReadTry n \<Longrightarrow>
    rw_step s (rw_goto i (ReadSpin (lock_num (rws_lock s))) (rws_lock s) s)"
| read_lock: "rws_pc s i = ReadTry n \<Longrightarrow> arw_cas_read n (rws_lock s) = Some l \<Longrightarrow>
    rw_step s (rw_goto i Reading l s)"
| read_unlock: "rws_pc s i = Reading \<Longrightarrow> rw_step s (rw_goto i RwIdle (arw_ReadUnlock (rws_lock s)) s)"
| write_call: "rws_pc s i = RwIdle \<Longrightarrow> rw_step s (rw_goto i WriteTry (arw_wait (rws_lock s)) s)"
| write_fail: "rws_pc s i = WriteTry \<Longrightarrow> rw_step s (rw_goto i WriteTry (rws_lock s) s)"
| write_lock: "rws_pc s i = WriteTry \<Longrightarrow> arw_cas_write (rws_lock s) = Some l \<Longrightarrow>
    rw_step s (rw_goto i WriteGot l s)"
| write_got: "rws_pc s i = WriteGot \<Longrightarrow> rw_step s (rw_goto i Writing (arw_unwait (rws_lock s)) s)"
| write_unlock: "rws_pc s i = Writing \<Longrightarrow> rw_step s (rw_goto i RwIdle (arw_WriteUnlock (rws_lock s)) s)"

definition rw_reading :: "rw_sys \<Rightarrow> nat set" where
  "rw_reading s = {i. rws_pc s i = Reading}"

definition rw_writing :: "rw_sys \<Rightarrow> nat set" where
  "rw_writing s = {i. rws_pc s i \<in> {WriteGot, Writing}}"

definition rw_waiting :: "rw_sys \<Rightarrow> nat set" where
  "rw_waiting s = {i. rws_pc s i \<in> {WriteTry, WriteGot}}"

definition rw_local_ok :: "rw_sys \<Rightarrow> bool" where
  "rw_local_ok s =
     ((\<forall>i n. rws_pc s i = ReadTry n \<longrightarrow> 0 \<le> n) \<and>
      finite (rw_waiting s) \<and> write_lock_wait_num (rws_lock s) = card (rw_waiting s))"

section \<open>The contract of the lock word\<close>

inductive runs :: "('s \<Rightarrow> 's \<Rightarrow> bool) \<Rightarrow> 's \<Rightarrow> 's \<Rightarrow> bool" for step s0 where
  runs_refl: "runs step s0 s0"
| runs_step: "runs step s0 s \<Longrightarrow> step s s' \<Longrightarrow> runs step s0 s'"

definition rw_effect ::
  "('s \<Rightarrow> int) \<Rightarrow> ('s \<Rightarrow> nat set) \<Rightarrow> ('s \<Rightarrow> nat set) \<Rightarrow> 's \<Rightarrow> 's \<Rightarrow> bool" where
  "rw_effect num reading writing s s' =
     ((num s' = num s \<and> reading s' = reading s \<and> writing s' = writing s) \<or>
      (\<exists>i. 0 \<le> num s \<and> i \<notin> reading s \<and> num s' = num s + 1 \<and> reading s' = insert i (reading s) \<and>
         writing s' = writing s) \<or>
      (\<exists>i. num s = 0 \<and> num s' = -1 \<and> reading s' = reading s \<and> writing s' = insert i (writing s)) \<or>
      (\<exists>i. i \<in> reading s \<and> num s' = num s - 1 \<and> reading s' = reading s - {i} \<and> writing s' = writing s) \<or>
      (\<exists>i. i \<in> writing s \<and> num s' = num s + 1 \<and> reading s' = reading s \<and> writing s' = writing s - {i}))"

definition rw_exclusive :: "int \<Rightarrow> nat set \<Rightarrow> nat set \<Rightarrow> bool" where
  "rw_exclusive n readers writers =
     (finite readers \<and>
      (writers = {} \<and> n = int (card readers) \<or> (\<exists>w. writers = {w}) \<and> readers = {} \<and> n = -1))"

lemma rw_effect_same:
  "num s' = num s \<Longrightarrow> reading s' = reading s \<Longrightarrow> writing s' = writing s \<Longrightarrow>
   rw_effect num reading writing s s'"
  by (simp add: rw_effect_def)

lemma rw_effect_read:
  "0 \<le> num s \<Longrightarrow> i \<notin> reading s \<Longrightarrow> num s' = num s + 1 \<Longrightarrow> reading s' = insert i (reading s) \<Longrightarrow>
   writing s' = writing s \<Longrightarrow> rw_effect num reading writing s s'"
  unfolding rw_effect_def by blast

lemma rw_effect_write:
  "num s = 0 \<Longrightarrow> num s' = -1 \<Longrightarrow> reading s' = reading s \<Longrightarrow> writing s' = insert i (writing s) \<Longrightarrow>
   rw_effect num reading writing s s'"
  unfolding rw_effect_def by blast

lemma rw_effect_unread:
  "i \<in> reading s \<Longrightarrow> num s' = num s - 1 \<Longrightarrow> reading s' = reading s - {i} \<Longrightarrow> writing s' = writing s \<Longrightarrow>
   rw_effect num reading writing s s'"
  unfolding rw_effect_def by blast

lemma rw_effect_unwrite:
  "i \<in> writing s \<Longrightarrow> num s' = num s + 1 \<Longrightarrow> reading s' = reading s \<Longrightarrow> writing s' = writing s - {i} \<Longrightarrow>
   rw_effect num reading writing s s'"
  unfolding rw_effect_def by blast

locale rw_lock =
  fixes num :: "'s \<Rightarrow> int"
    and reading :: "'s \<Rightarrow> nat set"
    and writing :: "'s \<Rightarrow> nat set"
    and step :: "'s \<Rightarrow> 's \<Rightarrow> bool"
    and local_ok :: "'s \<Rightarrow> bool"
    and init :: 's
  assumes local_init: "local_ok init"
    and init_free: "num init = 0" "reading init = {}" "writing init = {}"
    and local_step: "local_ok s \<Longrightarrow> step s s' \<Longrightarrow> local_ok s'"
    and step_effect: "local_ok s \<Longrightarrow> step s s' \<Longrightarrow> rw_effect num reading writing s s'"
begin

lemma exclusive_step:
  assumes "rw_effect num reading writing s s'" "rw_exclusive (num s) (reading s) (writing s)"
  shows "rw_exclusive (num s') (reading s') (writing s')"
  using assms(1) unfolding rw_effect_def
proof (elim disjE exE conjE)
  fix i
  assume "0 \<le> num s" "i \<notin> reading s" "num s' = num s + 1" "reading s' = insert i (reading s)"
    "writing s' = writing s"
  then show ?thesis using assms(2) by (auto simp: rw_exclusive_def)
next
  fix i
  assume "i \<in> reading s" "num s' = num s - 1" "reading s' = reading s - {i}" "writing s' = writing s"
  moreover from this have "card (reading s) = Suc (card (reading s - {i}))" if "finite (reading s)"
    using card.remove [OF that] by blast
  ultimately show ?thesis using assms(2) by (auto simp: rw_exclusive_def)
next
  fix i
  assume "num s = 0" "num s' = -1" "reading s' = reading s" "writing s' = insert i (writing s)"
  then show ?thesis using assms(2) by (auto simp: rw_exclusive_def)
next
  fix i
  assume "i \<in> writing s" "num s' = num s + 1" "reading s' = reading s" "writing s' = writing s - {i}"
  then show ?thesis using assms(2) by (auto simp: rw_exclusive_def)
qed (use assms(2) in simp)

lemma runs_exclusive:
  "runs step init s \<Longrightarrow> local_ok s \<and> rw_exclusive (num s) (reading s) (writing s)"
proof (induction rule: runs.induct)
  case runs_refl
  then show ?case using local_init init_free by (simp add: rw_exclusive_def)
next
  case (runs_step s s')
  then show ?case using local_step step_effect exclusive_step by blast
qed

text \<open>A writer is alone; and when nobody holds the lock the word is 0 again.\<close>

lemma writer_alone:
  assumes "runs step init s" "w \<in> writing s"
  shows "writing s = {w}" "reading s = {}" "num s = -1"
  using runs_exclusive [OF assms(1)] assms(2) by (auto simp: rw_exclusive_def)

lemma free_when_released:
  "runs step init s \<Longrightarrow> reading s = {} \<Longrightarrow> writing s = {} \<Longrightarrow> num s = 0"
  using runs_exclusive [of s] by (auto simp: rw_exclusive_def)

end

section \<open>AtomicRWLock keeps the contract\<close>

lemmas arw_defs = arw_read_blocked_def arw_cas_read_def arw_wait_def arw_cas_write_def arw_unwait_def
  arw_ReadUnlock_def arw_WriteUnlock_def

lemma rw_sets_goto:
  "rw_reading (rw_goto i pc l s) = (if pc = Reading then insert i (rw_reading s) else rw_reading s - {i})"
  "rw_writing (rw_goto i pc l s) =
     (if pc \<in> {WriteGot, Writing} then insert i (rw_writing s) else rw_writing s - {i})"
  "rw_waiting (rw_goto i pc l s) =
     (if pc \<in> {WriteTry, WriteGot} then insert i (rw_waiting s) else rw_waiting s - {i})"
  by (auto simp: rw_reading_def rw_writing_def rw_waiting_def)

lemma rw_sets_goto_pc:
  "rw_reading (s\<lparr>rws_pc := (rws_pc s)(i := pc)\<rparr>) =
     (if pc = Reading then insert i (rw_reading s) else rw_reading s - {i})"
  "rw_writing (s\<lparr>rws_pc := (rws_pc s)(i := pc)\<rparr>) =
     (if pc \<in> {WriteGot, Writing} then insert i (rw_writing s) else rw_writing s - {i})"
  "rw_waiting (s\<lparr>rws_pc := (rws_pc s)(i := pc)\<rparr>) =
     (if pc \<in> {WriteTry, WriteGot} then insert i (rw_waiting s) else rw_waiting s - {i})"
  by (auto simp: rw_reading_def rw_writing_def rw_waiting_def)

lemma rw_mem:
  "i \<in> rw_reading s \<longleftrightarrow> rws_pc s i = Reading" "i \<in> rw_writing s \<longleftrightarrow> rws_pc s i \<in> {WriteGot, Writing}"
  "i \<in> rw_waiting s \<longleftrightarrow> rws_pc s i \<in> {WriteTry, WriteGot}"
  by (auto simp: rw_reading_def rw_writing_def rw_waiting_def)

lemmas rw_sets = rw_sets_goto rw_sets_goto_pc rw_mem

lemma rw_step_local: "rw_local_ok s \<Longrightarrow> rw_step s s' \<Longrightarrow> rw_local_ok s'"
  by (erule rw_step.cases)
    (auto simp: rw_local_ok_def rw_sets arw_defs insert_absorb Diff_insert0 split: if_splits)

lemma rw_step_effect:
  assumes ok: "rw_local_ok s" and step: "rw_step s s'"
  shows "rw_effect (\<lambda>s. lock_num (rws_lock s)) rw_reading rw_writing s s'"
  using step
proof (cases rule: rw_step.cases)
  case (read_lock i n l)
  then show ?thesis using ok
    by (intro rw_effect_read [of _ _ i])
      (auto simp: rw_local_ok_def rw_sets arw_defs Diff_insert0 split: if_splits)
next
  case (read_unlock i)
  then show ?thesis
    by (intro rw_effect_unread [of i]) (auto simp: rw_sets arw_defs Diff_insert0)
next
  case (write_lock i l)
  then show ?thesis
    by (intro rw_effect_write [of _ _ _ _ _ i])
      (auto simp: rw_sets arw_defs Diff_insert0 split: if_splits)
next
  case (write_unlock i)
  then show ?thesis
    by (intro rw_effect_unwrite [of i]) (auto simp: rw_sets arw_defs Diff_insert0)
qed (intro rw_effect_same; simp add: rw_sets arw_defs Diff_insert0 insert_absorb)+

lemma rws_init_facts:
  "rw_local_ok (rws_init first)" "lock_num (rws_lock (rws_init first)) = 0"
  "rw_reading (rws_init first) = {}" "rw_writing (rws_init first) = {}"
  by (simp_all add: rws_init_def AtomicRWLock_def rw_local_ok_def rw_reading_def rw_writing_def rw_waiting_def)

interpretation arw: rw_lock "\<lambda>s. lock_num (rws_lock s)" rw_reading rw_writing rw_step rw_local_ok "rws_init first"
  by unfold_locales (rule rws_init_facts rw_step_local rw_step_effect; assumption?)+

section \<open>Properties\<close>

text \<open>
  Claim C10. While a thread holds an \<^verbatim>\<open>AtomicRWLock\<close> for writing, no other thread holds it for reading or
  writing, in every interleaving; and when no thread holds it, the lock word is back at 0.
\<close>

theorem atomic_rw_lock_exclusive:
  assumes "runs rw_step (rws_init first) s"
  shows "(\<forall>i j. i \<in> rw_writing s \<and> j \<noteq> i \<longrightarrow> j \<notin> rw_writing s \<and> j \<notin> rw_reading s) \<and>
    (rw_reading s = {} \<and> rw_writing s = {} \<longrightarrow> lock_num (rws_lock s) = 0)"
  using arw.writer_alone [OF assms] arw.free_when_released [OF assms] by blast

theorem atomic_rw_lock_exclusive_witness:
  "\<exists>s. runs rw_step (rws_init True) s \<and> 1 \<in> rw_writing s \<and>
     (\<forall>j. j \<noteq> 1 \<longrightarrow> j \<notin> rw_writing s \<and> j \<notin> rw_reading s)"
proof -
  let ?a = "rw_goto 1 WriteTry (arw_wait (rws_lock (rws_init True))) (rws_init True)"
  let ?b = "rw_goto 1 WriteGot ((rws_lock ?a)\<lparr>lock_num := -1\<rparr>) ?a"
  have "rw_step (rws_init True) ?a" by (rule rw_step.write_call) (simp add: rws_init_def)
  moreover have "rw_step ?a ?b"
    by (rule rw_step.write_lock)
      (simp_all add: rws_init_def arw_cas_write_def arw_wait_def AtomicRWLock_def)
  ultimately have r: "runs rw_step (rws_init True) ?b"
    by (blast intro: runs_refl runs_step)
  moreover have "1 \<in> rw_writing ?b" by (simp add: rw_writing_def)
  ultimately show ?thesis using atomic_rw_lock_exclusive [OF r] by blast
qed

lemma write_first_step: "rw_step s s' \<Longrightarrow> write_first (rws_lock s') = write_first (rws_lock s)"
  by (erule rw_step.cases) (auto simp: arw_defs split: if_splits)

lemma write_first_runs: "runs rw_step (rws_init first) s \<Longrightarrow> write_first (rws_lock s) = first"
  by (induction rule: runs.induct) (simp_all add: rws_init_def AtomicRWLock_def write_first_step)

text \<open>
  In a write-first \<^verbatim>\<open>AtomicRWLock\<close>, while a thread waits to write, no reader that is still
  spinning gets past its check; and as soon as the last holder has left, the waiting writer can take
  the lock.
\<close>

lemma writer_preferred:
  assumes "runs rw_step (rws_init True) s" and "rws_pc s w = WriteTry"
  shows "(\<forall>i n s'. rws_pc s i = ReadSpin n \<and> rw_step s s' \<longrightarrow> (\<exists>m. rws_pc s' i = ReadSpin m)) \<and>
    (rw_reading s = {} \<and> rw_writing s = {} \<longrightarrow> (\<exists>s'. rw_step s s' \<and> rws_pc s' w = WriteGot))"
proof (intro conjI impI allI)
  have "rw_local_ok s" using arw.runs_exclusive [OF assms(1)] by simp
  moreover have "w \<in> rw_waiting s" using assms(2) by (simp add: rw_mem)
  ultimately have "0 < write_lock_wait_num (rws_lock s)"
    by (auto simp: rw_local_ok_def card_gt_0_iff)
  then have blocked: "arw_read_blocked n (rws_lock s)" for n
    using write_first_runs [OF assms(1)] by (simp add: arw_read_blocked_def)
  fix i n s' assume "rws_pc s i = ReadSpin n \<and> rw_step s s'"
  then have i: "rws_pc s i = ReadSpin n" and step: "rw_step s s'" by auto
  from step show "\<exists>m. rws_pc s' i = ReadSpin m"
    by (cases rule: rw_step.cases) (use i blocked in auto)
next
  assume "rw_reading s = {} \<and> rw_writing s = {}"
  then have "lock_num (rws_lock s) = 0" using arw.free_when_released [OF assms(1)] by simp
  then have "rw_step s (rw_goto w WriteGot ((rws_lock s)\<lparr>lock_num := -1\<rparr>) s)"
    using assms(2) by (intro rw_step.write_lock) (simp_all add: arw_cas_write_def)
  then show "\<exists>s'. rw_step s s' \<and> rws_pc s' w = WriteGot" by fastforce
qed

lemma writer_preferred_witness:
  "\<exists>s. runs rw_step (rws_init True) s \<and> rws_pc s 2 = WriteTry \<and> rws_pc s 1 = ReadSpin 0 \<and>
     (\<forall>s'. rw_step s s' \<longrightarrow> (\<exists>m. rws_pc s' 1 = ReadSpin m)) \<and>
     (\<exists>s'. rw_step s s' \<and> rws_pc s' 2 = WriteGot)"
proof -
  let ?l = "AtomicRWLock True"
  let ?a = "rw_goto 1 (ReadSpin 0) ?l (rws_init True)"
  let ?b = "rw_goto 2 WriteTry (arw_wait ?l) ?a"
  have "rw_step (rws_init True) (rw_goto 1 (ReadSpin (lock_num (rws_lock (rws_init True))))
      (rws_lock (rws_init True)) (rws_init True))"
    by (rule rw_step.read_call) (simp add: rws_init_def)
  then have "rw_step (rws_init True) ?a" by (simp add: rws_init_def AtomicRWLock_def)
  moreover have "rw_step ?a (rw_goto 2 WriteTry (arw_wait (rws_lock ?a)) ?a)"
    by (rule rw_step.write_call) (simp add: rws_init_def)
  then have "rw_step ?a ?b" by simp
  ultimately have r: "runs rw_step (rws_init True) ?b"
    by (blast intro: runs_refl runs_step)
  have sets: "rw_reading ?b = {}" "rw_writing ?b = {}"
    by (auto simp: rw_reading_def rw_writing_def rws_init_def)
  show ?thesis
    using writer_preferred [OF r, of 2] r sets by (intro exI [of _ ?b]) auto
qed

end
