(* ===== verification/Sched_Croutine.thy ===== *)
theory Sched_Croutine
  imports Base_Locks
begin

text \<open>
  Coroutines (\<^verbatim>\<open>croutine/croutine\<close>), the loop of a data driven coroutine (\<^verbatim>\<open>croutine/routine_factory.h\<close>) and of
  a worker of the task manager (\<^verbatim>\<open>task/task_manager.cc\<close>), and how both are woken up.

  The context switch itself is the resumption of the coroutine's function up to its next yield, which
  is an argument of \<^verbatim>\<open>Resume\<close>. Times are nanoseconds of the steady clock.
\<close>

section \<open>CRoutine\<close>

datatype RoutineState = READY | FINISHED | SLEEP | IO_WAIT | DATA_WAIT

record croutine =
  cr_name :: string
  cr_wake_time :: int
  cr_state :: RoutineState
  cr_lock :: bool
  cr_updated :: bool
  cr_force_stop :: bool
  cr_processor_id :: int
  cr_priority :: u32
  cr_id :: u64
  cr_group_name :: string

text \<open>The constructor, with the id and the name that the scheduler sets right after it.\<close>

definition CRoutine :: "int \<Rightarrow> u64 \<Rightarrow> string \<Rightarrow> croutine" where
  "CRoutine now i name =
     \<lparr>cr_name = name, cr_wake_time = now, cr_state = READY, cr_lock = False, cr_updated = True, cr_force_stop = False,
      cr_processor_id = - 1, cr_priority = 0, cr_id = i, cr_group_name = []\<rparr>"

definition cr_set_state :: "RoutineState \<Rightarrow> croutine \<Rightarrow> croutine" where
  "cr_set_state st cr = cr\<lparr>cr_state := st\<rparr>"

definition Wake :: "croutine \<Rightarrow> croutine" where
  "Wake cr = cr\<lparr>cr_state := READY\<rparr>"

definition HangUp :: "croutine \<Rightarrow> croutine" where
  "HangUp cr = cr_set_state DATA_WAIT cr"

definition cr_Sleep :: "int \<Rightarrow> int \<Rightarrow> croutine \<Rightarrow> croutine" where
  "cr_Sleep now sleep_duration cr = cr_set_state SLEEP (cr\<lparr>cr_wake_time := now + sleep_duration\<rparr>)"

definition UpdateState :: "int \<Rightarrow> croutine \<Rightarrow> RoutineState \<times> croutine" where
  "UpdateState now cr =
     (if cr_state cr = SLEEP \<and> cr_wake_time cr < now then (READY, cr\<lparr>cr_state := READY\<rparr>)
      else let updated = cr_updated cr; cr = cr\<lparr>cr_updated := True\<rparr>;
               cr = (if \<not> updated \<and> (cr_state cr = DATA_WAIT \<or> cr_state cr = IO_WAIT) then cr\<lparr>cr_state := READY\<rparr> else cr)
           in (cr_state cr, cr))"

definition Acquire :: "croutine \<Rightarrow> bool \<times> croutine" where
  "Acquire cr = (\<not> cr_lock cr, cr\<lparr>cr_lock := True\<rparr>)"

definition Release :: "croutine \<Rightarrow> croutine" where
  "Release cr = cr\<lparr>cr_lock := False\<rparr>"

definition SetUpdateFlag :: "croutine \<Rightarrow> croutine" where
  "SetUpdateFlag cr = cr\<lparr>cr_updated := False\<rparr>"

definition cr_Stop :: "croutine \<Rightarrow> croutine" where
  "cr_Stop cr = cr\<lparr>cr_force_stop := True\<rparr>"

definition Resume :: "(croutine \<Rightarrow> croutine) \<Rightarrow> croutine \<Rightarrow> RoutineState \<times> croutine" where
  "Resume run cr =
     (if cr_force_stop cr then (FINISHED, cr\<lparr>cr_state := FINISHED\<rparr>)
      else if cr_state cr \<noteq> READY then (cr_state cr, cr)
      else (cr_state (run cr), run cr))"

text \<open>What \<^verbatim>\<open>NotifyProcessor\<close> does to the coroutine it finds.\<close>

definition notify_routine :: "croutine \<Rightarrow> croutine" where
  "notify_routine cr = (if cr_state cr = DATA_WAIT \<or> cr_state cr = IO_WAIT then SetUpdateFlag cr else cr)"

section \<open>A coroutine and its publishers\<close>

text \<open>
  A coroutine takes messages; publishers add them and notify it. Each access to the shared state is a
  step. The processor that holds the coroutine is at one of these points:
  \<^item> \<open>PcOut\<close>: nobody holds it; \<open>PcTest\<close>: acquired, \<^verbatim>\<open>UpdateState\<close> tests and sets the flag;
  \<^item> \<open>PcTaken\<close>: the flag was clear and the state may become \<open>READY\<close>; \<open>PcDecide\<close>: run it when \<open>READY\<close>;
  \<^item> \<open>PcStart\<close>, \<open>PcFetch\<close>, \<open>PcGot\<close>, \<open>PcEmpty\<close>: in the loop of its function, before the loop body, before
    taking a message, with a message, and without one.
\<close>

datatype routine_pc = PcOut | PcTest | PcTaken | PcDecide | PcStart | PcFetch | PcGot | PcEmpty

datatype publisher_pc = PubIdle | PubAdded | PubWaiting

text \<open>The function of the coroutine: made by \<^verbatim>\<open>CreateRoutineFactory\<close>, or the worker of the task manager.\<close>

datatype routine_kind = DataRoutine | TaskWorker

record wake_sys =
  ws_cr :: croutine
  ws_pc :: routine_pc
  ws_messages :: nat
  ws_taken :: nat
  ws_publishers :: "nat \<Rightarrow> publisher_pc"

definition wake_init :: "croutine \<Rightarrow> wake_sys" where
  "wake_init cr = \<lparr>ws_cr = cr, ws_pc = PcOut, ws_messages = 0, ws_taken = 0, ws_publishers = (\<lambda>_. PubIdle)\<rparr>"

text \<open>The next step of the processor that runs the coroutine, or of the next one to acquire it.\<close>

definition routine_step :: "routine_kind \<Rightarrow> wake_sys \<Rightarrow> wake_sys" where
  "routine_step kind s =
     (case ws_pc s of
        PcOut \<Rightarrow> s\<lparr>ws_cr := snd (Acquire (ws_cr s)), ws_pc := PcTest\<rparr>
      | PcTest \<Rightarrow> s\<lparr>ws_cr := (ws_cr s)\<lparr>cr_updated := True\<rparr>, ws_pc := (if cr_updated (ws_cr s) then PcDecide else PcTaken)\<rparr>
      | PcTaken \<Rightarrow> s\<lparr>ws_cr := (if cr_state (ws_cr s) = DATA_WAIT \<or> cr_state (ws_cr s) = IO_WAIT then Wake (ws_cr s) else ws_cr s),
                     ws_pc := PcDecide\<rparr>
      | PcDecide \<Rightarrow> (if cr_state (ws_cr s) = READY then s\<lparr>ws_pc := PcStart\<rparr> else s\<lparr>ws_cr := Release (ws_cr s), ws_pc := PcOut\<rparr>)
      | PcStart \<Rightarrow> (case kind of DataRoutine \<Rightarrow> s\<lparr>ws_cr := cr_set_state DATA_WAIT (ws_cr s), ws_pc := PcFetch\<rparr>
                               | TaskWorker \<Rightarrow> s\<lparr>ws_pc := PcFetch\<rparr>)
      | PcFetch \<Rightarrow> (if 0 < ws_messages s then s\<lparr>ws_messages := ws_messages s - 1, ws_taken := ws_taken s + 1, ws_pc := PcGot\<rparr>
                    else s\<lparr>ws_pc := PcEmpty\<rparr>)
      | PcGot \<Rightarrow> (case kind of DataRoutine \<Rightarrow> s\<lparr>ws_cr := Release (cr_set_state READY (ws_cr s)), ws_pc := PcOut\<rparr>
                             | TaskWorker \<Rightarrow> s\<lparr>ws_pc := PcStart\<rparr>)
      | PcEmpty \<Rightarrow> (case kind of DataRoutine \<Rightarrow> s\<lparr>ws_cr := Release (ws_cr s), ws_pc := PcOut\<rparr>
                               | TaskWorker \<Rightarrow> s\<lparr>ws_cr := Release (HangUp (ws_cr s)), ws_pc := PcOut\<rparr>))"

text \<open>A publisher adds a message, looks at the state of the coroutine, and clears the flag when it waits.\<close>

definition publisher_step :: "nat \<Rightarrow> wake_sys \<Rightarrow> wake_sys" where
  "publisher_step i s =
     (case ws_publishers s i of
        PubIdle \<Rightarrow> s\<lparr>ws_messages := ws_messages s + 1, ws_publishers := (ws_publishers s)(i := PubAdded)\<rparr>
      | PubAdded \<Rightarrow> s\<lparr>ws_publishers := (ws_publishers s)
          (i := (if cr_state (ws_cr s) = DATA_WAIT \<or> cr_state (ws_cr s) = IO_WAIT then PubWaiting else PubIdle))\<rparr>
      | PubWaiting \<Rightarrow> s\<lparr>ws_cr := SetUpdateFlag (ws_cr s), ws_publishers := (ws_publishers s)(i := PubIdle)\<rparr>)"

inductive wake_step :: "routine_kind \<Rightarrow> wake_sys \<Rightarrow> wake_sys \<Rightarrow> bool" for kind where
  processor: "wake_step kind s (routine_step kind s)"
| publisher: "wake_step kind s (publisher_step i s)"

text \<open>The split steps of the processor are \<^verbatim>\<open>UpdateState\<close> when nobody interferes.\<close>

lemma update_steps:
  assumes "ws_pc s = PcTest" "cr_state (ws_cr s) \<noteq> SLEEP"
  shows "\<exists>k. ws_cr ((routine_step kind ^^ k) s) = snd (UpdateState now (ws_cr s)) \<and> ws_pc ((routine_step kind ^^ k) s) = PcDecide"
proof (cases "cr_updated (ws_cr s)")
  case True
  then show ?thesis using assms by (intro exI [of _ 1]) (simp add: routine_step_def UpdateState_def Let_def)
next
  case False
  then show ?thesis using assms
    by (intro exI [of _ 2]) (simp add: routine_step_def UpdateState_def Let_def numeral_2_eq_2 Wake_def)
qed

section \<open>No lost wake-up\<close>

definition awake :: "wake_sys \<Rightarrow> bool" where
  "awake s \<longleftrightarrow> ws_pc s \<in> {PcTaken, PcStart, PcFetch, PcGot} \<or> cr_state (ws_cr s) = READY \<or> \<not> cr_updated (ws_cr s)"

definition wake_inv :: "wake_sys \<Rightarrow> bool" where
  "wake_inv s \<longleftrightarrow> cr_state (ws_cr s) \<in> {READY, DATA_WAIT}
     \<and> (ws_pc s \<in> {PcFetch, PcGot, PcEmpty} \<longrightarrow> cr_state (ws_cr s) = DATA_WAIT)
     \<and> (ws_pc s = PcStart \<longrightarrow> cr_state (ws_cr s) = READY)
     \<and> (0 < ws_messages s \<longrightarrow> awake s \<or> (\<exists>i. ws_publishers s i \<noteq> PubIdle))"

lemmas wake_simps = wake_inv_def awake_def cr_set_state_def Acquire_def Release_def Wake_def HangUp_def SetUpdateFlag_def

lemma wake_inv_routine: "wake_inv s \<Longrightarrow> wake_inv (routine_step DataRoutine s)"
  by (cases "ws_pc s") (auto simp: routine_step_def wake_simps)

lemma wake_inv_publisher:
  assumes "wake_inv s"
  shows "wake_inv (publisher_step i s)"
proof (cases "ws_publishers s i")
  case PubIdle
  then show ?thesis using assms by (auto simp: publisher_step_def wake_simps)
next
  case PubAdded
  then show ?thesis using assms by (auto simp: publisher_step_def wake_simps)
next
  case PubWaiting
  then show ?thesis using assms by (auto simp: publisher_step_def wake_simps)
qed

lemma wake_inv_runs:
  assumes "runs (wake_step DataRoutine) (wake_init (CRoutine now i name)) s"
  shows "wake_inv s"
  using assms
proof (induction rule: runs.induct)
  case runs_refl
  then show ?case by (simp add: wake_init_def CRoutine_def wake_simps)
next
  case (runs_step s s')
  from runs_step(2) show ?case
    by cases (use runs_step(3) wake_inv_routine wake_inv_publisher in auto)
qed

text \<open>The processors alone take the next message within \<open>n\<close> steps.\<close>

definition takes :: "nat \<Rightarrow> wake_sys \<Rightarrow> bool" where
  "takes n s \<longleftrightarrow> (\<exists>k\<le>n. ws_taken ((routine_step DataRoutine ^^ k) s) = Suc (ws_taken s))"

lemma takes_step:
  assumes "takes n (routine_step DataRoutine s)" "ws_taken (routine_step DataRoutine s) = ws_taken s"
  shows "takes (Suc n) s"
proof -
  obtain k where "k \<le> n" "ws_taken ((routine_step DataRoutine ^^ k) (routine_step DataRoutine s)) = Suc (ws_taken s)"
    using assms by (auto simp: takes_def)
  then show ?thesis unfolding takes_def by (intro exI [of _ "Suc k"]) (simp add: funpow_Suc_right del: funpow.simps)
qed

lemma takes_mono: "takes n s \<Longrightarrow> n \<le> m \<Longrightarrow> takes m s"
  unfolding takes_def by (meson le_trans)

lemma takes_fetch: "ws_pc s = PcFetch \<Longrightarrow> 0 < ws_messages s \<Longrightarrow> takes 1 s"
  by (auto simp: takes_def routine_step_def intro!: exI [of _ 1])

lemma takes_start: "ws_pc s = PcStart \<Longrightarrow> 0 < ws_messages s \<Longrightarrow> takes 2 s"
  unfolding numeral_2_eq_2 by (rule takes_step, rule takes_fetch [unfolded One_nat_def]) (simp_all add: routine_step_def)

lemma takes_decide: "ws_pc s = PcDecide \<Longrightarrow> cr_state (ws_cr s) = READY \<Longrightarrow> 0 < ws_messages s \<Longrightarrow> takes 3 s"
  unfolding numeral_3_eq_3 by (rule takes_step, rule takes_start [unfolded numeral_2_eq_2]) (simp_all add: routine_step_def)

lemma takes_taken:
  "ws_pc s = PcTaken \<Longrightarrow> cr_state (ws_cr s) \<in> {READY, DATA_WAIT} \<Longrightarrow> 0 < ws_messages s \<Longrightarrow> takes 4 s"
  using takes_step [of 3 s] takes_decide [of "routine_step DataRoutine s"] by (auto simp: routine_step_def Wake_def)

lemma takes_test:
  assumes "ws_pc s = PcTest" "cr_state (ws_cr s) \<in> {READY, DATA_WAIT}" "cr_state (ws_cr s) = READY \<or> \<not> cr_updated (ws_cr s)"
    and "0 < ws_messages s"
  shows "takes 5 s"
proof (cases "cr_updated (ws_cr s)")
  case True
  then have "takes 3 (routine_step DataRoutine s)" using assms by (intro takes_decide) (auto simp: routine_step_def)
  then show ?thesis using takes_step [of 3 s] takes_mono [of 4 s 5] assms(1) by (simp add: routine_step_def)
next
  case False
  then have "takes 4 (routine_step DataRoutine s)" using assms by (intro takes_taken) (auto simp: routine_step_def)
  then show ?thesis using takes_step [of 4 s] assms(1) by (simp add: routine_step_def)
qed

lemma takes_out:
  assumes "ws_pc s = PcOut" "cr_state (ws_cr s) \<in> {READY, DATA_WAIT}" "cr_state (ws_cr s) = READY \<or> \<not> cr_updated (ws_cr s)"
    and "0 < ws_messages s"
  shows "takes 6 s"
proof -
  have "takes 5 (routine_step DataRoutine s)" using assms by (intro takes_test) (auto simp: routine_step_def Acquire_def)
  then show ?thesis using takes_step [of 5 s] assms(1) by (simp add: routine_step_def)
qed

lemma takes_awake:
  assumes inv: "wake_inv s" and m: "0 < ws_messages s" and a: "awake s"
  shows "ws_pc s = PcGot \<or> takes 7 s"
proof -
  have st: "cr_state (ws_cr s) \<in> {READY, DATA_WAIT}" using inv by (simp add: wake_inv_def)
  have out: "takes 7 s" if "ws_pc (routine_step DataRoutine s) = PcOut" "ws_taken (routine_step DataRoutine s) = ws_taken s"
      "ws_messages (routine_step DataRoutine s) = ws_messages s"
      "cr_state (ws_cr (routine_step DataRoutine s)) \<in> {READY, DATA_WAIT}"
      "cr_state (ws_cr (routine_step DataRoutine s)) = READY \<or> \<not> cr_updated (ws_cr (routine_step DataRoutine s))"
    using takes_step [of 6 s] takes_out [of "routine_step DataRoutine s"] that m by simp
  show ?thesis
  proof (cases "ws_pc s")
    case PcOut
    then show ?thesis using takes_out [OF PcOut st _ m] a takes_mono [of 6 s 7] by (auto simp: awake_def)
  next
    case PcTest
    then show ?thesis using takes_test [OF PcTest st _ m] a takes_mono [of 5 s 7] by (auto simp: awake_def)
  next
    case PcTaken
    then show ?thesis using takes_taken [OF PcTaken st m] takes_mono [of 4 s 7] by simp
  next
    case PcDecide
    show ?thesis
    proof (cases "cr_state (ws_cr s) = READY")
      case True
      then show ?thesis using takes_decide [OF PcDecide _ m] takes_mono [of 3 s 7] by simp
    next
      case False
      then show ?thesis using PcDecide a st by (intro disjI2 out) (auto simp: routine_step_def Release_def awake_def)
    qed
  next
    case PcStart
    then show ?thesis using takes_start [OF PcStart m] takes_mono [of 2 s 7] by simp
  next
    case PcFetch
    then show ?thesis using takes_fetch [OF PcFetch m] takes_mono [of 1 s 7] by simp
  next
    case PcEmpty
    then show ?thesis using a st inv by (intro disjI2 out) (auto simp: routine_step_def Release_def awake_def wake_inv_def)
  qed simp
qed

text \<open>
  Claim C34. No wake-up is lost. Let any number of publishers add messages for a data driven coroutine and
  notify it, in any interleaving with the processors that run it. When no publisher is in the middle
  of a notification and a message is left, the processors take the next message within eight of their
  own steps: the coroutine is not left asleep with a message waiting.
\<close>

theorem data_routine_misses_no_message:
  assumes "runs (wake_step DataRoutine) (wake_init (CRoutine now i name)) s" "\<And>p. ws_publishers s p = PubIdle" "0 < ws_messages s"
  shows "\<exists>k\<le>8. ws_taken ((routine_step DataRoutine ^^ k) s) = Suc (ws_taken s)"
proof -
  have inv: "wake_inv s" using assms(1) by (rule wake_inv_runs)
  then have a: "awake s" using assms(2,3) by (simp add: wake_inv_def)
  have "takes 8 s"
  proof (cases "ws_pc s = PcGot")
    case True
    let ?s = "routine_step DataRoutine s"
    have "takes 6 ?s" by (rule takes_out) (use True assms(3) in \<open>simp_all add: routine_step_def Release_def cr_set_state_def\<close>)
    then have "takes 7 s" using takes_step [of 6 s] True by (simp add: routine_step_def)
    then show ?thesis using takes_mono [of 7 s 8] by simp
  next
    case False
    then show ?thesis using takes_awake [OF inv assms(3) a] takes_mono [of 7 s 8] by simp
  qed
  then show ?thesis by (simp add: takes_def)
qed

theorem data_routine_misses_no_message_witness:
  "\<exists>k\<le>8. ws_taken ((routine_step DataRoutine ^^ k)
      (publisher_step 3 (publisher_step 3 (wake_init (CRoutine 0 7 ''reader''))))) = 1"
proof -
  let ?a = "wake_init (CRoutine 0 7 ''reader'')"
  let ?s = "publisher_step 3 (publisher_step 3 ?a)"
  have "runs (wake_step DataRoutine) ?a ?s" by (blast intro: runs_refl runs_step wake_step.publisher)
  moreover have "ws_publishers ?s p = PubIdle" for p by (simp add: publisher_step_def wake_init_def CRoutine_def)
  moreover have "ws_messages ?s = 1" "ws_taken ?s = 0" by (simp_all add: publisher_step_def wake_init_def CRoutine_def)
  ultimately show ?thesis using data_routine_misses_no_message [of 0 7 "''reader''" ?s] by simp
qed

text \<open>A worker that sleeps with its flag set stays asleep, whatever is in its queue.\<close>

definition asleep :: "wake_sys \<Rightarrow> bool" where
  "asleep s \<longleftrightarrow> ws_pc s \<in> {PcOut, PcTest, PcDecide} \<and> cr_state (ws_cr s) = DATA_WAIT \<and> cr_updated (ws_cr s)"

lemma asleep_step: "asleep s \<Longrightarrow> asleep (routine_step kind s) \<and> ws_taken (routine_step kind s) = ws_taken s"
  by (auto simp: asleep_def routine_step_def Acquire_def Release_def)

lemma asleep_forever: "asleep s \<Longrightarrow> asleep ((routine_step kind ^^ k) s) \<and> ws_taken ((routine_step kind ^^ k) s) = ws_taken s"
  by (induction k) (simp_all add: asleep_step)

text \<open>
  Claim C35. A worker of the task manager can miss a task. It looks into the queue before it declares that
  it waits; a task that is queued and notified in between finds the worker \<^verbatim>\<open>READY\<close> and leaves the flag alone.
  The worker then hangs up with a task in the queue, no notification is under way, and the processors
  never run it again, however many steps they take.
\<close>

theorem task_worker_can_miss_task:
  "\<exists>s. runs (wake_step TaskWorker) (wake_init (CRoutine now i name)) s \<and> ws_publishers s = (\<lambda>_. PubIdle) \<and> ws_messages s = 1
     \<and> (\<forall>k. ws_taken ((routine_step TaskWorker ^^ k) s) = 0)"
proof (intro exI conjI allI)
  let ?a = "wake_init (CRoutine now i name)"
  let ?b = "(routine_step TaskWorker ^^ 5) ?a"
  let ?c = "publisher_step 0 (publisher_step 0 ?b)"
  let ?s = "routine_step TaskWorker ?c"
  have "runs (wake_step TaskWorker) ?a ((routine_step TaskWorker ^^ n) ?a)" for n
    by (induction n) (auto intro: runs_refl runs_step wake_step.processor)
  then have "runs (wake_step TaskWorker) ?a ?b" .
  then show "runs (wake_step TaskWorker) ?a ?s" by (blast intro: runs_step wake_step.publisher wake_step.processor)
  have b: "ws_pc ?b = PcEmpty" "cr_state (ws_cr ?b) = READY" "ws_messages ?b = 0" "ws_taken ?b = 0" "ws_publishers ?b = (\<lambda>_. PubIdle)"
      "cr_updated (ws_cr ?b)"
    by (simp_all add: eval_nat_numeral routine_step_def wake_init_def CRoutine_def Acquire_def)
  have c: "ws_pc ?c = PcEmpty" "ws_messages ?c = 1" "ws_taken ?c = 0" "ws_publishers ?c = (\<lambda>_. PubIdle)" "ws_cr ?c = ws_cr ?b"
    using b by (auto simp: publisher_step_def)
  show "ws_publishers ?s = (\<lambda>_. PubIdle)" "ws_messages ?s = 1"
    using c by (simp_all add: routine_step_def [of _ ?c])
  have "asleep ?s" "ws_taken ?s = 0"
    using c b(6) by (simp_all add: routine_step_def [of _ ?c] asleep_def Release_def HangUp_def cr_set_state_def)
  then show "ws_taken ((routine_step TaskWorker ^^ k) ?s) = 0" for k using asleep_forever [where s = ?s and kind = TaskWorker and k = k] by simp
qed

end
