(* ===== verification/Sched_Context.thy ===== *)
theory Sched_Context
  imports Sched_Croutine "HOL-Library.Multiset"
begin

text \<open>
  The run queues of the scheduler: the contexts of processors under the classic policy
  (\<^verbatim>\<open>scheduler/policy/classic_context\<close>) and under the choreography policy (\<^verbatim>\<open>choreography_context\<close>).

  Coroutines are objects of a list, named by their position. The queues of the classic policy are static
  members, shared by all contexts; those of the choreography policy belong to one context. An operation is
  one step: the lock of a queue is held for the whole of it, except that the classic \<^verbatim>\<open>NextRoutine\<close> locks one level
  at a time, so that a routine added meanwhile to a level already searched is found by the next search.
\<close>

section \<open>Looking for a routine to run\<close>

text \<open>
  One pass over a queue: the inner loop of both \<^verbatim>\<open>NextRoutine\<close>. The clock is read for each routine, \<open>now c\<close>
  is what it says when \<open>c\<close> is looked at.
\<close>

fun scan :: "(nat \<Rightarrow> int) \<Rightarrow> nat list \<Rightarrow> croutine list \<Rightarrow> nat option \<times> croutine list" where
  "scan now [] crs = (None, crs)"
| "scan now (c # cs) crs =
     (let (ok, cr) = Acquire (crs ! c)
      in if \<not> ok then scan now cs (crs[c := cr])
         else let (st, cr) = UpdateState (now c) cr
              in if st = READY then (Some c, crs[c := cr]) else scan now cs (crs[c := Release cr]))"

section \<open>ClassicContext\<close>

definition MAX_PRIO :: nat where "MAX_PRIO = 20"

definition DEFAULT_GROUP_NAME :: string where "DEFAULT_GROUP_NAME = ''default_grp''"

type_synonym multi_prio_queue = "nat list list"

definition empty_queue :: multi_prio_queue where
  "empty_queue = replicate MAX_PRIO []"

text \<open>The static members: queues and pending notifications of each group.\<close>

record run_queues =
  rq_cr_group :: "(string, multi_prio_queue) umap"
  rq_notify_grp :: "(string, int) umap"

record classic_context =
  cc_stop :: bool
  cc_current_grp :: string

definition InitGroup :: "string \<Rightarrow> run_queues \<Rightarrow> run_queues" where
  "InitGroup group_name rq =
     rq\<lparr>rq_cr_group := um_touch empty_queue group_name (rq_cr_group rq), rq_notify_grp := um_set group_name 0 (rq_notify_grp rq)\<rparr>"

definition ClassicContext :: "string \<Rightarrow> run_queues \<Rightarrow> classic_context \<times> run_queues" where
  "ClassicContext group_name rq = (\<lparr>cc_stop = False, cc_current_grp = group_name\<rparr>, InitGroup group_name rq)"

text \<open>The loop over the priorities, from the highest down; \<open>qs\<close> starts with the highest.\<close>

fun scan_levels :: "(nat \<Rightarrow> int) \<Rightarrow> multi_prio_queue \<Rightarrow> croutine list \<Rightarrow> nat option \<times> croutine list" where
  "scan_levels now [] crs = (None, crs)"
| "scan_levels now (q # qs) crs =
     (let (found, crs) = scan now q crs in case found of Some c \<Rightarrow> (Some c, crs) | None \<Rightarrow> scan_levels now qs crs)"

definition cc_NextRoutine :: "(nat \<Rightarrow> int) \<Rightarrow> classic_context \<Rightarrow> run_queues \<Rightarrow> croutine list \<Rightarrow> nat option \<times> croutine list" where
  "cc_NextRoutine now cx rq crs =
     (if cc_stop cx then (None, crs)
      else scan_levels now (rev (um_at empty_queue (cc_current_grp cx) (rq_cr_group rq))) crs)"

text \<open>
  \<^verbatim>\<open>Wait\<close> at the moment it returns: notified, or after a second. The counter is an \<^verbatim>\<open>int\<close>, taken as unbounded.
\<close>

definition cc_Wait :: "classic_context \<Rightarrow> run_queues \<Rightarrow> run_queues" where
  "cc_Wait cx rq =
     (let n = um_at 0 (cc_current_grp cx) (rq_notify_grp rq);
          rq = rq\<lparr>rq_notify_grp := um_touch 0 (cc_current_grp cx) (rq_notify_grp rq)\<rparr>
      in if 0 < n then rq\<lparr>rq_notify_grp := um_set (cc_current_grp cx) (n - 1) (rq_notify_grp rq)\<rparr> else rq)"

definition cc_Shutdown :: "classic_context \<Rightarrow> run_queues \<Rightarrow> classic_context \<times> run_queues" where
  "cc_Shutdown cx rq =
     (cx\<lparr>cc_stop := True\<rparr>, rq\<lparr>rq_notify_grp := um_set (cc_current_grp cx) 255 (rq_notify_grp rq)\<rparr>)"

definition cc_Notify :: "string \<Rightarrow> run_queues \<Rightarrow> run_queues" where
  "cc_Notify group_name rq =
     rq\<lparr>rq_notify_grp := um_set group_name (um_at 0 group_name (rq_notify_grp rq) + 1) (rq_notify_grp rq)\<rparr>"

text \<open>
  How a call ends that searches a queue and waits for a routine. \<^verbatim>\<open>Throws\<close> is the exception of an index out of
  range, \<open>Waits\<close> means that the routine is held by a processor and the call is still waiting.
\<close>

datatype outcome = Returns bool | Waits | Throws

text \<open>The priority level of a routine in its group, and adding to it; \<open>None\<close> is the exception of \<^verbatim>\<open>at\<close>.\<close>

definition cc_enqueue :: "nat \<Rightarrow> croutine \<Rightarrow> run_queues \<Rightarrow> run_queues option" where
  "cc_enqueue c cr rq =
     (let qs = um_at empty_queue (cr_group_name cr) (rq_cr_group rq); p = unat (cr_priority cr)
      in if p < MAX_PRIO then Some (rq\<lparr>rq_cr_group := um_set (cr_group_name cr) (qs[p := qs ! p @ [c]]) (rq_cr_group rq)\<rparr>)
         else None)"

text \<open>\<^verbatim>\<open>croutines.erase(it)\<close> at the first routine with the id.\<close>

fun erase_first :: "(nat \<Rightarrow> bool) \<Rightarrow> nat list \<Rightarrow> nat list" where
  "erase_first P [] = []"
| "erase_first P (c # cs) = (if P c then cs else c # erase_first P cs)"

definition cc_RemoveCRoutine :: "croutine \<Rightarrow> run_queues \<Rightarrow> croutine list \<Rightarrow> outcome \<times> run_queues \<times> croutine list" where
  "cc_RemoveCRoutine cr rq crs =
     (let grp = cr_group_name cr; p = unat (cr_priority cr); qs = um_at empty_queue grp (rq_cr_group rq)
      in if \<not> p < MAX_PRIO then (Throws, rq, crs)
         else case find (\<lambda>c. cr_id (crs ! c) = cr_id cr) (qs ! p) of
                None \<Rightarrow> (Returns False, rq\<lparr>rq_cr_group := um_touch empty_queue grp (rq_cr_group rq)\<rparr>, crs)
              | Some c \<Rightarrow>
                  let crs = crs[c := cr_Stop (crs ! c)]; (ok, cr') = Acquire (crs ! c)
                  in if \<not> ok then (Waits, rq, crs)
                     else (Returns True,
                       rq\<lparr>rq_cr_group := um_set grp (qs[p := erase_first (\<lambda>c. cr_id (crs ! c) = cr_id cr) (qs ! p)]) (rq_cr_group rq)\<rparr>,
                       crs[c := Release cr']))"

section \<open>ChoreographyContext\<close>

record choreography_context =
  hc_stop :: bool
  hc_notify :: int
  hc_cr_queue :: "(u32 \<times> nat) list"

definition ChoreographyContext :: choreography_context where
  "ChoreographyContext = \<lparr>hc_stop = False, hc_notify = 0, hc_cr_queue = []\<rparr>"

definition hc_NextRoutine :: "(nat \<Rightarrow> int) \<Rightarrow> choreography_context \<Rightarrow> croutine list \<Rightarrow> nat option \<times> croutine list" where
  "hc_NextRoutine now cx crs = (if hc_stop cx then (None, crs) else scan now (map snd (hc_cr_queue cx)) crs)"

text \<open>\<^verbatim>\<open>emplace\<close> into a multimap ordered by \<^verbatim>\<open>std::greater\<close>: behind the elements with the same key.\<close>

fun mm_emplace :: "u32 \<Rightarrow> nat \<Rightarrow> (u32 \<times> nat) list \<Rightarrow> (u32 \<times> nat) list" where
  "mm_emplace p c [] = [(p, c)]"
| "mm_emplace p c ((p', c') # q) = (if p \<le> p' then (p', c') # mm_emplace p c q else (p, c) # (p', c') # q)"

definition hc_Enqueue :: "nat \<Rightarrow> croutine \<Rightarrow> choreography_context \<Rightarrow> choreography_context" where
  "hc_Enqueue c cr cx = cx\<lparr>hc_cr_queue := mm_emplace (cr_priority cr) c (hc_cr_queue cx)\<rparr>"

definition hc_Notify :: "choreography_context \<Rightarrow> choreography_context" where
  "hc_Notify cx = cx\<lparr>hc_notify := hc_notify cx + 1\<rparr>"

definition hc_Wait :: "choreography_context \<Rightarrow> choreography_context" where
  "hc_Wait cx = (if 0 < hc_notify cx then cx\<lparr>hc_notify := hc_notify cx - 1\<rparr> else cx)"

definition hc_Shutdown :: "choreography_context \<Rightarrow> choreography_context" where
  "hc_Shutdown cx = cx\<lparr>hc_stop := True, hc_notify := 255\<rparr>"

fun mm_erase_first :: "(nat \<Rightarrow> bool) \<Rightarrow> (u32 \<times> nat) list \<Rightarrow> (u32 \<times> nat) list" where
  "mm_erase_first P [] = []"
| "mm_erase_first P ((p, c) # q) = (if P c then q else (p, c) # mm_erase_first P q)"

definition hc_RemoveCRoutine :: "u64 \<Rightarrow> choreography_context \<Rightarrow> croutine list \<Rightarrow> outcome \<times> choreography_context \<times> croutine list" where
  "hc_RemoveCRoutine crid cx crs =
     (case find (\<lambda>c. cr_id (crs ! c) = crid) (map snd (hc_cr_queue cx)) of
        None \<Rightarrow> (Returns False, cx, crs)
      | Some c \<Rightarrow>
          let crs = crs[c := cr_Stop (crs ! c)]; (ok, cr') = Acquire (crs ! c)
          in if \<not> ok then (Waits, cx, crs)
             else (Returns True, cx\<lparr>hc_cr_queue := mm_erase_first (\<lambda>c. cr_id (crs ! c) = crid) (hc_cr_queue cx)\<rparr>, crs[c := Release cr']))"

section \<open>The routine that is chosen\<close>

text \<open>A routine that a processor may run: not held, and \<open>READY\<close> once its state is updated.\<close>

definition runnable :: "(nat \<Rightarrow> int) \<Rightarrow> croutine list \<Rightarrow> nat \<Rightarrow> bool" where
  "runnable now crs c \<longleftrightarrow> \<not> cr_lock (crs ! c) \<and> fst (UpdateState (now c) (crs ! c)) = READY"

lemma runnable_update: "c \<noteq> d \<Longrightarrow> runnable now (crs[c := cr]) d = runnable now crs d"
  by (simp add: runnable_def)

lemma UpdateState_fst_lock: "fst (UpdateState now (cr\<lparr>cr_lock := b\<rparr>)) = fst (UpdateState now cr)"
  by (simp add: UpdateState_def Let_def)

lemma UpdateState_fields [simp]:
  "cr_lock (snd (UpdateState now cr)) = cr_lock cr" "cr_id (snd (UpdateState now cr)) = cr_id cr"
  "cr_priority (snd (UpdateState now cr)) = cr_priority cr" "cr_group_name (snd (UpdateState now cr)) = cr_group_name cr"
  "cr_processor_id (snd (UpdateState now cr)) = cr_processor_id cr" "cr_name (snd (UpdateState now cr)) = cr_name cr"
  by (simp_all add: UpdateState_def Let_def)

text \<open>What a pass does to the routines it looks at: taken, or looked at and put back.\<close>

definition taken :: "int \<Rightarrow> croutine \<Rightarrow> croutine" where
  "taken now cr = snd (UpdateState now (cr\<lparr>cr_lock := True\<rparr>))"

lemma scan_Cons:
  "scan now (c # cs) crs =
     (if cr_lock (crs ! c) then scan now cs crs
      else if runnable now crs c then (Some c, crs[c := taken (now c) (crs ! c)])
      else scan now cs (crs[c := Release (taken (now c) (crs ! c))]))"
proof -
  have "(crs ! c)\<lparr>cr_lock := True\<rparr> = crs ! c" if "cr_lock (crs ! c)" using that by (cases "crs ! c") simp
  then have "crs[c := (crs ! c)\<lparr>cr_lock := True\<rparr>] = crs" if "cr_lock (crs ! c)" using that list_update_id [of crs c] by metis
  then show ?thesis by (auto simp: Acquire_def split_beta Let_def UpdateState_fst_lock runnable_def taken_def)
qed

declare scan.simps(2) [simp del]

lemma scan_finds:
  assumes "distinct q"
  shows "fst (scan now q crs) = find (runnable now crs) q"
  using assms
proof (induction q arbitrary: crs)
  case (Cons c cs)
  have other: "find (runnable now (crs[c := cr])) cs = find (runnable now crs) cs" for cr
    using Cons.prems by (intro find_cong refl runnable_update) auto
  show ?case using Cons other by (auto simp: scan_Cons runnable_def [of now crs c])
qed simp

text \<open>A pass keeps everything but states and flags, and it holds just the routine that it returns.\<close>

definition fixed :: "croutine \<Rightarrow> u64 \<times> u32 \<times> string \<times> int \<times> string" where
  "fixed cr = (cr_id cr, cr_priority cr, cr_group_name cr, cr_processor_id cr, cr_name cr)"

definition locks :: "croutine list \<Rightarrow> bool list" where
  "locks crs = map cr_lock crs"

lemma taken_fields [simp]:
  "fixed (taken now cr) = fixed cr" "cr_lock (taken now cr)" "fixed (Release cr) = fixed cr" "\<not> cr_lock (Release cr)"
  by (simp_all add: taken_def fixed_def Release_def)

lemma map_update_same: "f x = f (xs ! i) \<Longrightarrow> map f (xs[i := x]) = map f xs"
  by (simp add: map_update) (metis list_update_beyond list_update_id map_update not_le_imp_less)

lemma scan_fixed: "map fixed (snd (scan now q crs)) = map fixed crs"
  by (induction q arbitrary: crs) (simp_all add: scan_Cons map_update_same)

lemma scan_locks:
  "locks (snd (scan now q crs)) = (case fst (scan now q crs) of None \<Rightarrow> locks crs | Some c \<Rightarrow> (locks crs)[c := True])"
proof (induction q arbitrary: crs)
  case (Cons c cs)
  have "locks (crs[c := Release (taken (now c) (crs ! c))]) = locks crs" if "\<not> cr_lock (crs ! c)"
    using that unfolding locks_def by (intro map_update_same) simp
  moreover have "locks (crs[c := taken (now c) (crs ! c)]) = (locks crs)[c := True]" by (simp add: locks_def map_update)
  ultimately show ?case using Cons by (cases "cr_lock (crs ! c)") (simp_all add: scan_Cons split: option.split)
qed (simp add: locks_def)

lemma scan_append:
  "scan now (p @ q) crs = (case scan now p crs of (Some c, crs) \<Rightarrow> (Some c, crs) | (None, crs) \<Rightarrow> scan now q crs)"
  by (induction p arbitrary: crs) (simp_all add: scan_Cons)

lemma scan_levels_concat: "scan_levels now qs crs = scan now (concat qs) crs"
  by (induction qs arbitrary: crs) (auto simp: scan_append split_beta Let_def split: prod.splits option.splits)

section \<open>Queues\<close>

lemma mset_mm_emplace: "mset (map snd (mm_emplace p c q)) = add_mset c (mset (map snd q))"
  by (induction p c q rule: mm_emplace.induct) simp_all

lemma set_mm_emplace: "set (mm_emplace p c q) = insert (p, c) (set q)"
  by (induction p c q rule: mm_emplace.induct) auto

text \<open>The order in which routines are tried: by decreasing priority, and by age.\<close>

definition before :: "croutine list \<Rightarrow> nat \<Rightarrow> nat \<Rightarrow> bool" where
  "before crs c d \<longleftrightarrow> cr_priority (crs ! d) < cr_priority (crs ! c) \<or> (cr_priority (crs ! c) = cr_priority (crs ! d) \<and> c < d)"

lemma before_distinct: "sorted_wrt (before crs) q \<Longrightarrow> distinct q"
  by (induction q) (auto simp: before_def)

lemma before_cong:
  "(\<And>c. c \<in> set q \<Longrightarrow> cr_priority (crs' ! c) = cr_priority (crs ! c)) \<Longrightarrow> sorted_wrt (before crs') q = sorted_wrt (before crs) q"
  by (induction q) (auto simp: before_def)

lemma before_emplace:
  assumes "sorted_wrt (before crs) (map snd q)" "\<And>p d. (p, d) \<in> set q \<Longrightarrow> p = cr_priority (crs ! d) \<and> d < c"
  shows "sorted_wrt (before crs) (map snd (mm_emplace (cr_priority (crs ! c)) c q))"
  using assms
proof (induction "cr_priority (crs ! c)" c q rule: mm_emplace.induct)
  case (2 c p' c' q)
  have p': "p' = cr_priority (crs ! c')" "c' < c" using "2.prems"(2) [of p' c'] by auto
  have rest: "d \<in> snd ` set q \<Longrightarrow> before crs c' d" for d using "2.prems"(1) by auto
  show ?case
  proof (cases "cr_priority (crs ! c) \<le> p'")
    case True
    then have "before crs c' c" using p' by (auto simp: before_def)
    then show ?thesis using True "2.hyps" [OF True] "2.prems" rest by (auto simp: set_mm_emplace)
  next
    case False
    then have "before crs c c'" using p' by (auto simp: before_def)
    moreover have "before crs c d" if "d \<in> snd ` set q" for d
      using rest [OF that] False p' by (auto simp: before_def)
    ultimately show ?thesis using False "2.prems"(1) by auto
  qed
qed simp

lemma mm_erase_first_snd: "map snd (mm_erase_first P q) = erase_first P (map snd q)"
  by (induction P q rule: mm_erase_first.induct) simp_all

lemma set_mm_erase_first: "set (mm_erase_first P q) \<subseteq> set q"
  by (induction P q rule: mm_erase_first.induct) auto

lemma set_erase_first: "set (erase_first P q) \<subseteq> set q"
  by (induction q) auto

lemma sorted_erase_first: "sorted_wrt R q \<Longrightarrow> sorted_wrt R (erase_first P q)"
  using set_erase_first [of P] by (induction q) auto

lemma erase_first_unique:
  assumes "distinct q" "c \<in> set q" "\<And>d. d \<in> set q \<Longrightarrow> P d \<longleftrightarrow> d = c"
  shows "find P q = Some c" "set (erase_first P q) = set q - {c}"
  using assms by (induction q) auto

text \<open>
  The routine a context takes: the first runnable one of its queue, in the order of decreasing priority.
  It then holds this routine and no other one, and identities, priorities and groups are as before.
\<close>

definition takes_first :: "(nat \<Rightarrow> int) \<Rightarrow> bool \<Rightarrow> nat list \<Rightarrow> croutine list \<Rightarrow> nat option \<times> croutine list \<Rightarrow> bool" where
  "takes_first now stop q crs r \<longleftrightarrow>
     fst r = (if stop then None else find (runnable now crs) q)
     \<and> locks (snd r) = (case fst r of None \<Rightarrow> locks crs | Some c \<Rightarrow> (locks crs)[c := True])
     \<and> map fixed (snd r) = map fixed crs"

definition group_queue :: "string \<Rightarrow> run_queues \<Rightarrow> nat list" where
  "group_queue grp rq = concat (rev (um_at empty_queue grp (rq_cr_group rq)))"

lemma cc_NextRoutine_takes:
  assumes "distinct (group_queue (cc_current_grp cx) rq)"
  shows "takes_first now (cc_stop cx) (group_queue (cc_current_grp cx) rq) crs (cc_NextRoutine now cx rq crs)"
  using scan_finds [OF assms] scan_locks [of now "group_queue (cc_current_grp cx) rq" crs] scan_fixed [of now _ crs]
  by (simp add: takes_first_def cc_NextRoutine_def scan_levels_concat group_queue_def)

lemma hc_NextRoutine_takes:
  assumes "distinct (map snd (hc_cr_queue cx))"
  shows "takes_first now (hc_stop cx) (map snd (hc_cr_queue cx)) crs (hc_NextRoutine now cx crs)"
  using scan_finds [OF assms] scan_locks [of now "map snd (hc_cr_queue cx)" crs] scan_fixed [of now _ crs]
  by (simp add: takes_first_def hc_NextRoutine_def)

end
