(* ===== verification/Cyber_Interfaces.thy ===== *)
theory Cyber_Interfaces
  imports Cyber_Prelude
begin

text \<open>
  The contracts between components, each a locale: what a client calls and the laws the
  provider promises. The client lemmas are proved here once, inside the locale; the theory of
  the providing component interprets the locale on its own definitions.

  \<^item> \<open>keyed_map\<close>: a map from integral keys to values. Clients are the registries that keep a
    vector per key (\<open>registry_add\<close>): the buffers of a channel, the notifiers of a channel.
  \<^item> \<open>fifo_queue\<close>: a queue whose dequeue order is the enqueue order, with a capacity.
\<close>

section \<open>Keyed maps and registries\<close>

text \<open>
  The registration idiom of the sources, over any map: look the vector of the key up,
  append to it in place when it is there, else store a vector of one element.
\<close>

definition registry_add ::
  "('m \<Rightarrow> 'k \<Rightarrow> 'e list option) \<Rightarrow> ('k \<Rightarrow> 'e list \<Rightarrow> 'm \<Rightarrow> 'm) \<Rightarrow> 'k \<Rightarrow> 'e \<Rightarrow> 'm \<Rightarrow> 'm" where
  "registry_add get set' k x m =
     (case get m k of
        Some xs \<Rightarrow> set' k (xs @ [x]) m
      | None \<Rightarrow> set' k [x] m)"

fun registry_adds ::
  "('m \<Rightarrow> 'k \<Rightarrow> 'e list option) \<Rightarrow> ('k \<Rightarrow> 'e list \<Rightarrow> 'm \<Rightarrow> 'm) \<Rightarrow> ('k \<times> 'e) list \<Rightarrow> 'm \<Rightarrow> 'm" where
  "registry_adds get set' [] m = m"
| "registry_adds get set' ((k, x) # ps) m =
     registry_adds get set' ps (registry_add get set' k x m)"

locale keyed_map =
  fixes empty :: 'm
    and get :: "'m \<Rightarrow> 'k \<Rightarrow> 'v option"
    and set' :: "'k \<Rightarrow> 'v \<Rightarrow> 'm \<Rightarrow> 'm"
    and invar :: "'m \<Rightarrow> bool"
  assumes invar_empty: "invar empty"
    and get_empty: "get empty k = None"
    and invar_set: "invar m \<Longrightarrow> invar (set' k v m)"
    and get_set: "invar m \<Longrightarrow> get (set' k v m) k' = (if k' = k then Some v else get m k')"
begin

lemma set_overwrites: "invar m \<Longrightarrow> get (set' k w (set' k v m)) = get (set' k w m)"
  by (auto simp: fun_eq_iff get_set invar_set)

lemma set_commutes:
  "invar m \<Longrightarrow> k \<noteq> k' \<Longrightarrow> get (set' k v (set' k' v' m)) = get (set' k' v' (set' k v m))"
  by (auto simp: fun_eq_iff get_set invar_set)

end

locale registry = keyed_map empty get set' invar
  for empty :: 'm
    and get :: "'m \<Rightarrow> 'k \<Rightarrow> 'e list option"
    and set' :: "'k \<Rightarrow> 'e list \<Rightarrow> 'm \<Rightarrow> 'm"
    and invar :: "'m \<Rightarrow> bool"
begin

lemma invar_registry_add: "invar m \<Longrightarrow> invar (registry_add get set' k x m)"
  by (auto simp: registry_add_def invar_set split: option.splits)

lemma get_registry_add:
  assumes "invar m"
  shows "get (registry_add get set' k x m) k' =
    (if k' = k then Some (case get m k of None \<Rightarrow> [x] | Some xs \<Rightarrow> xs @ [x]) else get m k')"
  using assms by (auto simp: registry_add_def get_set split: option.splits)

text \<open>After any sequence of registrations a key holds exactly its elements, in order.\<close>

lemma get_registry_adds:
  assumes "invar m"
  shows "invar (registry_adds get set' ps m) \<and>
    get (registry_adds get set' ps m) k =
      (case get m k of
         None \<Rightarrow> (if map snd (filter (\<lambda>p. fst p = k) ps) = [] then None
                  else Some (map snd (filter (\<lambda>p. fst p = k) ps)))
       | Some xs \<Rightarrow> Some (xs @ map snd (filter (\<lambda>p. fst p = k) ps)))"
  using assms
proof (induction ps arbitrary: m)
  case Nil
  then show ?case by (simp split: option.splits)
next
  case (Cons p ps)
  obtain k0 x where p: "p = (k0, x)" by (cases p)
  have inv: "invar (registry_add get set' k0 x m)"
    using Cons.prems by (rule invar_registry_add)
  show ?case
    using Cons.IH [OF inv] Cons.prems
    by (auto simp: p get_registry_add split: option.splits)
qed

lemma registered_in_order:
  "get (registry_adds get set' ps empty) k =
     (let xs = map snd (filter (\<lambda>p. fst p = k) ps) in if xs = [] then None else Some xs)"
  using get_registry_adds [OF invar_empty, of ps k] by (simp add: get_empty Let_def)

end

section \<open>FIFO queues\<close>

locale fifo_queue =
  fixes contents :: "'q \<Rightarrow> 'a list"
    and enq :: "'a \<Rightarrow> 'q \<Rightarrow> bool \<times> 'q"
    and deq :: "'q \<Rightarrow> 'a option \<times> 'q"
    and room :: "'q \<Rightarrow> nat"
    and invar :: "'q \<Rightarrow> bool"
  assumes enq_ok: "invar q \<Longrightarrow> 0 < room q \<Longrightarrow>
      fst (enq x q) \<and> contents (snd (enq x q)) = contents q @ [x] \<and>
      invar (snd (enq x q)) \<and> room (snd (enq x q)) \<ge> room q - 1"
    and deq_ok: "invar q \<Longrightarrow> contents q = y # ys \<Longrightarrow>
      fst (deq q) = Some y \<and> contents (snd (deq q)) = ys \<and> invar (snd (deq q))"
    and deq_none: "invar q \<Longrightarrow> contents q = [] \<Longrightarrow> deq q = (None, q)"
begin

fun enqs :: "'a list \<Rightarrow> 'q \<Rightarrow> 'q" where
  "enqs [] q = q"
| "enqs (x # xs) q = enqs xs (snd (enq x q))"

fun deqs :: "nat \<Rightarrow> 'q \<Rightarrow> 'a option list \<times> 'q" where
  "deqs 0 q = ([], q)"
| "deqs (Suc n) q = (let (r, q') = deq q; (rs, q'') = deqs n q' in (r # rs, q''))"

lemma enqs_contents:
  "invar q \<Longrightarrow> length xs \<le> room q \<Longrightarrow>
   contents (enqs xs q) = contents q @ xs \<and> invar (enqs xs q)"
proof (induction xs arbitrary: q)
  case Nil
  then show ?case by simp
next
  case (Cons x xs)
  have step: "contents (snd (enq x q)) = contents q @ [x]" "invar (snd (enq x q))"
    "length xs \<le> room (snd (enq x q))"
    using enq_ok [OF Cons.prems(1), of x] Cons.prems(2) by auto
  from Cons.IH [OF step(2,3)] step(1) show ?case by simp
qed

lemma deqs_contents:
  "invar q \<Longrightarrow> contents q = ys @ zs \<Longrightarrow>
   fst (deqs (length ys) q) = map Some ys \<and> contents (snd (deqs (length ys) q)) = zs \<and>
   invar (snd (deqs (length ys) q))"
proof (induction ys arbitrary: q)
  case Nil
  then show ?case by simp
next
  case (Cons y ys)
  have d: "fst (deq q) = Some y" "contents (snd (deq q)) = ys @ zs" "invar (snd (deq q))"
    using deq_ok [OF Cons.prems(1), of y "ys @ zs"] Cons.prems(2) by auto
  from Cons.IH [OF d(3,2)] d(1) show ?case
    by (simp add: split_beta Let_def)
qed

text \<open>First in, first out: what was put into an empty queue comes out in the same order.\<close>

lemma fifo_order:
  assumes "invar q" and "contents q = []" and "length xs \<le> room q"
  shows "fst (deqs (length xs) (enqs xs q)) = map Some xs"
proof -
  have "contents (enqs xs q) = xs @ []" "invar (enqs xs q)"
    using enqs_contents [OF assms(1,3)] assms(2) by simp_all
  then show ?thesis using deqs_contents by blast
qed

end

end
