(* ===== verification/Base_HashMap.thy ===== *)
theory Base_HashMap
  imports Cyber_Interfaces
begin

text \<open>
  The lock-free hash map of \<^verbatim>\<open>cyber/base/atomic_hash_map.h\<close>.

  A bucket is the chain of entries behind the sentinel \<^verbatim>\<open>head_\<close>, in link order. An entry is
  never unlinked and its key never changes, so the key identifies the entry: a pointer
  \<^verbatim>\<open>Entry*\<close> into the chain is modelled by \<open>Some key\<close>, the sentinel by \<open>None\<close> as a predecessor, and
  the null pointer by \<open>None\<close> as a successor.

  \<^verbatim>\<open>Insert\<close> retries until its compare-exchange succeeds. The interference of other threads between
  the traversal (\<^verbatim>\<open>Find\<close>) and the compare-exchange of each attempt is an argument of the
  model: a list of bucket transformers, one per attempt. With the empty list the operation
  runs undisturbed.
\<close>

section \<open>Buckets\<close>

type_synonym 'v bucket = "(u64 \<times> 'v) list"

fun bucket_Has :: "u64 \<Rightarrow> 'v bucket \<Rightarrow> bool" where
  "bucket_Has key [] = False"
| "bucket_Has key ((k, v) # es) = (if k < key then bucket_Has key es else k = key)"

text \<open>\<^verbatim>\<open>Find\<close>: whether the key is there, and the \<^verbatim>\<open>prev\<close> and \<^verbatim>\<open>target\<close> pointers it stores.\<close>

fun bucket_Find :: "u64 \<Rightarrow> u64 option \<Rightarrow> 'v bucket \<Rightarrow> bool \<times> u64 option \<times> u64 option" where
  "bucket_Find key prev [] = (False, prev, None)"
| "bucket_Find key prev ((k, v) # es) =
     (if k = key then (True, prev, Some k)
      else if k > key then (False, prev, Some k)
      else bucket_Find key (Some k) es)"

definition bucket_Get :: "u64 \<Rightarrow> 'v bucket \<Rightarrow> 'v option" where
  "bucket_Get key b =
     (case bucket_Find key None b of
        (True, prev, Some t) \<Rightarrow> map_of b t
      | _ \<Rightarrow> None)"

fun first_entry :: "'v bucket \<Rightarrow> u64 option" where
  "first_entry [] = None"
| "first_entry ((k, v) # es) = Some k"

text \<open>The \<^verbatim>\<open>next\<close> field of the entry a pointer designates.\<close>

fun entry_next :: "u64 option \<Rightarrow> 'v bucket \<Rightarrow> u64 option" where
  "entry_next None b = first_entry b"
| "entry_next (Some p) [] = None"
| "entry_next (Some p) ((k, v) # es) = (if k = p then first_entry es else entry_next (Some p) es)"

fun link_after :: "u64 option \<Rightarrow> u64 \<times> 'v \<Rightarrow> 'v bucket \<Rightarrow> 'v bucket" where
  "link_after None e b = e # b"
| "link_after (Some p) e [] = []"
| "link_after (Some p) e ((k, v) # es) =
     (if k = p then (k, v) # e # es else (k, v) # link_after (Some p) e es)"

fun store_value :: "u64 \<Rightarrow> 'v \<Rightarrow> 'v bucket \<Rightarrow> 'v bucket" where
  "store_value t w [] = []"
| "store_value t w ((k, v) # es) = (if k = t then (k, w) # es else (k, v) # store_value t w es)"

text \<open>
  One round of the loop in \<^verbatim>\<open>Insert\<close>: \<^verbatim>\<open>Find\<close> and the loads see the chain \<open>b0\<close>, the
  compare-exchange acts on the chain \<open>b1\<close>. \<open>None\<close> is a failed compare-exchange.
\<close>

definition insert_attempt :: "u64 \<Rightarrow> 'v \<Rightarrow> 'v bucket \<Rightarrow> 'v bucket \<Rightarrow> 'v bucket option" where
  "insert_attempt key val b0 b1 =
     (case bucket_Find key None b0 of
        (True, prev, target) \<Rightarrow>
          if map_of b1 key = map_of b0 key then Some (store_value key val b1) else None
      | (False, prev, target) \<Rightarrow>
          if entry_next prev b1 = target then Some (link_after prev (key, val) b1) else None)"

fun bucket_Insert :: "('v bucket \<Rightarrow> 'v bucket) list \<Rightarrow> u64 \<Rightarrow> 'v \<Rightarrow> 'v bucket \<Rightarrow> 'v bucket" where
  "bucket_Insert [] key val b =
     (case insert_attempt key val b b of Some b' \<Rightarrow> b' | None \<Rightarrow> b)"
| "bucket_Insert (interfere # rest) key val b =
     (let b1 = interfere b in
      case insert_attempt key val b b1 of
        Some b' \<Rightarrow> b'
      | None \<Rightarrow> bucket_Insert rest key val b1)"

text \<open>\<^verbatim>\<open>Insert(key)\<close> stores a default-constructed value.\<close>

definition bucket_Insert_default ::
  "'v \<Rightarrow> ('v bucket \<Rightarrow> 'v bucket) list \<Rightarrow> u64 \<Rightarrow> 'v bucket \<Rightarrow> 'v bucket" where
  "bucket_Insert_default dflt env key b = bucket_Insert env key dflt b"

section \<open>The table\<close>

record 'v atomic_hash_map =
  ahm_table :: "'v bucket list"
  ahm_capacity :: u64
  ahm_mode_num :: u64

definition AtomicHashMap :: "nat \<Rightarrow> 'v atomic_hash_map" where
  "AtomicHashMap table_size =
     \<lparr>ahm_table = replicate table_size [],
      ahm_capacity = of_nat table_size,
      ahm_mode_num = of_nat table_size - 1\<rparr>"

definition ahm_index :: "'v atomic_hash_map \<Rightarrow> u64 \<Rightarrow> nat" where
  "ahm_index m key = unat (key AND ahm_mode_num m)"

definition ahm_Has :: "'v atomic_hash_map \<Rightarrow> u64 \<Rightarrow> bool" where
  "ahm_Has m key = bucket_Has key (ahm_table m ! ahm_index m key)"

definition ahm_Get :: "'v atomic_hash_map \<Rightarrow> u64 \<Rightarrow> 'v option" where
  "ahm_Get m key = bucket_Get key (ahm_table m ! ahm_index m key)"

definition ahm_Set_env ::
  "('v bucket \<Rightarrow> 'v bucket) list \<Rightarrow> u64 \<Rightarrow> 'v \<Rightarrow> 'v atomic_hash_map \<Rightarrow> 'v atomic_hash_map" where
  "ahm_Set_env env key val m =
     (let index = ahm_index m key in
      m\<lparr>ahm_table := (ahm_table m)[index := bucket_Insert env key val (ahm_table m ! index)]\<rparr>)"

definition ahm_Set :: "u64 \<Rightarrow> 'v \<Rightarrow> 'v atomic_hash_map \<Rightarrow> 'v atomic_hash_map" where
  "ahm_Set key val m = ahm_Set_env [] key val m"

definition ahm_Set_default :: "'v \<Rightarrow> u64 \<Rightarrow> 'v atomic_hash_map \<Rightarrow> 'v atomic_hash_map" where
  "ahm_Set_default dflt key m =
     (let index = ahm_index m key in
      m\<lparr>ahm_table := (ahm_table m)
          [index := bucket_Insert_default dflt [] key (ahm_table m ! index)]\<rparr>)"

section \<open>Invariants\<close>

text \<open>Chains are strictly ordered by key; the table keeps every key in its own bucket.\<close>

definition bucket_ok :: "'v bucket \<Rightarrow> bool" where
  "bucket_ok b = sorted_wrt (<) (map fst b)"

text \<open>What other inserts may do to a chain: keep it ordered and keep its keys.\<close>

definition benign :: "('v bucket \<Rightarrow> 'v bucket) \<Rightarrow> bool" where
  "benign f = (\<forall>b. bucket_ok b \<longrightarrow> bucket_ok (f b) \<and> set (map fst b) \<subseteq> set (map fst (f b)))"

definition ahm_ok :: "'v atomic_hash_map \<Rightarrow> bool" where
  "ahm_ok m =
     (0 < length (ahm_table m) \<and> length (ahm_table m) < 2 ^ 64 \<and>
      ahm_mode_num m = of_nat (length (ahm_table m)) - 1 \<and>
      (\<forall>i < length (ahm_table m).
         bucket_ok (ahm_table m ! i) \<and>
         (\<forall>k \<in> set (map fst (ahm_table m ! i)). ahm_index m k = i)))"

declare bucket_ok_def [inv_defs] benign_def [inv_defs] ahm_ok_def [inv_defs]

section \<open>Correctness of the chains\<close>

lemma bucket_ok_Nil [simp]: "bucket_ok []"
  by (simp add: bucket_ok_def)

lemma bucket_ok_Cons [simp]:
  "bucket_ok ((k, v) # es) \<longleftrightarrow> (\<forall>k' \<in> set (map fst es). k < k') \<and> bucket_ok es"
  by (auto simp: bucket_ok_def)

lemma bucket_ok_distinct: "bucket_ok b \<Longrightarrow> distinct (map fst b)"
  by (induction b) force+

lemma bucket_Has_correct: "bucket_ok b \<Longrightarrow> bucket_Has key b \<longleftrightarrow> key \<in> set (map fst b)"
  by (induction b) force+

lemma bucket_Find_iff: "bucket_ok b \<Longrightarrow> fst (bucket_Find key prev b) \<longleftrightarrow> key \<in> set (map fst b)"
  by (induction b arbitrary: prev) force+

lemma bucket_Find_target:
  "bucket_ok b \<Longrightarrow> key \<in> set (map fst b) \<Longrightarrow> snd (snd (bucket_Find key prev b)) = Some key"
  by (induction b arbitrary: prev) force+

lemma bucket_Get_map_of: "bucket_ok b \<Longrightarrow> bucket_Get key b = map_of b key"
proof (cases "key \<in> set (map fst b)")
  case True
  assume ok: "bucket_ok b"
  have "fst (bucket_Find key None b)" "snd (snd (bucket_Find key None b)) = Some key"
    using True ok by (simp_all add: bucket_Find_iff bucket_Find_target)
  then show ?thesis
    by (cases "bucket_Find key None b") (auto simp: bucket_Get_def)
next
  case False
  assume ok: "bucket_ok b"
  have "\<not> fst (bucket_Find key None b)" using False ok by (simp add: bucket_Find_iff)
  moreover have "map_of b key = None" using False by (simp add: map_of_eq_None_iff)
  ultimately show ?thesis
    by (cases "bucket_Find key None b") (auto simp: bucket_Get_def split: bool.splits)
qed

text \<open>When the key is absent, \<^verbatim>\<open>Find\<close> returns adjacent entries around its place.\<close>

lemma first_entry_append: "first_entry (xs @ ys) = (if xs = [] then first_entry ys else first_entry xs)"
  by (cases xs) auto

lemma bucket_Find_absent:
  assumes "bucket_ok b" and "key \<notin> set (map fst b)"
  shows "\<exists>xs ys. b = xs @ ys \<and>
    bucket_Find key prev b =
      (False, if xs = [] then prev else Some (fst (last xs)), first_entry ys) \<and>
    (\<forall>k \<in> set (map fst xs). k < key) \<and> (\<forall>k \<in> set (map fst ys). key < k)"
  using assms
proof (induction b arbitrary: prev)
  case Nil
  then show ?case by simp
next
  case (Cons e es)
  obtain k v where e: "e = (k, v)" by (cases e)
  show ?case
  proof (cases "key < k")
    case True
    with Cons.prems show ?thesis
      by (intro exI [of _ "[]"] exI [of _ "e # es"]) (auto simp: e)
  next
    case False
    with Cons.prems have lt: "k < key" by (auto simp: e)
    from Cons.prems e have "bucket_ok es" "key \<notin> set (map fst es)" by auto
    from Cons.IH [OF this, of "Some k"] obtain xs ys where ih:
      "es = xs @ ys"
      "bucket_Find key (Some k) es =
         (False, if xs = [] then Some k else Some (fst (last xs)), first_entry ys)"
      "\<forall>k \<in> set (map fst xs). k < key" "\<forall>k \<in> set (map fst ys). key < k"
      by blast
    from ih lt show ?thesis
      by (intro exI [of _ "e # xs"] exI [of _ ys]) (auto simp: e)
  qed
qed

lemma entry_next_split:
  assumes "distinct (map fst b)" and "p \<in> set (map fst b)"
  shows "\<exists>xs v ys. b = xs @ (p, v) # ys \<and> entry_next (Some p) b = first_entry ys \<and>
    (\<forall>e. link_after (Some p) e b = xs @ (p, v) # e # ys)"
  using assms
proof (induction b)
  case Nil
  then show ?case by simp
next
  case (Cons e es)
  obtain k v where e: "e = (k, v)" by (cases e)
  show ?case
  proof (cases "k = p")
    case True
    then show ?thesis by (intro exI [of _ "[]"]) (auto simp: e)
  next
    case False
    with Cons.prems e have "distinct (map fst es)" "p \<in> set (map fst es)" by auto
    from Cons.IH [OF this] obtain xs w ys where ih:
      "es = xs @ (p, w) # ys" "entry_next (Some p) es = first_entry ys"
      "\<forall>e. link_after (Some p) e es = xs @ (p, w) # e # ys" by blast
    with False show ?thesis by (intro exI [of _ "e # xs"]) (auto simp: e)
  qed
qed

lemma first_entry_bound:
  assumes "bucket_ok ys" and "first_entry ys = first_entry zs"
    and "\<forall>k \<in> set (map fst zs). key < k"
  shows "\<forall>k \<in> set (map fst ys). key < k"
proof (cases ys)
  case Nil
  then show ?thesis by simp
next
  case (Cons e es)
  with assms(2) obtain w zs' where "zs = (fst e, w) # zs'"
    by (cases zs; cases e) auto
  with assms(3) have "key < fst e" by simp
  with assms(1) Cons show ?thesis by (cases e) auto
qed

lemma bucket_ok_append:
  "bucket_ok (xs @ ys) \<longleftrightarrow>
     bucket_ok xs \<and> bucket_ok ys \<and> (\<forall>a \<in> set (map fst xs). \<forall>b \<in> set (map fst ys). a < b)"
  by (auto simp: bucket_ok_def sorted_wrt_append)

lemma map_of_insert_mid:
  "k \<notin> fst ` set us \<Longrightarrow> map_of (us @ (k, v) # vs) = (map_of (us @ vs))(k \<mapsto> v)"
  by (induction us) (auto simp: fun_eq_iff)

text \<open>
  The heart of the lock-free insert: linking behind \<^verbatim>\<open>prev\<close> when \<^verbatim>\<open>prev->next\<close> is still
  \<^verbatim>\<open>target\<close> keeps the order, even though the chain has grown since the traversal.
\<close>

lemma link_keeps_order:
  assumes b0: "bucket_ok b0" "key \<notin> set (map fst b0)"
    and b1: "bucket_ok b1" "set (map fst b0) \<subseteq> set (map fst b1)"
    and find: "bucket_Find key None b0 = (False, prev, target)"
    and cas: "entry_next prev b1 = target"
  shows "bucket_ok (link_after prev (key, val) b1) \<and>
    map_of (link_after prev (key, val) b1) = (map_of b1)(key \<mapsto> val)"
proof -
  obtain xs ys where split: "b0 = xs @ ys"
    and prev: "prev = (if xs = [] then None else Some (fst (last xs)))"
    and target: "target = first_entry ys"
    and lo: "\<forall>k \<in> set (map fst xs). k < key" and hi: "\<forall>k \<in> set (map fst ys). key < k"
    using bucket_Find_absent [OF b0, of None] find by auto
  obtain us vs where b1': "b1 = us @ vs"
    and link: "link_after prev (key, val) b1 = us @ (key, val) # vs"
    and next': "entry_next prev b1 = first_entry vs"
    and us: "\<forall>k \<in> set (map fst us). k < key"
  proof (cases xs)
    case Nil
    with prev show ?thesis by (intro that [of "[]" b1]) auto
  next
    case (Cons x xs')
    let ?p = "fst (last xs)"
    have "?p \<in> set (map fst b1)" and plt: "?p < key"
      using Cons b1(2) lo by (auto simp: split)
    from entry_next_split [OF bucket_ok_distinct [OF b1(1)] this(1)] obtain us v vs where
      s: "b1 = us @ (?p, v) # vs" "entry_next (Some ?p) b1 = first_entry vs"
         "\<forall>e. link_after (Some ?p) e b1 = us @ (?p, v) # e # vs" by blast
    have "\<forall>k \<in> set (map fst us). k < key"
      using b1(1) plt by (fastforce simp: s(1) bucket_ok_append)
    with s plt Cons prev show ?thesis
      by (intro that [of "us @ [(?p, v)]" vs]) auto
  qed
  have vs: "\<forall>k \<in> set (map fst vs). key < k"
    using first_entry_bound [of vs ys key] b1(1) cas next' target hi
    by (auto simp: b1' bucket_ok_append)
  have "bucket_ok (us @ (key, val) # vs)"
    using b1(1) us vs by (auto simp: b1' bucket_ok_append)
  moreover have "key \<notin> fst ` set us" using us by auto
  then have "map_of (us @ (key, val) # vs) = (map_of (us @ vs))(key \<mapsto> val)"
    by (rule map_of_insert_mid)
  ultimately show ?thesis unfolding link by (simp add: b1')
qed

lemma store_value_ok:
  "key \<in> set (map fst b) \<Longrightarrow>
   map fst (store_value key w b) = map fst b \<and>
   map_of (store_value key w b) = (map_of b)(key \<mapsto> w)"
  by (induction b) (force simp: fun_eq_iff)+

lemma insert_attempt_ok:
  assumes "bucket_ok b0" "bucket_ok b1" "set (map fst b0) \<subseteq> set (map fst b1)"
    and "insert_attempt key val b0 b1 = Some b'"
  shows "bucket_ok b' \<and> map_of b' = (map_of b1)(key \<mapsto> val)"
proof (cases "key \<in> set (map fst b0)")
  case True
  then have "fst (bucket_Find key None b0)" using assms(1) by (simp add: bucket_Find_iff)
  with assms(4) have "b' = store_value key val b1"
    by (auto simp: insert_attempt_def split: prod.splits bool.splits if_splits)
  moreover have "key \<in> set (map fst b1)" using True assms(3) by blast
  note store_value_ok [OF this, of val]
  ultimately show ?thesis using assms(2) by (simp add: bucket_ok_def)
next
  case False
  then have nf: "\<not> fst (bucket_Find key None b0)" using assms(1) by (simp add: bucket_Find_iff)
  then obtain prev target where f: "bucket_Find key None b0 = (False, prev, target)"
    by (cases "bucket_Find key None b0") auto
  with assms(4) have "entry_next prev b1 = target" "b' = link_after prev (key, val) b1"
    by (auto simp: insert_attempt_def split: if_splits)
  with link_keeps_order [OF assms(1) False assms(2,3) f] show ?thesis by simp
qed

text \<open>Undisturbed, the first attempt succeeds.\<close>

lemma entry_next_Find:
  assumes "bucket_ok b" "bucket_Find key None b = (False, prev, target)"
  shows "entry_next prev b = target"
proof -
  have nin: "key \<notin> set (map fst b)"
    using bucket_Find_iff [OF assms(1), of key None] assms(2) by auto
  from bucket_Find_absent [OF assms(1) nin, of None] assms(2) obtain xs ys where
    s: "b = xs @ ys" "prev = (if xs = [] then None else Some (fst (last xs)))"
       "target = first_entry ys" by auto
  show ?thesis
  proof (cases "xs = []")
    case True
    with s show ?thesis by simp
  next
    case False
    then obtain zs p v where xs: "xs = zs @ [(p, v)]" by (metis rev_exhaust surj_pair)
    have "distinct (map fst b)" using assms(1) by (rule bucket_ok_distinct)
    then have "entry_next (Some p) (zs @ (p, v) # ys) = first_entry ys"
      unfolding s(1) xs by (induction zs) auto
    with s xs show ?thesis by simp
  qed
qed

lemma insert_attempt_undisturbed:
  assumes "bucket_ok b"
  shows "insert_attempt key val b b \<noteq> None"
  using entry_next_Find [OF assms, of key]
  by (auto simp: insert_attempt_def split: prod.splits bool.splits)

lemma bucket_Insert_ok:
  assumes "bucket_ok b" and "\<forall>f \<in> set env. benign f"
  shows "bucket_ok (bucket_Insert env key val b) \<and>
    map_of (bucket_Insert env key val b) key = Some val \<and>
    set (map fst b) \<subseteq> set (map fst (bucket_Insert env key val b))"
  using assms
proof (induction env arbitrary: b)
  case Nil
  obtain b' where b': "insert_attempt key val b b = Some b'"
    using insert_attempt_undisturbed [OF Nil.prems(1)] by blast
  have ok: "bucket_ok b'" "map_of b' = (map_of b)(key \<mapsto> val)"
    using insert_attempt_ok [OF Nil.prems(1) Nil.prems(1) order_refl b'] by auto
  then have "dom (map_of b) \<subseteq> dom (map_of b')" by auto
  then have "fst ` set b \<subseteq> fst ` set b'" by (simp only: dom_map_of_conv_image_fst)
  with ok b' show ?case by simp
next
  case (Cons f env)
  from Cons.prems have f: "bucket_ok (f b)" "set (map fst b) \<subseteq> set (map fst (f b))"
    by (auto simp: benign_def)
  show ?case
  proof (cases "insert_attempt key val b (f b)")
    case None
    with Cons.IH [OF f(1)] Cons.prems(2) show ?thesis
      by (simp add: Let_def) (use f(2) in \<open>force\<close>)
  next
    case (Some b')
    have ok: "bucket_ok b'" "map_of b' = (map_of (f b))(key \<mapsto> val)"
      using insert_attempt_ok [OF Cons.prems(1) f Some] by auto
    then have "dom (map_of (f b)) \<subseteq> dom (map_of b')" by auto
    then have "fst ` set (f b) \<subseteq> fst ` set b'" by (simp only: dom_map_of_conv_image_fst)
    with ok Some f(2) show ?thesis by (auto simp: Let_def)
  qed
qed

lemma bucket_Insert_seq:
  assumes "bucket_ok b"
  shows "map_of (bucket_Insert [] key val b) = (map_of b)(key \<mapsto> val)"
proof -
  obtain b' where b': "insert_attempt key val b b = Some b'"
    using insert_attempt_undisturbed [OF assms] by blast
  with insert_attempt_ok [OF assms assms order_refl b'] show ?thesis by simp
qed

declare bucket_Insert.simps [simp del]

section \<open>Correctness of the table\<close>

lemma ahm_index_bound:
  assumes "ahm_ok m"
  shows "ahm_index m key < length (ahm_table m)"
proof -
  let ?n = "length (ahm_table m)"
  have n: "0 < ?n" "?n < 2 ^ 64" "ahm_mode_num m = of_nat ?n - 1"
    using assms by (auto simp: ahm_ok_def)
  have "unat (of_nat ?n :: u64) = ?n" using n(2) by (simp add: unat_of_nat)
  then have "unat (of_nat ?n - 1 :: u64) = ?n - 1"
    using n(1) by (subst unat_diff_le) (simp_all add: Suc_le_eq)
  moreover have "unat (key AND ahm_mode_num m) \<le> unat (ahm_mode_num m)"
    by (rule word_and_le1 [THEN word_le_nat_alt [THEN iffD1]])
  ultimately have "ahm_index m key \<le> ?n - 1" using n(3) by (simp add: ahm_index_def)
  with n(1) show ?thesis by arith
qed

lemma ahm_bucket_ok: "ahm_ok m \<Longrightarrow> bucket_ok (ahm_table m ! ahm_index m key)"
  using ahm_index_bound by (auto simp: ahm_ok_def)

lemma ahm_ok_new:
  "0 < n \<Longrightarrow> n < 2 ^ 64 \<Longrightarrow> ahm_ok (AtomicHashMap n)"
  by (simp add: ahm_ok_def AtomicHashMap_def)

lemma ahm_Get_new:
  assumes "0 < n" "n < 2 ^ 64"
  shows "ahm_Get (AtomicHashMap n :: 'v atomic_hash_map) k = None"
proof -
  let ?m = "AtomicHashMap n :: 'v atomic_hash_map"
  have "ahm_index ?m k < length (ahm_table ?m)"
    by (rule ahm_index_bound [OF ahm_ok_new [OF assms]])
  then have "ahm_table ?m ! ahm_index ?m k = []"
    by (simp add: AtomicHashMap_def)
  then show ?thesis by (simp add: ahm_Get_def bucket_Get_def)
qed

lemma ahm_index_Set_env [simp]: "ahm_index (ahm_Set_env env k v m) = ahm_index m"
  by (simp add: fun_eq_iff ahm_index_def ahm_Set_env_def Let_def)

lemma length_Set_env [simp]:
  "length (ahm_table (ahm_Set_env env k v m)) = length (ahm_table m)"
  by (simp add: ahm_Set_env_def Let_def)

lemma ahm_table_Set_env:
  assumes "ahm_ok m" "i < length (ahm_table m)"
  shows "ahm_table (ahm_Set_env env k v m) ! i =
    (if i = ahm_index m k then bucket_Insert env k v (ahm_table m ! i) else ahm_table m ! i)"
  using assms by (auto simp: ahm_Set_env_def Let_def)

lemma bucket_Insert_keys:
  assumes "bucket_ok b"
  shows "set (map fst (bucket_Insert [] k v b)) = insert k (set (map fst b))"
proof -
  have "dom (map_of (bucket_Insert [] k v b)) = insert k (dom (map_of b))"
    using bucket_Insert_seq [OF assms, of k v] by simp
  then show ?thesis by (simp only: dom_map_of_conv_image_fst set_map)
qed

lemma ahm_ok_Set: "ahm_ok m \<Longrightarrow> ahm_ok (ahm_Set k v m)"
proof -
  assume ok: "ahm_ok m"
  have b: "bucket_ok (ahm_table m ! i)" if "i < length (ahm_table m)" for i
    using ok that by (simp add: ahm_ok_def)
  show "ahm_ok (ahm_Set k v m)"
    unfolding ahm_Set_def ahm_ok_def
  proof (intro conjI allI impI)
    fix i assume i: "i < length (ahm_table (ahm_Set_env [] k v m))"
    then have i': "i < length (ahm_table m)" by simp
    show "bucket_ok (ahm_table (ahm_Set_env [] k v m) ! i)"
      using bucket_Insert_ok [OF b [OF i'], of "[]" k v] b [OF i']
      by (auto simp: ahm_table_Set_env [OF ok i'])
    have "set (map fst (ahm_table (ahm_Set_env [] k v m) ! i)) \<subseteq>
        (if i = ahm_index m k then {k} else {}) \<union> set (map fst (ahm_table m ! i))"
      using bucket_Insert_keys [OF b [OF i'], of k v] by (auto simp: ahm_table_Set_env [OF ok i'])
    moreover have "\<forall>ka \<in> set (map fst (ahm_table m ! i)). ahm_index m ka = i"
      using ok i' by (simp add: ahm_ok_def)
    ultimately show "\<forall>ka \<in> set (map fst (ahm_table (ahm_Set_env [] k v m) ! i)).
        ahm_index (ahm_Set_env [] k v m) ka = i"
      unfolding ahm_index_Set_env by (fastforce split: if_splits)
  qed (use ok in \<open>auto simp: ahm_ok_def ahm_Set_env_def Let_def\<close>)
qed

lemma ahm_Get_Set:
  assumes ok: "ahm_ok m"
  shows "ahm_Get (ahm_Set k v m) k' = (if k' = k then Some v else ahm_Get m k')"
proof -
  let ?i = "ahm_index m k'"
  have i: "?i < length (ahm_table m)" using ok by (rule ahm_index_bound)
  have b: "bucket_ok (ahm_table m ! ?i)" using ok by (rule ahm_bucket_ok)
  have b': "bucket_ok (bucket_Insert [] k v (ahm_table m ! ?i))"
    using bucket_Insert_ok [OF b, of "[]" k v] by simp
  show ?thesis
    using bucket_Get_map_of [OF b] bucket_Get_map_of [OF b'] bucket_Insert_seq [OF b]
    by (auto simp: ahm_Get_def ahm_Set_def ahm_table_Set_env [OF ok i])
qed

lemma ahm_Has_Get: "ahm_ok m \<Longrightarrow> ahm_Has m k \<longleftrightarrow> ahm_Get m k \<noteq> None"
  by (simp add: ahm_Has_def ahm_Get_def bucket_Has_correct bucket_Get_map_of ahm_bucket_ok
      map_of_eq_None_iff)

lemma ahm_Set_default_eq: "ahm_Set_default d k m = ahm_Set k d m"
  by (simp add: ahm_Set_default_def ahm_Set_def ahm_Set_env_def bucket_Insert_default_def)

interpretation ahm: keyed_map "AtomicHashMap 128" ahm_Get ahm_Set ahm_ok
  by unfold_locales (auto simp: ahm_ok_new ahm_Get_new ahm_ok_Set ahm_Get_Set)

interpretation ahm_reg: registry "AtomicHashMap 128" ahm_Get ahm_Set ahm_ok
  by unfold_locales

section \<open>Properties\<close>

lemma ahm_Has_Set_env:
  assumes ok: "ahm_ok m" and env: "\<forall>f \<in> set env. benign f" and has: "ahm_Has m k'"
  shows "ahm_Has (ahm_Set_env env k v m) k'"
proof -
  let ?i = "ahm_index m k'"
  have i: "?i < length (ahm_table m)" using ok by (rule ahm_index_bound)
  have b: "bucket_ok (ahm_table m ! ?i)" using ok by (rule ahm_bucket_ok)
  then have "k' \<in> set (map fst (ahm_table m ! ?i))"
    using has by (simp add: ahm_Has_def bucket_Has_correct)
  moreover have "bucket_ok (bucket_Insert env k v (ahm_table m ! ?i))"
    "set (map fst (ahm_table m ! ?i)) \<subseteq> set (map fst (bucket_Insert env k v (ahm_table m ! ?i)))"
    using bucket_Insert_ok [OF b env] by auto
  ultimately have "bucket_Has k' (bucket_Insert env k v (ahm_table m ! ?i))"
    using bucket_Has_correct by blast
  then show ?thesis using has by (auto simp: ahm_Has_def ahm_table_Set_env [OF ok i])
qed

text \<open>
  Claim C6. A \<^verbatim>\<open>Set\<close> that races with any number of other inserts into its chain (each of which
  may make its compare-exchange fail) still ends with its key mapped to its value, and no key
  that was in the map is lost.
\<close>

theorem set_survives_interference:
  assumes "ahm_ok m" and "\<forall>f \<in> set env. benign f"
  shows "ahm_Get (ahm_Set_env env k v m) k = Some v \<and>
    (\<forall>k'. ahm_Has m k' \<longrightarrow> ahm_Has (ahm_Set_env env k v m) k')"
proof -
  let ?i = "ahm_index m k"
  have i: "?i < length (ahm_table m)" using assms(1) by (rule ahm_index_bound)
  have b: "bucket_ok (ahm_table m ! ?i)" using assms(1) by (rule ahm_bucket_ok)
  note ins = bucket_Insert_ok [OF b assms(2), of k v]
  then have "ahm_Get (ahm_Set_env env k v m) k = Some v"
    by (simp add: ahm_Get_def ahm_table_Set_env [OF assms(1) i] bucket_Get_map_of)
  then show ?thesis using ahm_Has_Set_env [OF assms] by blast
qed

lemma benign_link_130: "benign (\<lambda>b :: nat bucket. bucket_Insert [] 130 7 b)"
  using bucket_Insert_ok [of _ "[]" 130 7] by (auto simp: benign_def)

theorem set_survives_interference_witness:
  "ahm_Get (ahm_Set_env [\<lambda>b. bucket_Insert [] 130 7 b] 2 (5 :: nat) (ahm_Set 3 9 (AtomicHashMap 128))) 2 = Some 5 \<and>
   ahm_Has (ahm_Set_env [\<lambda>b. bucket_Insert [] 130 7 b] 2 (5 :: nat) (ahm_Set 3 9 (AtomicHashMap 128))) 3"
proof -
  have "ahm_ok (ahm_Set 3 (9 :: nat) (AtomicHashMap 128))" by (rule ahm_ok_Set [OF ahm_ok_new]) simp_all
  moreover have "ahm_Has (ahm_Set 3 (9 :: nat) (AtomicHashMap 128)) 3" by code_simp
  ultimately show ?thesis
    using set_survives_interference [of "ahm_Set 3 (9 :: nat) (AtomicHashMap 128)" "[\<lambda>b. bucket_Insert [] 130 7 b]" 2 5]
      benign_link_130 by simp
qed

text \<open>
  After any sequence of registrations through the map (the rings of the channels, the
  notifiers of the channels), looking up a channel gives exactly its own registrations in the order
  they were made, and fails when there is none.
\<close>

lemma registrations_in_order:
  "ahm_Get (registry_adds ahm_Get ahm_Set ps (AtomicHashMap 128)) k =
     (let xs = map snd (filter (\<lambda>p. fst p = k) ps) in if xs = [] then None else Some xs)"
  by (rule ahm_reg.registered_in_order)

end
