(* ===== verification/Common_GlobalData.thy ===== *)
theory Common_GlobalData
  imports Base_HashMap "HOL-Library.Monad_Syntax"
begin

text \<open>
  The process-wide data of \<^verbatim>\<open>common/global_data\<close>: the registries that give every node, channel,
  service and task name a 64-bit id (the hash of the name, moved on while another name has the id),
  the arena configuration of channels, the run mode and the choice of the host address.

  The registries are atomic hash maps, so their laws come from \<open>Base_HashMap\<close>. The standard hash of
  strings is a parameter.
\<close>

section \<open>Registries\<close>

type_synonym id_map = "string atomic_hash_map"

partial_function (option) probe_id :: "string \<Rightarrow> id_map \<Rightarrow> u64 \<Rightarrow> u64 option" where
  "probe_id name m ident =
     (if ahm_Has m ident then
        (case ahm_Get m ident of None \<Rightarrow> None
         | Some other \<Rightarrow> if name = other then Some ident else probe_id name m (ident + 1))
      else Some ident)"

definition register_name :: "(string \<Rightarrow> u64) \<Rightarrow> string \<Rightarrow> id_map \<Rightarrow> (u64 \<times> id_map) option" where
  "register_name Hash name m = do { ident \<leftarrow> probe_id name m (Hash name); Some (ident, ahm_Set ident name m) }"

definition name_by_id :: "u64 \<Rightarrow> id_map \<Rightarrow> string" where
  "name_by_id ident m = (case ahm_Get m ident of Some name \<Rightarrow> name | None \<Rightarrow> '''')"

datatype run_mode = MODE_REALITY | MODE_SIMULATION

datatype clock_mode = MODE_CYBER | MODE_MOCK

record arena_channel_conf =
  ac_channel_name :: string
  ac_max_msg_size :: u64
  ac_max_pool_size :: u64
  ac_shared_buffer_size :: u64

definition ArenaChannelConf :: arena_channel_conf where
  "ArenaChannelConf = \<lparr>ac_channel_name = '''', ac_max_msg_size = 33554432, ac_max_pool_size = 32, ac_shared_buffer_size = 0\<rparr>"

text \<open>The arena part of the configuration is missing when any message around it is.\<close>

record global_data =
  gd_arena_conf :: "arena_channel_conf list option"
  gd_host_ip :: string
  gd_host_name :: string
  gd_process_id :: int
  gd_process_group :: string
  gd_component_nums :: int
  gd_sched_name :: string
  gd_run_mode :: run_mode
  gd_clock_mode :: clock_mode
  gd_node_id_map :: id_map
  gd_channel_id_map :: id_map
  gd_service_id_map :: id_map
  gd_task_id_map :: id_map

definition RegisterNode :: "(string \<Rightarrow> u64) \<Rightarrow> string \<Rightarrow> global_data \<Rightarrow> (u64 \<times> global_data) option" where
  "RegisterNode Hash name g = do { (ident, m) \<leftarrow> register_name Hash name (gd_node_id_map g); Some (ident, g\<lparr>gd_node_id_map := m\<rparr>) }"

definition GetNodeById :: "u64 \<Rightarrow> global_data \<Rightarrow> string" where
  "GetNodeById ident g = name_by_id ident (gd_node_id_map g)"

definition RegisterChannel :: "(string \<Rightarrow> u64) \<Rightarrow> string \<Rightarrow> global_data \<Rightarrow> (u64 \<times> global_data) option" where
  "RegisterChannel Hash name g = do { (ident, m) \<leftarrow> register_name Hash name (gd_channel_id_map g); Some (ident, g\<lparr>gd_channel_id_map := m\<rparr>) }"

definition GetChannelById :: "u64 \<Rightarrow> global_data \<Rightarrow> string" where
  "GetChannelById ident g = name_by_id ident (gd_channel_id_map g)"

definition RegisterService :: "(string \<Rightarrow> u64) \<Rightarrow> string \<Rightarrow> global_data \<Rightarrow> (u64 \<times> global_data) option" where
  "RegisterService Hash name g = do { (ident, m) \<leftarrow> register_name Hash name (gd_service_id_map g); Some (ident, g\<lparr>gd_service_id_map := m\<rparr>) }"

definition GetServiceById :: "u64 \<Rightarrow> global_data \<Rightarrow> string" where
  "GetServiceById ident g = name_by_id ident (gd_service_id_map g)"

definition RegisterTaskName :: "(string \<Rightarrow> u64) \<Rightarrow> string \<Rightarrow> global_data \<Rightarrow> (u64 \<times> global_data) option" where
  "RegisterTaskName Hash name g = do { (ident, m) \<leftarrow> register_name Hash name (gd_task_id_map g); Some (ident, g\<lparr>gd_task_id_map := m\<rparr>) }"

definition GetTaskNameById :: "u64 \<Rightarrow> global_data \<Rightarrow> string" where
  "GetTaskNameById ident g = name_by_id ident (gd_task_id_map g)"

section \<open>Configuration and host\<close>

definition SetProcessGroup :: "string \<Rightarrow> global_data \<Rightarrow> global_data" where
  "SetProcessGroup process_group g = g\<lparr>gd_process_group := process_group\<rparr>"

definition SetComponentNums :: "int \<Rightarrow> global_data \<Rightarrow> global_data" where
  "SetComponentNums component_nums g = g\<lparr>gd_component_nums := component_nums\<rparr>"

definition SetSchedName :: "string \<Rightarrow> global_data \<Rightarrow> global_data" where
  "SetSchedName sched_name g = g\<lparr>gd_sched_name := sched_name\<rparr>"

definition EnableSimulationMode :: "global_data \<Rightarrow> global_data" where
  "EnableSimulationMode g = g\<lparr>gd_run_mode := MODE_SIMULATION\<rparr>"

definition DisableSimulationMode :: "global_data \<Rightarrow> global_data" where
  "DisableSimulationMode g = g\<lparr>gd_run_mode := MODE_REALITY\<rparr>"

definition IsRealityMode :: "global_data \<Rightarrow> bool" where
  "IsRealityMode g = (gd_run_mode g = MODE_REALITY)"

definition IsMockTimeMode :: "global_data \<Rightarrow> bool" where
  "IsMockTimeMode g = (gd_clock_mode g = MODE_MOCK)"

definition IsChannelEnableArenaShm :: "string \<Rightarrow> global_data \<Rightarrow> bool" where
  "IsChannelEnableArenaShm channel_name g =
     (case gd_arena_conf g of None \<Rightarrow> False
      | Some confs \<Rightarrow> list_ex (\<lambda>c. channel_name = ac_channel_name c) confs)"

definition IsChannelEnableArenaShm_id :: "u64 \<Rightarrow> global_data \<Rightarrow> bool" where
  "IsChannelEnableArenaShm_id channel_id g = IsChannelEnableArenaShm (GetChannelById channel_id g) g"

definition GetChannelArenaConf :: "string \<Rightarrow> global_data \<Rightarrow> arena_channel_conf" where
  "GetChannelArenaConf channel_name g =
     (case find (\<lambda>c. channel_name = ac_channel_name c) (case gd_arena_conf g of None \<Rightarrow> [] | Some confs \<Rightarrow> confs) of
        Some c \<Rightarrow> c | None \<Rightarrow> ArenaChannelConf)"

definition GetChannelArenaConf_id :: "u64 \<Rightarrow> global_data \<Rightarrow> arena_channel_conf" where
  "GetChannelArenaConf_id channel_id g = GetChannelArenaConf (GetChannelById channel_id g) g"

text \<open>
  The host address: the environment variable, and what the system lists for each interface (whether
  there is an IPv4 address and its text, if it can be had).
\<close>

fun first_address :: "(bool \<times> string option) list \<Rightarrow> string \<Rightarrow> string" where
  "first_address [] host_ip = host_ip"
| "first_address ((inet, name) # ifs) host_ip =
     (if \<not> inet then first_address ifs host_ip
      else (case name of None \<Rightarrow> first_address ifs host_ip
            | Some ip \<Rightarrow> if take 3 ip \<noteq> ''127'' then ip else first_address ifs host_ip))"

definition InitHostInfo :: "string \<Rightarrow> string option \<Rightarrow> (bool \<times> string option) list option \<Rightarrow> global_data \<Rightarrow> global_data" where
  "InitHostInfo host_name ip_env ifaddr g =
     (let g = g\<lparr>gd_host_ip := ''127.0.0.1'', gd_host_name := host_name\<rparr>;
          listed = (case ifaddr of None \<Rightarrow> g | Some ifs \<Rightarrow> g\<lparr>gd_host_ip := first_address ifs (gd_host_ip g)\<rparr>)
      in case ip_env of None \<Rightarrow> listed
         | Some ip \<Rightarrow> if take 3 ip \<noteq> ''127'' then g\<lparr>gd_host_ip := ip\<rparr> else listed)"

section \<open>Names and ids\<close>

text \<open>Every registered name is found where the search for it ends.\<close>

definition reg_ok :: "(string \<Rightarrow> u64) \<Rightarrow> id_map \<Rightarrow> bool" where
  "reg_ok Hash m \<longleftrightarrow> ahm_ok m \<and> (\<forall>i name. ahm_Get m i = Some name \<longrightarrow> probe_id name m (Hash name) = Some i)"

lemma probe_id_step:
  assumes "ahm_ok m"
  shows "probe_id name m i = (case ahm_Get m i of None \<Rightarrow> Some i
    | Some other \<Rightarrow> if name = other then Some i else probe_id name m (i + 1))"
  using ahm_Has_Get [OF assms] by (subst probe_id.simps) (auto split: option.splits)

text \<open>The search ends when any id is free, at a free id or at the name.\<close>

lemma probe_id_reaches:
  assumes ok: "ahm_ok m" and "ahm_Get m (i + of_nat k) = None"
  shows "\<exists>j. probe_id name m i = Some j \<and> (ahm_Get m j = None \<or> ahm_Get m j = Some name)"
  using assms(2)
proof (induction k arbitrary: i)
  case 0
  then show ?case by (simp add: probe_id_step [OF ok])
next
  case (Suc k)
  have "ahm_Get m ((i + 1) + of_nat k) = None" using Suc.prems by (simp add: add.assoc)
  from Suc.IH [OF this] show ?case
    by (subst probe_id_step [OF ok]) (auto split: option.splits)
qed

lemma free_distance: "(i :: u64) + of_nat (unat (f - i)) = f"
  by simp

lemma probe_id_total:
  assumes "ahm_ok m" and "ahm_Get m f = None"
  shows "\<exists>j. probe_id name m i = Some j \<and> (ahm_Get m j = None \<or> ahm_Get m j = Some name)"
  by (rule probe_id_reaches [where k = "unat (f - i)"]) (use assms in \<open>simp_all only: free_distance\<close>)

text \<open>A name that is found stays where it is when a free id is taken.\<close>

lemma probe_id_frame:
  assumes ok: "ahm_ok m" and free: "ahm_Get m f = None" and j: "ahm_Get m j = Some name"
    and "probe_id name m i = Some j" and "ahm_Get m (i + of_nat k) = None"
  shows "probe_id name (ahm_Set f other m) i = Some j"
  using assms(4,5)
proof (induction k arbitrary: i)
  case 0
  then show ?case using j by (simp add: probe_id_step [OF ok])
next
  case (Suc k)
  have k: "ahm_Get m ((i + 1) + of_nat k) = None" using Suc.prems(2) by (simp add: add.assoc)
  obtain o' where o: "ahm_Get m i = Some o'" using Suc.prems(1) j by (auto simp: probe_id_step [OF ok] split: option.splits)
  then have "i \<noteq> f" using free by auto
  then have o2: "ahm_Get (ahm_Set f other m) i = Some o'" using o by (simp add: ahm_Get_Set [OF ok])
  show ?case
    using Suc.prems(1) Suc.IH [OF _ k] unfolding probe_id_step [OF ok, of name i] probe_id_step [OF ahm_ok_Set [OF ok], of name _ _ i]
    by (auto simp: o o2 split: if_splits)
qed

lemma probe_id_cong:
  assumes ok: "ahm_ok m" "ahm_ok m'" and get: "ahm_Get m' = ahm_Get m" and "ahm_Get m (i + of_nat k) = None"
  shows "probe_id name m' i = probe_id name m i"
  using assms(4)
proof (induction k arbitrary: i)
  case 0
  then show ?case by (simp add: probe_id_step [OF ok(1)] probe_id_step [OF ok(2)] get)
next
  case (Suc k)
  have "ahm_Get m ((i + 1) + of_nat k) = None" using Suc.prems by (simp add: add.assoc)
  from Suc.IH [OF this] show ?case
    unfolding probe_id_step [OF ok(1), of name i] probe_id_step [OF ok(2), of name i] get by (simp split: option.split)
qed

lemma probe_id_taken:
  assumes ok: "ahm_ok m" and free: "ahm_Get m f = None"
    and "probe_id name m i = Some f" and "ahm_Get m (i + of_nat k) = None"
  shows "probe_id name (ahm_Set f name m) i = Some f"
  using assms(3,4)
proof (induction k arbitrary: i)
  case 0
  then have "i = f" by (simp add: probe_id_step [OF ok])
  then show ?case by (simp add: probe_id_step [OF ahm_ok_Set [OF ok]] ahm_Get_Set [OF ok])
next
  case (Suc k)
  have k: "ahm_Get m ((i + 1) + of_nat k) = None" using Suc.prems(2) by (simp add: add.assoc)
  show ?case
  proof (cases "i = f")
    case True
    then show ?thesis by (simp add: probe_id_step [OF ahm_ok_Set [OF ok]] ahm_Get_Set [OF ok])
  next
    case False
    then have "ahm_Get (ahm_Set f name m) i = ahm_Get m i" by (simp add: ahm_Get_Set [OF ok])
    then show ?thesis
      using Suc.prems(1) Suc.IH [OF _ k] free
      unfolding probe_id_step [OF ok, of name i] probe_id_step [OF ahm_ok_Set [OF ok], of name _ _ i]
      by (auto split: if_splits option.splits)
  qed
qed

lemma register_name_ok:
  assumes "reg_ok Hash m" and f: "ahm_Get m f = None"
  shows "\<exists>i m'. register_name Hash name m = Some (i, m') \<and> reg_ok Hash m' \<and>
    ahm_Get m' = (ahm_Get m)(i \<mapsto> name) \<and> (ahm_Get m i = None \<or> ahm_Get m i = Some name)"
proof -
  have ok: "ahm_ok m" and reg: "\<And>i n. ahm_Get m i = Some n \<Longrightarrow> probe_id n m (Hash n) = Some i"
    using assms(1) by (auto simp: reg_ok_def)
  obtain i where i: "probe_id name m (Hash name) = Some i" "ahm_Get m i = None \<or> ahm_Get m i = Some name"
    using probe_id_total [OF ok f] by blast
  let ?m = "ahm_Set i name m" and ?k = "\<lambda>s. unat (f - s)"
  have get: "ahm_Get ?m = (ahm_Get m)(i \<mapsto> name)" by (auto simp: ahm_Get_Set [OF ok])
  have dist: "ahm_Get m (s + of_nat (?k s)) = None" for s using f by (simp only: free_distance)
  have "probe_id n ?m (Hash n) = Some j" if j: "ahm_Get ?m j = Some n" for j n
  proof (cases "ahm_Get m i")
    case (Some n')
    then have same: "ahm_Get ?m = ahm_Get m" using i(2) by (auto simp: get)
    then show ?thesis using reg [of j n] j probe_id_cong [OF ok ahm_ok_Set [OF ok] same dist] by simp
  next
    case None
    show ?thesis
    proof (cases "j = i")
      case True
      then show ?thesis using j probe_id_taken [OF ok None i(1) dist] by (simp add: get)
    next
      case False
      then have "ahm_Get m j = Some n" using j by (simp add: get)
      then show ?thesis using probe_id_frame [OF ok None _ reg dist] by blast
    qed
  qed
  then have "reg_ok Hash ?m" using ahm_ok_Set [OF ok] by (simp add: reg_ok_def)
  then show ?thesis using i get by (simp add: register_name_def)
qed

section \<open>Registering many names\<close>

fun register_all :: "(string \<Rightarrow> u64) \<Rightarrow> string list \<Rightarrow> id_map \<Rightarrow> (u64 list \<times> id_map) option" where
  "register_all Hash [] m = Some ([], m)"
| "register_all Hash (n # ns) m =
     do { (i, m) \<leftarrow> register_name Hash n m; (is', m) \<leftarrow> register_all Hash ns m; Some (i # is', m) }"

lemma free_id:
  assumes "finite (dom (ahm_Get m))" and "card (dom (ahm_Get m)) < 2 ^ 64"
  shows "\<exists>f. ahm_Get m f = None"
proof (rule ccontr)
  assume "\<nexists>f. ahm_Get m f = None"
  then have "dom (ahm_Get m) = UNIV" by auto
  moreover have "card (UNIV :: u64 set) = 2 ^ 64" using card_word [where 'a = 64] by simp
  ultimately show False using assms(2) by simp
qed

lemma register_all_ok:
  assumes "reg_ok Hash m" and "card (dom (ahm_Get m)) + length ns < 2 ^ 64"
  shows "\<exists>ids m'. register_all Hash ns m = Some (ids, m') \<and> reg_ok Hash m' \<and> length ids = length ns \<and>
    ahm_Get m \<subseteq>\<^sub>m ahm_Get m' \<and> (\<forall>k < length ns. ahm_Get m' (ids ! k) = Some (ns ! k))"
  using assms
proof (induction ns arbitrary: m)
  case (Cons n ns)
  have fin: "finite (dom (ahm_Get m'))" for m' :: id_map by (rule finite_subset [OF subset_UNIV]) simp
  obtain f where f: "ahm_Get m f = None" using free_id [OF fin] Cons.prems(2) by fastforce
  obtain i m1 where 1: "register_name Hash n m = Some (i, m1)" "reg_ok Hash m1" "ahm_Get m1 = (ahm_Get m)(i \<mapsto> n)"
      "ahm_Get m i = None \<or> ahm_Get m i = Some n"
    using register_name_ok [OF Cons.prems(1) f] by blast
  have "card (dom (ahm_Get m1)) \<le> card (dom (ahm_Get m)) + 1" using card_insert_le_m1 1(3) fin by (simp add: card_insert_if)
  then obtain ids m2 where 2: "register_all Hash ns m1 = Some (ids, m2)" "reg_ok Hash m2" "length ids = length ns"
      "ahm_Get m1 \<subseteq>\<^sub>m ahm_Get m2" "\<forall>k < length ns. ahm_Get m2 (ids ! k) = Some (ns ! k)"
    using Cons.IH [OF 1(2)] Cons.prems(2) by fastforce
  have "ahm_Get m \<subseteq>\<^sub>m ahm_Get m1" using 1(3,4) by (auto simp: map_le_def)
  then have "ahm_Get m \<subseteq>\<^sub>m ahm_Get m2" using 2(4) by (rule map_le_trans)
  moreover have "ahm_Get m2 i = Some n" using 2(4) 1(3) by (auto simp: map_le_def)
  ultimately show ?case using 1(1) 2 by (auto simp: nth_Cons split: nat.splits)
qed simp

lemma reg_ok_new: "reg_ok Hash (AtomicHashMap 512)"
  by (simp add: reg_ok_def ahm_ok_new ahm_Get_new)

text \<open>
  Claim C22. However the hash collides, registering fewer than $2^{64}$ names always ends; two
  registrations get the same id exactly when they are for the same name, and every id leads back to
  its name.
\<close>

theorem names_get_unique_ids:
  assumes "length ns < 2 ^ 64"
  shows "\<exists>ids m. register_all Hash ns (AtomicHashMap 512) = Some (ids, m) \<and> length ids = length ns \<and>
    (\<forall>i < length ns. name_by_id (ids ! i) m = ns ! i \<and> (\<forall>j < length ns. ids ! i = ids ! j \<longleftrightarrow> ns ! i = ns ! j))"
proof -
  have "dom (ahm_Get (AtomicHashMap 512 :: id_map)) = {}" by (auto simp: ahm_Get_new)
  then have "card (dom (ahm_Get (AtomicHashMap 512 :: id_map))) + length ns < 2 ^ 64" using assms by (simp only: card.empty)
  from register_all_ok [OF reg_ok_new this] obtain ids m where
    *: "register_all Hash ns (AtomicHashMap 512) = Some (ids, m)" "reg_ok Hash m" "length ids = length ns"
      "\<forall>k < length ns. ahm_Get m (ids ! k) = Some (ns ! k)" by blast
  have "ids ! i = ids ! j \<longleftrightarrow> ns ! i = ns ! j" if "i < length ns" "j < length ns" for i j
  proof
    assume "ns ! i = ns ! j"
    moreover have "probe_id (ns ! i) m (Hash (ns ! i)) = Some (ids ! i)" "probe_id (ns ! j) m (Hash (ns ! j)) = Some (ids ! j)"
      using *(2,4) that by (auto simp: reg_ok_def)
    ultimately show "ids ! i = ids ! j" by simp
  next
    assume "ids ! i = ids ! j"
    then show "ns ! i = ns ! j" using *(4) that by (metis option.inject)
  qed
  then show ?thesis using * by (auto simp: name_by_id_def)
qed

theorem names_get_unique_ids_witness:
  "\<exists>ids m. register_all (\<lambda>_. 7) [''a'', ''b'', ''a''] (AtomicHashMap 512) = Some (ids, m) \<and> length ids = 3 \<and>
     ids ! 0 = ids ! 2 \<and> ids ! 0 \<noteq> ids ! 1 \<and> name_by_id (ids ! 1) m = ''b''"
proof -
  obtain ids m where *: "register_all (\<lambda>_. 7) [''a'', ''b'', ''a''] (AtomicHashMap 512) = Some (ids, m)"
    "length ids = length [''a'', ''b'', ''a'']"
    "\<forall>i < length [''a'', ''b'', ''a'']. name_by_id (ids ! i) m = [''a'', ''b'', ''a''] ! i \<and>
      (\<forall>j < length [''a'', ''b'', ''a'']. ids ! i = ids ! j \<longleftrightarrow> [''a'', ''b'', ''a''] ! i = [''a'', ''b'', ''a''] ! j)"
    using names_get_unique_ids [of "[''a'', ''b'', ''a'']" "\<lambda>_. 7"] by auto
  have "ids ! 0 = ids ! 2" using *(3) [rule_format, of 0, THEN conjunct2, rule_format, of 2] by simp
  moreover have "ids ! 0 \<noteq> ids ! 1" using *(3) [rule_format, of 0, THEN conjunct2, rule_format, of 1] by simp
  moreover have "name_by_id (ids ! 1) m = ''b''" using *(3) [rule_format, of 1, THEN conjunct1] by simp
  ultimately show ?thesis using *(1,2) by auto
qed

text \<open>
  Ids depend on the order of registration: when the hashes of two channels coincide, two
  processes that meet them in different orders give each channel the other's id.
\<close>

lemma colliding_ids_differ_between_processes:
  assumes "Hash a = Hash b" and "a \<noteq> b"
  shows "\<exists>m1 m2. register_all Hash [a, b] (AtomicHashMap 512) = Some ([Hash a, Hash a + 1], m1) \<and>
    register_all Hash [b, a] (AtomicHashMap 512) = Some ([Hash a, Hash a + 1], m2) \<and>
    name_by_id (Hash a) m1 = a \<and> name_by_id (Hash a) m2 = b"
proof -
  have ok: "ahm_ok (AtomicHashMap 512 :: id_map)" by (simp add: ahm_ok_new)
  have two: "\<exists>m. register_all Hash [x, y] (AtomicHashMap 512) = Some ([Hash x, Hash x + 1], m) \<and> name_by_id (Hash x) m = x"
    if "Hash x = Hash y" "x \<noteq> y" for x y
    using that by (simp add: register_name_def probe_id_step [OF ok] ahm_Get_new probe_id_step [OF ahm_ok_Set [OF ok]]
        ahm_Get_Set [OF ok] ahm_Get_Set [OF ahm_ok_Set [OF ok]] name_by_id_def)
  show ?thesis using two [OF assms] two [of b a] assms by auto
qed

theorem colliding_ids_differ_between_processes_witness:
  "\<exists>m1 m2. register_all (\<lambda>_. 7) [''a'', ''b''] (AtomicHashMap 512) = Some ([7, 8], m1) \<and>
    register_all (\<lambda>_. 7) [''b'', ''a''] (AtomicHashMap 512) = Some ([7, 8], m2) \<and>
    name_by_id 7 m1 = ''a'' \<and> name_by_id 7 m2 = ''b''"
  using colliding_ids_differ_between_processes [of "\<lambda>_. 7" "''a''" "''b''"] by simp

end
