(* ===== verification/Sched_Scheduler.thy ===== *)
theory Sched_Scheduler
  imports Sched_Context Common_GlobalData
begin

text \<open>
  The two schedulers (\<^verbatim>\<open>scheduler/scheduler\<close>, \<^verbatim>\<open>scheduler/policy/scheduler_classic\<close>, \<^verbatim>\<open>scheduler_choreography\<close>) and the
  loop of a processor (\<^verbatim>\<open>scheduler/processor.cc\<close>).

  The multi-key mutex makes the operations on one task id exclusive, so that creating and removing a
  task are single steps, apart from the wait for a routine that is being run. The contents of the
  configuration file are arguments of the constructors; thread affinities and priorities of the operating
  system are left out.
\<close>

section \<open>Scheduler\<close>

datatype processor_context = Classic classic_context | Choreography choreography_context

text \<open>The base class, the objects, and the static members of \<^verbatim>\<open>ClassicContext\<close>.\<close>

record scheduler =
  sc_stop :: bool
  sc_id_cr :: "(u64, nat) umap"
  sc_pctxs :: "processor_context list"
  sc_proc_num :: u32
  sc_task_pool_size :: u32
  sc_crs :: "croutine list"
  sc_rq :: run_queues

definition upd_cr :: "nat \<Rightarrow> (croutine \<Rightarrow> croutine) \<Rightarrow> 'a scheduler_scheme \<Rightarrow> 'a scheduler_scheme" where
  "upd_cr c f s = s\<lparr>sc_crs := (sc_crs s)[c := f (sc_crs s ! c)]\<rparr>"

section \<open>SchedulerClassic\<close>

record classic_task =
  ct_name :: string
  ct_prio :: u32
  ct_group_name :: string

record sched_group =
  sg_name :: string
  sg_processor_num :: u32
  sg_tasks :: "classic_task list"

record classic_scheduler = scheduler +
  cl_cr_confs :: "(string, classic_task) umap"
  cl_groups :: "sched_group list"

definition group_confs :: "sched_group \<Rightarrow> (string, classic_task) umap \<Rightarrow> (string, classic_task) umap" where
  "group_confs g confs = fold (\<lambda>task. um_set (ct_name task) (task\<lparr>ct_group_name := sg_name g\<rparr>)) (sg_tasks g) confs"

fun add_contexts :: "nat \<Rightarrow> string \<Rightarrow> 'a scheduler_scheme \<Rightarrow> 'a scheduler_scheme" where
  "add_contexts 0 grp s = s"
| "add_contexts (Suc n) grp s =
     (let (cx, rq) = ClassicContext grp (sc_rq s) in add_contexts n grp (s\<lparr>sc_pctxs := sc_pctxs s @ [Classic cx], sc_rq := rq\<rparr>))"

definition group_processors :: "sched_group \<Rightarrow> 'a scheduler_scheme \<Rightarrow> 'a scheduler_scheme" where
  "group_processors g s =
     (let s = (if sc_task_pool_size s = 0 then s\<lparr>sc_task_pool_size := sg_processor_num g\<rparr> else s)
      in add_contexts (unat (sg_processor_num g)) (sg_name g) s)"

definition cl_CreateProcessor :: "classic_scheduler \<Rightarrow> classic_scheduler" where
  "cl_CreateProcessor s = fold group_processors (cl_groups s) s"

text \<open>\<open>conf\<close> is the configuration when the file is there and can be read; \<open>default_num\<close> is in the global one.\<close>

definition SchedulerClassic :: "sched_group list option \<Rightarrow> u32 option \<Rightarrow> classic_scheduler" where
  "SchedulerClassic conf default_num =
     (let s = \<lparr>sc_stop = False, sc_id_cr = [], sc_pctxs = [], sc_proc_num = 0, sc_task_pool_size = 0, sc_crs = [],
               sc_rq = \<lparr>rq_cr_group = [], rq_notify_grp = []\<rparr>, cl_cr_confs = [], cl_groups = []\<rparr>
      in cl_CreateProcessor
           (case conf of
              Some groups \<Rightarrow> s\<lparr>cl_groups := groups, cl_cr_confs := fold group_confs groups []\<rparr>
            | None \<Rightarrow>
                let proc_num = (case default_num of Some n \<Rightarrow> n | None \<Rightarrow> 2)
                in s\<lparr>sc_task_pool_size := proc_num,
                     cl_groups := [\<lparr>sg_name = DEFAULT_GROUP_NAME, sg_processor_num = proc_num, sg_tasks = []\<rparr>]\<rparr>))"

text \<open>The settings of a new routine: group and priority; \<open>None\<close> when there is no group at all.\<close>

definition clip_priority :: "croutine \<Rightarrow> croutine" where
  "clip_priority cr = (if of_nat MAX_PRIO \<le> cr_priority cr then cr\<lparr>cr_priority := of_nat MAX_PRIO - 1\<rparr> else cr)"

definition cl_configure :: "classic_scheduler \<Rightarrow> croutine \<Rightarrow> croutine option" where
  "cl_configure s cr =
     map_option clip_priority
       (case map_of (cl_cr_confs s) (cr_name cr) of
          Some task \<Rightarrow> Some (cr\<lparr>cr_priority := ct_prio task, cr_group_name := ct_group_name task\<rparr>)
        | None \<Rightarrow> (case cl_groups s of [] \<Rightarrow> None | g # _ \<Rightarrow> Some (cr\<lparr>cr_group_name := sg_name g\<rparr>)))"

text \<open>\<^verbatim>\<open>DispatchTask\<close> of object \<open>c\<close>; \<open>None\<close> is the exception of an access out of range.\<close>

definition cl_DispatchTask :: "nat \<Rightarrow> classic_scheduler \<Rightarrow> (bool \<times> classic_scheduler) option" where
  "cl_DispatchTask c s =
     (let cr = sc_crs s ! c in
      if map_of (sc_id_cr s) (cr_id cr) \<noteq> None then Some (False, s)
      else let s = s\<lparr>sc_id_cr := um_set (cr_id cr) c (sc_id_cr s)\<rparr>
           in do { cr \<leftarrow> cl_configure s cr;
                   rq \<leftarrow> cc_enqueue c cr (sc_rq s);
                   Some (True, (upd_cr c (\<lambda>_. cr) s)\<lparr>sc_rq := cc_Notify (cr_group_name cr) rq\<rparr>) })"

definition cl_NotifyProcessor :: "u64 \<Rightarrow> classic_scheduler \<Rightarrow> bool \<times> classic_scheduler" where
  "cl_NotifyProcessor crid s =
     (if sc_stop s then (True, s)
      else case map_of (sc_id_cr s) crid of
             Some c \<Rightarrow> (True, (upd_cr c notify_routine s)\<lparr>sc_rq := cc_Notify (cr_group_name (sc_crs s ! c)) (sc_rq s)\<rparr>)
           | None \<Rightarrow> (False, s))"

text \<open>
  \<^verbatim>\<open>RemoveCRoutine\<close> in two halves: taking the routine out of the table of tasks and stopping it, and taking it
  out of its queue, which may have to wait for the processor that runs it.
\<close>

definition unregister :: "u64 \<Rightarrow> 'a scheduler_scheme \<Rightarrow> (nat \<times> 'a scheduler_scheme) option" where
  "unregister crid s =
     (case map_of (sc_id_cr s) crid of None \<Rightarrow> None
      | Some c \<Rightarrow> Some (c, (upd_cr c cr_Stop s)\<lparr>sc_id_cr := um_erase crid (sc_id_cr s)\<rparr>))"

definition cl_dequeue :: "nat \<Rightarrow> 'a scheduler_scheme \<Rightarrow> outcome \<times> 'a scheduler_scheme" where
  "cl_dequeue c s =
     (let (r, rq, crs) = cc_RemoveCRoutine (sc_crs s ! c) (sc_rq s) (sc_crs s) in (r, s\<lparr>sc_rq := rq, sc_crs := crs\<rparr>))"

definition cl_RemoveCRoutine :: "u64 \<Rightarrow> classic_scheduler \<Rightarrow> outcome \<times> classic_scheduler" where
  "cl_RemoveCRoutine crid s = (case unregister crid s of None \<Rightarrow> (Returns False, s) | Some (c, s) \<Rightarrow> cl_dequeue c s)"

definition cl_RemoveTask :: "(string \<Rightarrow> u64) \<Rightarrow> string \<Rightarrow> classic_scheduler \<Rightarrow> outcome \<times> classic_scheduler" where
  "cl_RemoveTask Hash name s = (if sc_stop s then (Returns True, s) else cl_RemoveCRoutine (Hash name) s)"

section \<open>SchedulerChoreography\<close>

record choreography_task =
  ht_name :: string
  ht_processor :: "int option"
  ht_prio :: u32

record choreography_conf =
  hf_choreography_processor_num :: u32
  hf_pool_processor_num :: u32
  hf_tasks :: "choreography_task list"

record choreography_scheduler = scheduler +
  ch_cr_confs :: "(string, choreography_task) umap"

definition ch_CreateProcessor :: "choreography_scheduler \<Rightarrow> choreography_scheduler" where
  "ch_CreateProcessor s =
     add_contexts (unat (sc_task_pool_size s)) DEFAULT_GROUP_NAME
       (s\<lparr>sc_pctxs := sc_pctxs s @ replicate (unat (sc_proc_num s)) (Choreography ChoreographyContext)\<rparr>)"

definition SchedulerChoreography :: "choreography_conf option \<Rightarrow> u32 option \<Rightarrow> choreography_scheduler" where
  "SchedulerChoreography conf default_num =
     (let s = \<lparr>sc_stop = False, sc_id_cr = [], sc_pctxs = [], sc_proc_num = 0, sc_task_pool_size = 0, sc_crs = [],
               sc_rq = \<lparr>rq_cr_group = [], rq_notify_grp = []\<rparr>, ch_cr_confs = []\<rparr>;
          s = (case conf of None \<Rightarrow> s
               | Some f \<Rightarrow> s\<lparr>sc_proc_num := hf_choreography_processor_num f, sc_task_pool_size := hf_pool_processor_num f,
                            ch_cr_confs := fold (\<lambda>task. um_set (ht_name task) task) (hf_tasks f) []\<rparr>);
          n = (case default_num of Some n \<Rightarrow> n | None \<Rightarrow> 2)
      in ch_CreateProcessor (if sc_proc_num s = 0 then s\<lparr>sc_proc_num := n, sc_task_pool_size := n\<rparr> else s))"

definition ch_configure :: "choreography_scheduler \<Rightarrow> croutine \<Rightarrow> croutine" where
  "ch_configure s cr =
     (case map_of (ch_cr_confs s) (cr_name cr) of None \<Rightarrow> cr
      | Some task \<Rightarrow>
          let cr = cr\<lparr>cr_priority := ht_prio task\<rparr>
          in case ht_processor task of None \<Rightarrow> cr | Some p \<Rightarrow> cr\<lparr>cr_processor_id := p\<rparr>)"

text \<open>The processor id of a routine as the unsigned number the scheduler compares.\<close>

definition pid_of :: "croutine \<Rightarrow> u32" where
  "pid_of cr = word_of_int (cr_processor_id cr)"

text \<open>\<^verbatim>\<open>static_cast<ChoreographyContext*>(pctxs_[pid].get())\<close>: the context must be of this class.\<close>

definition ch_context :: "nat \<Rightarrow> 'a scheduler_scheme \<Rightarrow> choreography_context option" where
  "ch_context i s =
     (if i < length (sc_pctxs s) then (case sc_pctxs s ! i of Choreography cx \<Rightarrow> Some cx | Classic _ \<Rightarrow> None) else None)"

definition set_ch_context :: "nat \<Rightarrow> choreography_context \<Rightarrow> 'a scheduler_scheme \<Rightarrow> 'a scheduler_scheme" where
  "set_ch_context i cx s = s\<lparr>sc_pctxs := (sc_pctxs s)[i := Choreography cx]\<rparr>"

definition ch_DispatchTask :: "nat \<Rightarrow> choreography_scheduler \<Rightarrow> (bool \<times> choreography_scheduler) option" where
  "ch_DispatchTask c s =
     (let s = upd_cr c (ch_configure s) s; cr = sc_crs s ! c in
      if map_of (sc_id_cr s) (cr_id cr) \<noteq> None then Some (False, s)
      else let s = s\<lparr>sc_id_cr := um_set (cr_id cr) c (sc_id_cr s)\<rparr>; pid = pid_of cr
           in if pid < sc_proc_num s then
                do { cx \<leftarrow> ch_context (unat pid) s; Some (True, set_ch_context (unat pid) (hc_Enqueue c cr cx) s) }
              else let cr = (clip_priority cr)\<lparr>cr_group_name := DEFAULT_GROUP_NAME\<rparr>
                   in do { rq \<leftarrow> cc_enqueue c cr (sc_rq s); Some (True, (upd_cr c (\<lambda>_. cr) s)\<lparr>sc_rq := rq\<rparr>) })"

definition ch_dequeue :: "nat \<Rightarrow> choreography_scheduler \<Rightarrow> outcome \<times> choreography_scheduler" where
  "ch_dequeue c s =
     (let pid = pid_of (sc_crs s ! c) in
      if pid < sc_proc_num s then
        (case ch_context (unat pid) s of None \<Rightarrow> (Throws, s)
         | Some cx \<Rightarrow> let (r, cx, crs) = hc_RemoveCRoutine (cr_id (sc_crs s ! c)) cx (sc_crs s)
                      in (r, (set_ch_context (unat pid) cx s)\<lparr>sc_crs := crs\<rparr>))
      else cl_dequeue c s)"

definition ch_RemoveCRoutine :: "u64 \<Rightarrow> choreography_scheduler \<Rightarrow> outcome \<times> choreography_scheduler" where
  "ch_RemoveCRoutine crid s = (case unregister crid s of None \<Rightarrow> (Returns False, s) | Some (c, s) \<Rightarrow> ch_dequeue c s)"

definition ch_RemoveTask :: "(string \<Rightarrow> u64) \<Rightarrow> string \<Rightarrow> choreography_scheduler \<Rightarrow> outcome \<times> choreography_scheduler" where
  "ch_RemoveTask Hash name s = (if sc_stop s then (Returns True, s) else ch_RemoveCRoutine (Hash name) s)"

definition ch_NotifyProcessor :: "u64 \<Rightarrow> choreography_scheduler \<Rightarrow> (bool \<times> choreography_scheduler) option" where
  "ch_NotifyProcessor crid s =
     (if sc_stop s then Some (True, s)
      else case map_of (sc_id_cr s) crid of None \<Rightarrow> Some (False, s)
           | Some c \<Rightarrow>
               let cr = sc_crs s ! c; pid = pid_of cr; s = upd_cr c notify_routine s
               in if pid < sc_proc_num s then
                    do { cx \<leftarrow> ch_context (unat pid) s; Some (True, set_ch_context (unat pid) (hc_Notify cx) s) }
                  else Some (True, s\<lparr>sc_rq := cc_Notify (cr_group_name cr) (sc_rq s)\<rparr>))"

section \<open>Tasks and processors\<close>

text \<open>
  \<^verbatim>\<open>CreateTask\<close> with the virtual \<^verbatim>\<open>DispatchTask\<close> as an argument. The result is \<open>None\<close> when an access is out of
  range or no id is free. The callback that a visitor gets is \<open>notify_callback\<close> of the task id.
\<close>

definition sc_CreateTask ::
  "(nat \<Rightarrow> 'a scheduler_scheme \<Rightarrow> (bool \<times> 'a scheduler_scheme) option) \<Rightarrow> (string \<Rightarrow> u64) \<Rightarrow> int \<Rightarrow> string
     \<Rightarrow> global_data \<Rightarrow> 'a scheduler_scheme \<Rightarrow> (bool \<times> global_data \<times> 'a scheduler_scheme) option" where
  "sc_CreateTask DispatchTask Hash now name g s =
     (if sc_stop s then Some (False, g, s)
      else do { (task_id, g) \<leftarrow> RegisterTaskName Hash name g;
                (ok, s) \<leftarrow> DispatchTask (length (sc_crs s)) (s\<lparr>sc_crs := sc_crs s @ [CRoutine now task_id name]\<rparr>);
                Some (ok, g, s) })"

definition notify_callback :: "(u64 \<Rightarrow> 'a scheduler_scheme \<Rightarrow> 'b \<times> 'a scheduler_scheme) \<Rightarrow> u64 \<Rightarrow> 'a scheduler_scheme \<Rightarrow> 'a scheduler_scheme" where
  "notify_callback NotifyProcessor task_id s = (if sc_stop s then s else snd (NotifyProcessor task_id s))"

definition sc_NotifyTask ::
  "(u64 \<Rightarrow> 'a scheduler_scheme \<Rightarrow> bool \<times> 'a scheduler_scheme) \<Rightarrow> u64 \<Rightarrow> 'a scheduler_scheme \<Rightarrow> bool \<times> 'a scheduler_scheme" where
  "sc_NotifyTask NotifyProcessor crid s = (if sc_stop s then (True, s) else NotifyProcessor crid s)"

text \<open>
  The loop of a processor with context \<open>i\<close>: it takes a routine, or waits. When the routine has run up to its
  next yield, in state \<open>st\<close> and with wake time \<open>t\<close>, the processor lets it go.
\<close>

definition pr_next :: "(nat \<Rightarrow> int) \<Rightarrow> nat \<Rightarrow> 'a scheduler_scheme \<Rightarrow> nat option \<times> 'a scheduler_scheme" where
  "pr_next now i s =
     (let (found, crs) = (case sc_pctxs s ! i of
            Classic cx \<Rightarrow> cc_NextRoutine now cx (sc_rq s) (sc_crs s) | Choreography cx \<Rightarrow> hc_NextRoutine now cx (sc_crs s))
      in (found, s\<lparr>sc_crs := crs\<rparr>))"

definition pr_wait :: "nat \<Rightarrow> 'a scheduler_scheme \<Rightarrow> 'a scheduler_scheme" where
  "pr_wait i s =
     (case sc_pctxs s ! i of Classic cx \<Rightarrow> s\<lparr>sc_rq := cc_Wait cx (sc_rq s)\<rparr>
      | Choreography cx \<Rightarrow> set_ch_context i (hc_Wait cx) s)"

definition pr_finish :: "nat \<Rightarrow> RoutineState \<Rightarrow> int \<Rightarrow> 'a scheduler_scheme \<Rightarrow> 'a scheduler_scheme" where
  "pr_finish c st t s = upd_cr c (\<lambda>cr. Release (snd (Resume (\<lambda>cr. cr\<lparr>cr_state := st, cr_wake_time := t\<rparr>) cr))) s"

definition pctx_Shutdown :: "nat \<Rightarrow> 'a scheduler_scheme \<Rightarrow> 'a scheduler_scheme" where
  "pctx_Shutdown i s =
     (case sc_pctxs s ! i of
        Classic cx \<Rightarrow> let (cx, rq) = cc_Shutdown cx (sc_rq s) in s\<lparr>sc_pctxs := (sc_pctxs s)[i := Classic cx], sc_rq := rq\<rparr>
      | Choreography cx \<Rightarrow> set_ch_context i (hc_Shutdown cx) s)"

text \<open>\<^verbatim>\<open>Shutdown\<close> up to the removal of the routines, whose ids are the second result; then the processors are stopped.\<close>

definition sc_Shutdown :: "'a scheduler_scheme \<Rightarrow> 'a scheduler_scheme \<times> u64 list" where
  "sc_Shutdown s =
     (if sc_stop s then (s, [])
      else let s = fold pctx_Shutdown [0..<length (sc_pctxs s)] (s\<lparr>sc_stop := True\<rparr>)
           in (s, map (\<lambda>c. cr_id (sc_crs s ! c)) (um_vals (sc_id_cr s))))"

end
