(* ===== verification/Sched_Tasks.thy ===== *)
theory Sched_Tasks
  imports Sched_Scheduler
begin

text \<open>
  The schedulers under every sequence of operations: tasks are created and removed, notified, taken by
  processors, run and let go. The table of tasks and the run queues agree at all times, no access is out
  of range, no routine is run by two processors, and a processor takes the routine with the highest
  priority.
\<close>

section \<open>Where a routine is queued\<close>

datatype home = Pool string nat | Proc nat

definition home_of :: "'a scheduler_scheme \<Rightarrow> croutine \<Rightarrow> home" where
  "home_of s cr = (if pid_of cr < sc_proc_num s then Proc (unat (pid_of cr)) else Pool (cr_group_name cr) (unat (cr_priority cr)))"

definition queue_of :: "'a scheduler_scheme \<Rightarrow> home \<Rightarrow> nat list" where
  "queue_of s h =
     (case h of
        Pool grp p \<Rightarrow> if p < MAX_PRIO then um_at empty_queue grp (rq_cr_group (sc_rq s)) ! p else []
      | Proc i \<Rightarrow> if i < unat (sc_proc_num s) then (case ch_context i s of Some cx \<Rightarrow> map snd (hc_cr_queue cx) | None \<Rightarrow> []) else [])"

lemma context_frame [simp]:
  "ch_context i (s\<lparr>sc_id_cr := m\<rparr>) = ch_context i s" "ch_context i (s\<lparr>sc_crs := l\<rparr>) = ch_context i s"
  "ch_context i (s\<lparr>sc_rq := rq\<rparr>) = ch_context i s" "ch_context i (upd_cr c f s) = ch_context i s"
  by (simp_all add: ch_context_def upd_cr_def)

lemma queue_frame [simp]:
  "queue_of (s\<lparr>sc_id_cr := m\<rparr>) h = queue_of s h" "queue_of (s\<lparr>sc_crs := l\<rparr>) h = queue_of s h"
  "queue_of (upd_cr c f s) h = queue_of s h"
  by (simp_all add: queue_of_def upd_cr_def split: home.split)

lemma home_frame [simp]:
  "home_of (s\<lparr>sc_id_cr := m\<rparr>) cr = home_of s cr" "home_of (s\<lparr>sc_crs := l\<rparr>) cr = home_of s cr"
  "home_of (s\<lparr>sc_rq := rq\<rparr>) cr = home_of s cr" "home_of (upd_cr c f s) cr = home_of s cr"
  "home_of (set_ch_context i cx s) cr = home_of s cr"
  by (simp_all add: home_of_def upd_cr_def set_ch_context_def)

text \<open>The parts of a scheduler by themselves: twenty levels in each group, a context for each processor.\<close>

definition keys_ok :: "'a scheduler_scheme \<Rightarrow> choreography_context \<Rightarrow> bool" where
  "keys_ok s cx \<longleftrightarrow> (\<forall>(p, c)\<in>set (hc_cr_queue cx). p = cr_priority (sc_crs s ! c))"

definition parts_ok :: "'a scheduler_scheme \<Rightarrow> bool" where
  "parts_ok s \<longleftrightarrow> (\<forall>grp. length (um_at empty_queue grp (rq_cr_group (sc_rq s))) = MAX_PRIO)
     \<and> (\<forall>i<unat (sc_proc_num s). \<exists>cx. ch_context i s = Some cx \<and> keys_ok s cx)
     \<and> (\<forall>i\<ge>unat (sc_proc_num s). ch_context i s = None)"

text \<open>
  \<open>live\<close> are the routines of the table and those being removed; \<open>pend\<close> are the latter. Each is queued at home,
  nothing else is queued, and ids are unique.
\<close>

definition live :: "nat list \<Rightarrow> 'a scheduler_scheme \<Rightarrow> nat set" where
  "live pend s = set pend \<union> ran (map_of (sc_id_cr s))"

definition queues_ok :: "nat list \<Rightarrow> 'a scheduler_scheme \<Rightarrow> bool" where
  "queues_ok pend s \<longleftrightarrow>
     (\<forall>h. sorted_wrt (before (sc_crs s)) (queue_of s h) \<and> (\<forall>c\<in>set (queue_of s h). c \<in> live pend s \<and> home_of s (sc_crs s ! c) = h))
     \<and> (\<forall>c\<in>live pend s. c < length (sc_crs s) \<and> c \<in> set (queue_of s (home_of s (sc_crs s ! c))))"

definition ids_ok :: "nat list \<Rightarrow> 'a scheduler_scheme \<Rightarrow> bool" where
  "ids_ok pend s \<longleftrightarrow> (\<forall>i c. map_of (sc_id_cr s) i = Some c \<longrightarrow> cr_id (sc_crs s ! c) = i \<and> c \<notin> set pend)
     \<and> inj_on (\<lambda>c. cr_id (sc_crs s ! c)) (live pend s) \<and> distinct pend"

definition sched_ok :: "nat list \<Rightarrow> 'a scheduler_scheme \<Rightarrow> bool" where
  "sched_ok pend s \<longleftrightarrow> parts_ok s \<and> queues_ok pend s \<and> ids_ok pend s"

text \<open>Changes of flags and states of routines do not matter.\<close>

lemma fixed_nth: "map fixed crs' = map fixed crs \<Longrightarrow> c < length crs \<Longrightarrow> fixed (crs' ! c) = fixed (crs ! c)"
  by (metis length_map nth_map)

lemma fixed_home: "fixed cr = fixed cr' \<Longrightarrow> home_of s cr = home_of s cr'"
  by (simp add: home_of_def pid_of_def fixed_def)

definition same_queues :: "'a scheduler_scheme \<Rightarrow> 'a scheduler_scheme \<Rightarrow> bool" where
  "same_queues s s' \<longleftrightarrow> map fixed (sc_crs s') = map fixed (sc_crs s) \<and> sc_id_cr s' = sc_id_cr s \<and> sc_proc_num s' = sc_proc_num s
     \<and> (\<forall>grp. um_at empty_queue grp (rq_cr_group (sc_rq s')) = um_at empty_queue grp (rq_cr_group (sc_rq s)))
     \<and> (\<forall>i. map_option hc_cr_queue (ch_context i s') = map_option hc_cr_queue (ch_context i s))"

lemma same_queuesD:
  assumes "same_queues s s'"
  shows "map fixed (sc_crs s') = map fixed (sc_crs s)" "sc_id_cr s' = sc_id_cr s" "sc_proc_num s' = sc_proc_num s"
    "um_at empty_queue grp (rq_cr_group (sc_rq s')) = um_at empty_queue grp (rq_cr_group (sc_rq s))"
    "map_option hc_cr_queue (ch_context i s') = map_option hc_cr_queue (ch_context i s)"
    "length (sc_crs s') = length (sc_crs s)"
  using assms map_eq_imp_length_eq [of fixed "sc_crs s'" fixed "sc_crs s"] unfolding same_queues_def by blast+

lemma same_queues_live: "same_queues s s' \<Longrightarrow> live pend s' = live pend s"
  by (simp only: same_queuesD(2) live_def)

lemma same_queues_queue:
  assumes q: "same_queues s s'"
  shows "queue_of s' h = queue_of s h"
proof (cases h)
  case (Pool grp p)
  then show ?thesis by (simp only: queue_of_def home.case same_queuesD(4) [OF q])
next
  case (Proc i)
  have "(case ch_context i s' of Some cx \<Rightarrow> map snd (hc_cr_queue cx) | None \<Rightarrow> [])
      = (case ch_context i s of Some cx \<Rightarrow> map snd (hc_cr_queue cx) | None \<Rightarrow> [])"
    using same_queuesD(5) [OF q, of i] by (cases "ch_context i s"; cases "ch_context i s'") simp_all
  then show ?thesis by (simp only: Proc queue_of_def home.case same_queuesD(3) [OF q])
qed

lemma same_queues_fixed: "same_queues s s' \<Longrightarrow> c < length (sc_crs s) \<Longrightarrow> fixed (sc_crs s' ! c) = fixed (sc_crs s ! c)"
  by (rule fixed_nth [OF same_queuesD(1)])

lemma same_queues_home:
  assumes "same_queues s s'" "c < length (sc_crs s)"
  shows "home_of s' (sc_crs s' ! c) = home_of s (sc_crs s ! c)"
  using fixed_home [OF same_queues_fixed [OF assms], of s] unfolding home_of_def same_queuesD(3) [OF assms(1)] .

lemma ok_length: "sched_ok pend s \<Longrightarrow> c \<in> live pend s \<Longrightarrow> c < length (sc_crs s)"
  unfolding sched_ok_def queues_ok_def by blast

lemma queued_live: "sched_ok pend s \<Longrightarrow> c \<in> set (queue_of s h) \<Longrightarrow> c \<in> live pend s \<and> home_of s (sc_crs s ! c) = h"
  unfolding sched_ok_def queues_ok_def by blast

lemma live_queued: "sched_ok pend s \<Longrightarrow> c \<in> live pend s \<Longrightarrow> c \<in> set (queue_of s (home_of s (sc_crs s ! c)))"
  unfolding sched_ok_def queues_ok_def by blast

lemma ok_distinct: "sched_ok pend s \<Longrightarrow> distinct (queue_of s h)"
  unfolding sched_ok_def queues_ok_def by (blast intro: before_distinct)

lemma ok_sorted: "sched_ok pend s \<Longrightarrow> sorted_wrt (before (sc_crs s)) (queue_of s h)"
  unfolding sched_ok_def queues_ok_def by blast

lemma ok_context: "sched_ok pend s \<Longrightarrow> i < unat (sc_proc_num s) \<Longrightarrow> \<exists>cx. ch_context i s = Some cx \<and> keys_ok s cx"
  unfolding sched_ok_def parts_ok_def by blast

lemma registered_live: "map_of (sc_id_cr s) i = Some c \<Longrightarrow> c \<in> live pend s"
  by (auto simp: live_def ran_def)

lemma sched_ok_same:
  assumes ok: "sched_ok pend s" and q: "same_queues s s'"
  shows "sched_ok pend s'"
proof -
  note live = same_queues_live [OF q, of pend] and queue = same_queues_queue [OF q]
  have "cr_priority (sc_crs s' ! c) = cr_priority (sc_crs s ! c)" if "c \<in> set (queue_of s h)" for c h
    using same_queues_fixed [OF q ok_length [OF ok]] queued_live [OF ok that] by (simp add: fixed_def)
  then have "sorted_wrt (before (sc_crs s')) (queue_of s h)" for h
    using ok_sorted [OF ok, of h] before_cong [of "queue_of s h" "sc_crs s'" "sc_crs s"] by blast
  then have "queues_ok pend s'" unfolding queues_ok_def live queue same_queuesD(6) [OF q]
    using queued_live [OF ok] live_queued [OF ok] ok_length [OF ok] same_queues_home [OF q] by metis
  moreover have "ids_ok pend s'"
  proof -
    have ids: "c \<in> live pend s \<Longrightarrow> cr_id (sc_crs s' ! c) = cr_id (sc_crs s ! c)" for c
      using same_queues_fixed [OF q ok_length [OF ok]] by (simp add: fixed_def)
    have old: "ids_ok pend s" using ok by (simp add: sched_ok_def)
    show ?thesis unfolding ids_ok_def live same_queuesD(2) [OF q]
    proof (intro conjI allI impI)
      show "cr_id (sc_crs s' ! c) = i" "c \<notin> set pend" if "map_of (sc_id_cr s) i = Some c" for i c
        using old that ids [OF registered_live [OF that]] by (auto simp: ids_ok_def)
      show "inj_on (\<lambda>c. cr_id (sc_crs s' ! c)) (live pend s)" "distinct pend"
        using old ids by (auto simp: ids_ok_def inj_on_def)
    qed
  qed
  moreover have "parts_ok s'"
  proof -
    have "\<exists>cx. ch_context i s' = Some cx \<and> keys_ok s' cx" if i: "i < unat (sc_proc_num s)" for i
    proof -
      obtain cx where cx: "ch_context i s = Some cx" "keys_ok s cx" using ok_context [OF ok i] by blast
      obtain cx' where cx': "ch_context i s' = Some cx'" "hc_cr_queue cx' = hc_cr_queue cx"
        using same_queuesD(5) [OF q, of i] cx(1) by auto
      have "cr_priority (sc_crs s' ! c) = cr_priority (sc_crs s ! c)" if "(p, c) \<in> set (hc_cr_queue cx)" for p c
      proof -
        have "c \<in> set (queue_of s (Proc i))" using i cx(1) that by (force simp: queue_of_def)
        then show ?thesis using same_queues_fixed [OF q ok_length [OF ok]] queued_live [OF ok] by (auto simp: fixed_def)
      qed
      then show ?thesis using cx cx' by (auto simp: keys_ok_def)
    qed
    moreover have "length (um_at empty_queue grp (rq_cr_group (sc_rq s))) = MAX_PRIO" for grp
      using ok by (simp add: sched_ok_def parts_ok_def)
    moreover have "ch_context i s' = None" if "i \<ge> unat (sc_proc_num s)" for i
      using ok that same_queuesD(5) [OF q, of i] by (simp add: sched_ok_def parts_ok_def)
    ultimately show ?thesis by (simp only: parts_ok_def same_queuesD(3,4) [OF q]) blast
  qed
  ultimately show ?thesis by (simp add: sched_ok_def)
qed

section \<open>Adding and removing a routine\<close>

text \<open>Ids that are not in use: neither in the table nor being removed.\<close>

definition free_id_for :: "u64 \<Rightarrow> nat list \<Rightarrow> 'a scheduler_scheme \<Rightarrow> bool" where
  "free_id_for i pend s \<longleftrightarrow> (\<forall>d\<in>live pend s. cr_id (sc_crs s ! d) \<noteq> i)"

lemma sched_ok_add:
  assumes ok: "sched_ok pend s" and parts: "parts_ok s'"
    and new: "c < length (sc_crs s)" "\<And>d. d \<in> live pend s \<Longrightarrow> d < c" "free_id_for i pend s"
    and id: "sc_id_cr s' = um_set i c (sc_id_cr s)" "cr_id (sc_crs s' ! c) = i"
    and crs: "length (sc_crs s') = length (sc_crs s)" "\<And>d. d \<noteq> c \<Longrightarrow> sc_crs s' ! d = sc_crs s ! d" "sc_proc_num s' = sc_proc_num s"
    and homed: "home_of s' (sc_crs s' ! c) = hm"
    and queued: "set q = insert c (set (queue_of s hm))" "sorted_wrt (before (sc_crs s')) q"
    and all: "\<And>h. queue_of s' h = (if h = hm then q else queue_of s h)"
  shows "sched_ok pend s'"
proof -
  have notin: "c \<notin> live pend s" using new(2) by blast
  have free: "map_of (sc_id_cr s) i = None"
  proof (rule ccontr)
    assume "map_of (sc_id_cr s) i \<noteq> None"
    then obtain d where d: "map_of (sc_id_cr s) i = Some d" by auto
    then have "cr_id (sc_crs s ! d) = i" using ok by (simp add: sched_ok_def ids_ok_def)
    then show False using new(3) registered_live [OF d] by (auto simp: free_id_for_def)
  qed
  have live: "live pend s' = insert c (live pend s)"
    using free by (simp add: live_def id ran_map_upd)
  have home: "d \<noteq> c \<Longrightarrow> home_of s' (sc_crs s' ! d) = home_of s (sc_crs s ! d)" for d
    using crs by (simp add: home_of_def)
  have "queues_ok pend s'" unfolding queues_ok_def
  proof (intro conjI allI ballI)
    fix h
    have "d \<noteq> c" if "d \<in> set (queue_of s h)" for d using queued_live [OF ok that] notin by auto
    then have "sorted_wrt (before (sc_crs s')) (queue_of s h)"
      using ok_sorted [OF ok, of h] before_cong [of "queue_of s h" "sc_crs s'" "sc_crs s"] crs(2) by simp
    then show "sorted_wrt (before (sc_crs s')) (queue_of s' h)" using all queued(2) by simp
    fix d assume d: "d \<in> set (queue_of s' h)"
    have "d = c \<and> h = hm \<or> d \<in> set (queue_of s h)" using d all [of h] queued(1) by (auto split: if_splits)
    then have "d = c \<and> h = hm \<or> d \<noteq> c \<and> d \<in> live pend s \<and> home_of s (sc_crs s ! d) = h"
      using queued_live [OF ok, of d h] notin by blast
    then show "d \<in> live pend s'" "home_of s' (sc_crs s' ! d) = h" using home [of d] homed live by auto
  next
    fix d assume d: "d \<in> live pend s'"
    show "d < length (sc_crs s')" using d live ok_length [OF ok, of d] new(1) crs(1) by auto
    show "d \<in> set (queue_of s' (home_of s' (sc_crs s' ! d)))"
      using d live live_queued [OF ok, of d] home [of d] homed all queued(1) by (cases "d = c") auto
  qed
  moreover have "ids_ok pend s'"
  proof -
    have old: "ids_ok pend s" using ok by (simp add: sched_ok_def)
    have other: "d \<in> live pend s \<Longrightarrow> sc_crs s' ! d = sc_crs s ! d" for d using crs(2) [of d] notin by auto
    have "cr_id (sc_crs s' ! d) = j \<and> d \<notin> set pend" if "map_of (sc_id_cr s') j = Some d" for j d
      using that old other registered_live [of s j d pend] notin id by (auto simp: ids_ok_def live_def split: if_splits)
    moreover have "inj_on (\<lambda>c. cr_id (sc_crs s' ! c)) (insert c (live pend s))"
    proof -
      have "inj_on (\<lambda>c. cr_id (sc_crs s ! c)) (live pend s)" using old by (simp add: ids_ok_def)
      then have "inj_on (\<lambda>c. cr_id (sc_crs s' ! c)) (live pend s)"
        using inj_on_cong [of "live pend s" "\<lambda>c. cr_id (sc_crs s' ! c)" "\<lambda>c. cr_id (sc_crs s ! c)"] other by simp
      moreover have "i \<notin> (\<lambda>c. cr_id (sc_crs s' ! c)) ` live pend s" using new(3) other by (auto simp: free_id_for_def)
      ultimately show ?thesis using notin by (simp add: id(2))
    qed
    ultimately show ?thesis using old by (simp add: ids_ok_def live)
  qed
  ultimately show ?thesis using parts by (simp add: sched_ok_def)
qed


lemma sched_ok_unregister:
  assumes ok: "sched_ok pend s" and u: "unregister crid s = Some (c, s')"
  shows "sched_ok (c # pend) s'"
proof -
  obtain m where m: "map_of (sc_id_cr s) crid = Some c" and s': "s' = (upd_cr c cr_Stop s)\<lparr>sc_id_cr := um_erase crid (sc_id_cr s)\<rparr>"
    using u by (auto simp: unregister_def split: option.splits)
  let ?s = "upd_cr c cr_Stop s"
  have q: "same_queues s ?s"
    unfolding same_queues_def by (simp add: upd_cr_def ch_context_def map_update_same fixed_def cr_Stop_def)
  have ok': "sched_ok pend ?s" by (rule sched_ok_same [OF ok q])
  then have ids: "ids_ok pend ?s" and old: "queues_ok pend ?s" "parts_ok ?s" by (simp_all add: sched_ok_def)
  have id: "sc_id_cr ?s = sc_id_cr s" by (simp add: upd_cr_def)
  have inj: "map_of (sc_id_cr s) j = Some c \<Longrightarrow> j = crid" for j using ids m unfolding ids_ok_def id by blast
  have "ran (map_of (sc_id_cr s)) = insert c (ran ((map_of (sc_id_cr s))(crid := None)))"
  proof
    show "ran (map_of (sc_id_cr s)) \<subseteq> insert c (ran ((map_of (sc_id_cr s))(crid := None)))"
      using m by (auto simp: ran_def) (metis option.inject)
    show "insert c (ran ((map_of (sc_id_cr s))(crid := None))) \<subseteq> ran (map_of (sc_id_cr s))"
      using m by (auto simp: ran_def split: if_splits)
  qed
  then have live: "live (c # pend) s' = live pend ?s" by (simp add: live_def s' id)
  have same: "queue_of s' h = queue_of ?s h" "home_of s' cr = home_of ?s cr" "sc_crs s' = sc_crs ?s" for h cr
    by (simp_all add: s')
  have "queues_ok (c # pend) s'" using old(1) unfolding queues_ok_def live same .
  moreover have "parts_ok s'" using old(2) by (simp add: parts_ok_def s' keys_ok_def)
  moreover have "ids_ok (c # pend) s'"
    unfolding ids_ok_def live same(3)
  proof (intro conjI allI impI)
    fix i d assume "map_of (sc_id_cr s') i = Some d"
    then have i: "i \<noteq> crid" "map_of (sc_id_cr s) i = Some d" by (auto simp: s' split: if_splits)
    then show "cr_id (sc_crs ?s ! d) = i" using ids unfolding ids_ok_def id by blast
    show "d \<notin> set (c # pend)" using ids i inj unfolding ids_ok_def id by auto
  next
    show "inj_on (\<lambda>c. cr_id (sc_crs ?s ! c)) (live pend ?s)" using ids by (simp add: ids_ok_def)
    show "distinct (c # pend)" using ids m unfolding ids_ok_def id by auto
  qed
  ultimately show ?thesis by (simp add: sched_ok_def)
qed

text \<open>A routine that is being removed leaves its queue.\<close>

lemma sched_ok_remove:
  assumes ok: "sched_ok pend s" and c: "c \<in> set pend" and parts: "parts_ok s'"
    and crs: "map fixed (sc_crs s') = map fixed (sc_crs s)" "sc_id_cr s' = sc_id_cr s" "sc_proc_num s' = sc_proc_num s"
    and all: "\<And>h. queue_of s' h = (if h = home_of s (sc_crs s ! c) then q else queue_of s h)"
    and q: "set q = set (queue_of s (home_of s (sc_crs s ! c))) - {c}" "sorted_wrt (before (sc_crs s)) q"
  shows "sched_ok (remove1 c pend) s'"
proof -
  have old: "ids_ok pend s" using ok by (simp add: sched_ok_def)
  have c_live: "c \<in> live pend s" using c by (simp add: live_def)
  have "c \<notin> ran (map_of (sc_id_cr s))" using old c by (auto simp: ids_ok_def ran_def)
  then have live: "live (remove1 c pend) s' = live pend s - {c}"
    using old by (auto simp: live_def crs ids_ok_def)
  have len: "length (sc_crs s') = length (sc_crs s)" using crs(1) map_eq_imp_length_eq by blast
  have fx: "d < length (sc_crs s) \<Longrightarrow> fixed (sc_crs s' ! d) = fixed (sc_crs s ! d)" for d using fixed_nth [OF crs(1)] .
  have home: "home_of s' (sc_crs s' ! d) = home_of s (sc_crs s ! d)" if "d \<in> live pend s" for d
    using fixed_home [OF fx [OF ok_length [OF ok that]], of s] unfolding home_of_def crs(3) .
  have sub: "set (queue_of s' h) = set (queue_of s h) - {c}" for h
  proof (cases "h = home_of s (sc_crs s ! c)")
    case False
    then have "c \<notin> set (queue_of s h)" using queued_live [OF ok] by blast
    then show ?thesis using False all by simp
  qed (use all q in simp)
  have prio: "cr_priority (sc_crs s' ! d) = cr_priority (sc_crs s ! d)" if "d \<in> live pend s" for d
    using fx [OF ok_length [OF ok that]] by (simp add: fixed_def)
  have "queues_ok (remove1 c pend) s'" unfolding queues_ok_def live sub len
  proof (intro conjI allI ballI)
    fix h
    have "sorted_wrt (before (sc_crs s)) (queue_of s' h)" using all q(2) ok_sorted [OF ok] by simp
    moreover have "set (queue_of s' h) \<subseteq> live pend s" using sub [of h] queued_live [OF ok, of _ h] by blast
    ultimately show "sorted_wrt (before (sc_crs s')) (queue_of s' h)"
      using before_cong [of "queue_of s' h" "sc_crs s'" "sc_crs s"] prio by blast
    fix d assume d: "d \<in> set (queue_of s h) - {c}"
    then show "d \<in> live pend s - {c}" "home_of s' (sc_crs s' ! d) = h" using queued_live [OF ok] home by auto
  next
    fix d assume d: "d \<in> live pend s - {c}"
    then show "d < length (sc_crs s)" "d \<in> set (queue_of s (home_of s' (sc_crs s' ! d))) - {c}"
      using ok_length [OF ok] live_queued [OF ok] home by auto
  qed
  moreover have "ids_ok (remove1 c pend) s'"
  proof -
    have ids: "d \<in> live pend s \<Longrightarrow> cr_id (sc_crs s' ! d) = cr_id (sc_crs s ! d)" for d
      using fx [OF ok_length [OF ok]] by (simp add: fixed_def)
    show ?thesis unfolding ids_ok_def live crs(2)
    proof (intro conjI allI impI)
      fix i d assume i: "map_of (sc_id_cr s) i = Some d"
      then show "cr_id (sc_crs s' ! d) = i" using old ids [OF registered_live [OF i]] by (simp add: ids_ok_def)
      show "d \<notin> set (remove1 c pend)" using old i set_remove1_subset [of c pend] unfolding ids_ok_def by blast
    next
      show "inj_on (\<lambda>c. cr_id (sc_crs s' ! c)) (live pend s - {c})" "distinct (remove1 c pend)"
        using old ids by (auto simp: ids_ok_def inj_on_def)
    qed
  qed
  ultimately show ?thesis using parts by (simp add: sched_ok_def)
qed

section \<open>The operations keep the order\<close>

lemma queue_of_enqueue:
  assumes "cc_enqueue c cr (sc_rq s) = Some rq" "parts_ok s"
  shows "queue_of (s\<lparr>sc_rq := rq\<rparr>) h =
    (if h = Pool (cr_group_name cr) (unat (cr_priority cr)) then queue_of s h @ [c] else queue_of s h)"
proof (cases h)
  case (Pool grp p)
  have len: "length (um_at empty_queue g (rq_cr_group (sc_rq s))) = MAX_PRIO" for g using assms(2) by (simp add: parts_ok_def)
  show ?thesis using assms(1) Pool len
    by (auto simp: cc_enqueue_def Let_def queue_of_def nth_list_update split: if_splits)
next
  case (Proc i)
  then show ?thesis by (simp add: queue_of_def)
qed

lemma parts_ok_enqueue:
  assumes "cc_enqueue c cr (sc_rq s) = Some rq" "parts_ok s"
  shows "parts_ok (s\<lparr>sc_rq := rq\<rparr>)"
  using assms by (auto simp: cc_enqueue_def Let_def parts_ok_def keys_ok_def split: if_splits)

lemma enqueue_some: "unat (cr_priority cr) < MAX_PRIO \<Longrightarrow> \<exists>rq. cc_enqueue c cr rq0 = Some rq"
  by (simp add: cc_enqueue_def Let_def)

lemma clip_priority_small: "unat (cr_priority (clip_priority cr)) < MAX_PRIO"
  by (auto simp: clip_priority_def MAX_PRIO_def word_le_nat_alt)

lemma clip_priority_fields [simp]:
  "cr_id (clip_priority cr) = cr_id cr" "cr_processor_id (clip_priority cr) = cr_processor_id cr"
  "cr_group_name (clip_priority cr) = cr_group_name cr" "cr_lock (clip_priority cr) = cr_lock cr" "cr_name (clip_priority cr) = cr_name cr"
  by (simp_all add: clip_priority_def)

text \<open>Notifications and waiting are about counters only.\<close>

lemma same_queues_notify: "same_queues s (s\<lparr>sc_rq := cc_Notify grp (sc_rq s)\<rparr>)"
  by (simp add: same_queues_def cc_Notify_def)

lemma same_queues_trans: "same_queues s s' \<Longrightarrow> same_queues s' s'' \<Longrightarrow> same_queues s s''"
  unfolding same_queues_def by simp

lemma same_queues_upd: "fixed (f (sc_crs s ! c)) = fixed (sc_crs s ! c) \<Longrightarrow> same_queues s (upd_cr c f s)"
  by (simp add: same_queues_def map_update_same) (simp add: upd_cr_def map_update_same)

lemma same_queues_context:
  assumes "ch_context i s = Some cx" "hc_cr_queue cx' = hc_cr_queue cx"
  shows "same_queues s (set_ch_context i cx' s)"
proof -
  have "map_option hc_cr_queue (ch_context j (set_ch_context i cx' s)) = map_option hc_cr_queue (ch_context j s)" for j
    using assms by (cases "j = i") (auto simp: ch_context_def set_ch_context_def split: if_splits processor_context.splits)
  then show ?thesis by (simp add: same_queues_def set_ch_context_def)
qed

text \<open>A routine that is not queued does not matter to the contexts.\<close>

lemma keys_ok_other:
  assumes ok: "sched_ok pend s" and c: "c \<notin> live pend s" and i: "i < unat (sc_proc_num s)" "ch_context i s = Some cx" "keys_ok s cx"
    and crs: "\<And>d. d \<noteq> c \<Longrightarrow> sc_crs s' ! d = sc_crs s ! d"
  shows "keys_ok s' cx"
  unfolding keys_ok_def
proof clarify
  fix p d assume d: "(p, d) \<in> set (hc_cr_queue cx)"
  then have "d \<in> set (queue_of s (Proc i))" using i(1,2) by (force simp: queue_of_def)
  then have "d \<noteq> c" using queued_live [OF ok] c by blast
  then show "p = cr_priority (sc_crs s' ! d)" using i(3) d crs by (auto simp: keys_ok_def)
qed

text \<open>The new routine goes to the end of its level, or behind the routines of the same priority.\<close>

lemma sched_ok_pool:
  assumes ok: "sched_ok pend s" and new: "c < length (sc_crs s)" "\<And>d. d \<in> live pend s \<Longrightarrow> d < c" "free_id_for i pend s"
    and cr: "cr_id cr = i" "\<not> pid_of cr < sc_proc_num s" and rq: "cc_enqueue c cr (sc_rq s) = Some rq"
    and s': "s' = (upd_cr c (\<lambda>_. cr) (s\<lparr>sc_id_cr := um_set i c (sc_id_cr s)\<rparr>))\<lparr>sc_rq := rq\<rparr>"
  shows "sched_ok pend s'"
proof -
  let ?h = "Pool (cr_group_name cr) (unat (cr_priority cr))"
  have parts: "parts_ok s" using ok by (simp add: sched_ok_def)
  have crs: "sc_crs s' = (sc_crs s)[c := cr]" by (simp add: s' upd_cr_def)
  have notin: "c \<notin> live pend s" using new(2) by blast
  have queue: "queue_of s' h = (if h = ?h then queue_of s ?h @ [c] else queue_of s h)" for h
  proof -
    have "queue_of s' h = queue_of (s\<lparr>sc_rq := rq\<rparr>) h" by (simp add: s' upd_cr_def queue_of_def ch_context_def split: home.split)
    then show ?thesis using queue_of_enqueue [OF rq parts, of h] by simp
  qed
  have level: "cr_priority (sc_crs s ! d) = cr_priority cr \<and> d < c" if "d \<in> set (queue_of s ?h)" for d
    using queued_live [OF ok that] new(2) [of d] by (auto simp: home_of_def split: if_splits intro: unsigned_word_eqI)
  have "sorted_wrt (before ((sc_crs s)[c := cr])) (queue_of s ?h @ [c])"
  proof -
    have other: "(sc_crs s)[c := cr] ! d = sc_crs s ! d" if "d \<in> set (queue_of s ?h)" for d using level [OF that] by simp
    have "sorted_wrt (before ((sc_crs s)[c := cr])) (queue_of s ?h)"
      by (subst before_cong [of _ _ "sc_crs s"]) (use other ok_sorted [OF ok, of ?h] in auto)
    moreover have "before ((sc_crs s)[c := cr]) d c" if "d \<in> set (queue_of s ?h)" for d
      using level [OF that] new(1) by (simp add: before_def)
    ultimately show ?thesis by (simp add: sorted_wrt_append)
  qed
  moreover have "parts_ok s'"
  proof -
    have ctx: "ch_context j s' = ch_context j s" "sc_proc_num s' = sc_proc_num s" for j by (simp_all add: s' upd_cr_def)
    have "\<exists>cx. ch_context j s' = Some cx \<and> keys_ok s' cx" if j: "j < unat (sc_proc_num s)" for j
    proof -
      obtain cx where cx: "ch_context j s = Some cx" "keys_ok s cx" using ok_context [OF ok j] by blast
      have "keys_ok s' cx" by (rule keys_ok_other [OF ok notin j cx]) (simp add: crs)
      then show ?thesis using cx(1) ctx by simp
    qed
    moreover have "ch_context j s = None" if "j \<ge> unat (sc_proc_num s)" for j using parts that by (simp add: parts_ok_def)
    moreover have "length (um_at empty_queue grp (rq_cr_group (sc_rq s'))) = MAX_PRIO" for grp
      using parts_ok_enqueue [OF rq parts] by (simp add: parts_ok_def s')
    ultimately show ?thesis by (simp add: parts_ok_def ctx)
  qed
  moreover have "home_of s' cr = ?h" using cr(2) by (simp add: home_of_def s' upd_cr_def)
  ultimately show ?thesis
    by (intro sched_ok_add [OF ok _ new, where hm = ?h and q = "queue_of s ?h @ [c]"])
      (use queue new(1) cr(1) in \<open>simp_all add: crs\<close>, simp_all add: s' upd_cr_def)
qed

lemma queue_of_context:
  assumes "ch_context i s = Some cx" "i < unat (sc_proc_num s)"
  shows "queue_of (set_ch_context i cx' s) h = (if h = Proc i then map snd (hc_cr_queue cx') else queue_of s h)"
    and "queue_of s (Proc i) = map snd (hc_cr_queue cx)"
    and "ch_context j (set_ch_context i cx' s) = (if j = i then Some cx' else ch_context j s)"
proof -
  have i: "i < length (sc_pctxs s)" using assms(1) by (simp add: ch_context_def split: if_splits)
  then show ctx: "ch_context j (set_ch_context i cx' s) = (if j = i then Some cx' else ch_context j s)" for j
    by (auto simp: ch_context_def set_ch_context_def)
  show "queue_of s (Proc i) = map snd (hc_cr_queue cx)" using assms by (simp add: queue_of_def)
  show "queue_of (set_ch_context i cx' s) h = (if h = Proc i then map snd (hc_cr_queue cx') else queue_of s h)"
    using assms(2) ctx by (cases h) (simp_all add: queue_of_def, simp_all add: set_ch_context_def)
qed

lemma sched_ok_proc:
  assumes ok: "sched_ok pend s" and new: "c < length (sc_crs s)" "\<And>d. d \<in> live pend s \<Longrightarrow> d < c" "free_id_for i pend s"
    and cr: "cr_id cr = i" "pid_of cr < sc_proc_num s" and cx: "ch_context (unat (pid_of cr)) s = Some cx"
    and s': "s' = set_ch_context (unat (pid_of cr)) (hc_Enqueue c cr cx) (upd_cr c (\<lambda>_. cr) (s\<lparr>sc_id_cr := um_set i c (sc_id_cr s)\<rparr>))"
  shows "sched_ok pend s'"
proof -
  let ?i = "unat (pid_of cr)" and ?t = "upd_cr c (\<lambda>_. cr) (s\<lparr>sc_id_cr := um_set i c (sc_id_cr s)\<rparr>)"
  let ?q = "mm_emplace (cr_priority cr) c (hc_cr_queue cx)"
  have pid: "?i < unat (sc_proc_num s)" using cr(2) by (simp add: word_less_nat_alt)
  have crs: "sc_crs s' = (sc_crs s)[c := cr]" "sc_proc_num s' = sc_proc_num s" by (simp_all add: s' upd_cr_def set_ch_context_def)
  have notin: "c \<notin> live pend s" using new(2) by blast
  have keys: "keys_ok s cx" using ok_context [OF ok pid] cx by auto
  have old: "queue_of s (Proc ?i) = map snd (hc_cr_queue cx)" by (rule queue_of_context(2) [OF cx pid])
  have t: "ch_context ?i ?t = Some cx" "?i < unat (sc_proc_num ?t)" using cx pid by (simp_all add: upd_cr_def)
  note ctx = queue_of_context(1,3) [OF t, where cx' = "hc_Enqueue c cr cx", folded s']
  have queue: "queue_of s' h = (if h = Proc ?i then map snd ?q else queue_of s h)" for h
    using ctx(1) [of h] by (simp add: hc_Enqueue_def)
  have lt: "d < c \<and> p = cr_priority ((sc_crs s)[c := cr] ! d) \<and> (sc_crs s)[c := cr] ! d = sc_crs s ! d"
    if "(p, d) \<in> set (hc_cr_queue cx)" for p d
  proof -
    have "d \<in> set (queue_of s (Proc ?i))" using that by (force simp: old)
    then have "d < c" using queued_live [OF ok] new(2) by blast
    then show ?thesis using keys that by (auto simp: keys_ok_def)
  qed
  have "sorted_wrt (before ((sc_crs s)[c := cr])) (map snd (hc_cr_queue cx))"
    using ok_sorted [OF ok, of "Proc ?i"] lt unfolding old by (subst before_cong [of _ _ "sc_crs s"]) auto
  from before_emplace [OF this, of c] lt
  have sorted: "sorted_wrt (before ((sc_crs s)[c := cr])) (map snd ?q)" using new(1) by fastforce
  have set: "set (map snd ?q) = insert c (set (queue_of s (Proc ?i)))" by (force simp: set_mm_emplace old)
  have "parts_ok s'"
  proof -
    have "\<exists>cy. ch_context j s' = Some cy \<and> keys_ok s' cy" if j: "j < unat (sc_proc_num s)" for j
    proof (cases "j = ?i")
      case True
      have "keys_ok s' (hc_Enqueue c cr cx)" using lt new(1) by (auto simp: keys_ok_def hc_Enqueue_def set_mm_emplace crs)
      then show ?thesis using True ctx(2) [of j] by simp
    next
      case False
      obtain cy where cy: "ch_context j s = Some cy" "keys_ok s cy" using ok_context [OF ok j] by blast
      have "keys_ok s' cy" by (rule keys_ok_other [OF ok notin j cy]) (simp add: crs)
      then show ?thesis using cy(1) ctx(2) [of j] False by simp
    qed
    moreover have "ch_context j s' = None" if "j \<ge> unat (sc_proc_num s)" for j
      using ok that pid ctx(2) [of j] by (simp add: sched_ok_def parts_ok_def)
    moreover have "length (um_at empty_queue grp (rq_cr_group (sc_rq s'))) = MAX_PRIO" for grp
      using ok by (simp add: sched_ok_def parts_ok_def s' set_ch_context_def upd_cr_def)
    ultimately show ?thesis by (simp add: parts_ok_def crs)
  qed
  moreover have "home_of s' cr = Proc ?i" using cr(2) by (simp add: home_of_def crs)
  ultimately show ?thesis
    by (intro sched_ok_add [OF ok _ new, where hm = "Proc ?i" and q = "map snd ?q"])
      (use queue sorted set new(1) cr(1) in \<open>simp_all add: crs\<close>, simp_all add: s' upd_cr_def set_ch_context_def)
qed

text \<open>Within its queue, a routine is found by its id.\<close>

lemma find_by_id:
  assumes ok: "sched_ok pend s" and c: "c \<in> live pend s"
  defines "q \<equiv> queue_of s (home_of s (sc_crs s ! c))"
  shows "find (\<lambda>d. cr_id (sc_crs s ! d) = cr_id (sc_crs s ! c)) q = Some c"
    and "set (erase_first (\<lambda>d. cr_id (sc_crs s ! d) = cr_id (sc_crs s ! c)) q) = set q - {c}"
proof -
  have "distinct q" "c \<in> set q" unfolding q_def using ok_distinct [OF ok] live_queued [OF ok c] by simp_all
  moreover have "cr_id (sc_crs s ! d) = cr_id (sc_crs s ! c) \<longleftrightarrow> d = c" if "d \<in> set q" for d
  proof -
    have d: "d \<in> live pend s" using queued_live [OF ok] that unfolding q_def by blast
    have "inj_on (\<lambda>c. cr_id (sc_crs s ! c)) (live pend s)" using ok by (simp add: sched_ok_def ids_ok_def)
    then show ?thesis using inj_onD [of _ _ d c] d c by auto
  qed
  ultimately show "find (\<lambda>d. cr_id (sc_crs s ! d) = cr_id (sc_crs s ! c)) q = Some c"
    "set (erase_first (\<lambda>d. cr_id (sc_crs s ! d) = cr_id (sc_crs s ! c)) q) = set q - {c}"
    using erase_first_unique [of q c "\<lambda>d. cr_id (sc_crs s ! d) = cr_id (sc_crs s ! c)"] by blast+
qed

definition dequeued :: "nat \<Rightarrow> nat list \<Rightarrow> 'a scheduler_scheme \<Rightarrow> outcome \<times> 'a scheduler_scheme \<Rightarrow> bool" where
  "dequeued c pend s r \<longleftrightarrow>
     (if cr_lock (sc_crs s ! c) then fst r = Waits \<and> sched_ok pend (snd r) else fst r = Returns True \<and> sched_ok (remove1 c pend) (snd r))
     \<and> sc_id_cr (snd r) = sc_id_cr s \<and> map fixed (sc_crs (snd r)) = map fixed (sc_crs s) \<and> locks (sc_crs (snd r)) = locks (sc_crs s) \<and> sc_proc_num (snd r) = sc_proc_num s \<and> scheduler.more (snd r) = scheduler.more s"

lemma stop_fields [simp]: "fixed (cr_Stop cr) = fixed cr" "cr_lock (cr_Stop cr) = cr_lock cr" "cr_id (cr_Stop cr) = cr_id cr"
  by (simp_all add: cr_Stop_def fixed_def)

lemma stopped_ids: "cr_id (((sc_crs s)[c := cr_Stop (sc_crs s ! c)]) ! d) = cr_id (sc_crs s ! d)"
  by (cases "c < length (sc_crs s)"; cases "c = d") (simp_all add: list_update_beyond)

lemma cl_dequeue_ok:
  assumes ok: "sched_ok pend s" and c: "c \<in> set pend" and pool: "\<not> pid_of (sc_crs s ! c) < sc_proc_num s"
  shows "dequeued c pend s (cl_dequeue c s)"
proof -
  define cr where "cr = sc_crs s ! c"
  define qs where "qs = um_at empty_queue (cr_group_name cr) (rq_cr_group (sc_rq s))"
  define p where "p = unat (cr_priority cr)"
  define crs where "crs = (sc_crs s)[c := cr_Stop cr]"
  have live: "c \<in> live pend s" using c by (simp add: live_def)
  have len: "c < length (sc_crs s)" by (rule ok_length [OF ok live])
  have home: "home_of s cr = Pool (cr_group_name cr) p" using pool by (simp add: home_of_def cr_def p_def)
  have "queue_of s (home_of s cr) \<noteq> []" using live_queued [OF ok live] by (auto simp: cr_def)
  then have p: "p < MAX_PRIO" by (auto simp: home queue_of_def split: if_splits)
  have q: "queue_of s (home_of s cr) = qs ! p" using p by (simp add: home queue_of_def qs_def)
  note find = find_by_id [OF ok live, folded cr_def, unfolded q]
  have ids: "cr_id (crs ! d) = cr_id (sc_crs s ! d)" for d using stopped_ids [of s c d] by (simp add: crs_def cr_def)
  have crs: "crs ! c = cr_Stop cr" "map fixed crs = map fixed (sc_crs s)" "locks crs = locks (sc_crs s)"
    using len by (simp_all add: crs_def cr_def map_update_same locks_def)
  show ?thesis
  proof (cases "cr_lock cr")
    case True
    have "cl_dequeue c s = (Waits, s\<lparr>sc_crs := crs\<rparr>)"
      using p find(1) True crs(1) by (simp add: cl_dequeue_def cc_RemoveCRoutine_def Let_def Acquire_def
          cr_def [symmetric] qs_def [symmetric] p_def [symmetric] crs_def [symmetric])
    moreover have "same_queues s (s\<lparr>sc_crs := crs\<rparr>)" using crs(2) by (simp add: same_queues_def)
    ultimately show ?thesis using True sched_ok_same [OF ok] crs(2,3) by (simp add: dequeued_def cr_def)
  next
    case False
    define q' where "q' = erase_first (\<lambda>d. cr_id (crs ! d) = cr_id cr) (qs ! p)"
    define rq where "rq = (sc_rq s)\<lparr>rq_cr_group := um_set (cr_group_name cr) (qs[p := q']) (rq_cr_group (sc_rq s))\<rparr>"
    define crs2 where "crs2 = crs[c := Release ((crs ! c)\<lparr>cr_lock := True\<rparr>)]"
    have "cl_dequeue c s = (Returns True, s\<lparr>sc_rq := rq, sc_crs := crs2\<rparr>)"
      using p find(1) False crs(1) by (simp add: cl_dequeue_def cc_RemoveCRoutine_def Let_def Acquire_def rq_def crs2_def q'_def
          cr_def [symmetric] qs_def [symmetric] p_def [symmetric] crs_def [symmetric])
    moreover have fixed2: "map fixed crs2 = map fixed (sc_crs s)" "locks crs2 = locks (sc_crs s)"
      using crs False unfolding crs2_def locks_def by (simp_all add: map_update_same fixed_def Release_def)
    moreover have "sched_ok (remove1 c pend) (s\<lparr>sc_rq := rq, sc_crs := crs2\<rparr>)"
    proof (rule sched_ok_remove [OF ok c])
      have lens: "length (um_at empty_queue g (rq_cr_group (sc_rq s))) = MAX_PRIO" for g using ok by (simp add: sched_ok_def parts_ok_def)
      have at: "um_at empty_queue g (rq_cr_group rq) = (if g = cr_group_name cr then qs[p := q'] else um_at empty_queue g (rq_cr_group (sc_rq s)))" for g
        by (simp add: rq_def)
      have qs: "length qs = MAX_PRIO" using lens by (simp add: qs_def)
      show "queue_of (s\<lparr>sc_rq := rq, sc_crs := crs2\<rparr>) h = (if h = home_of s (sc_crs s ! c) then q' else queue_of s h)" for h
      proof (cases h)
        case (Pool g r)
        then show ?thesis using p qs home by (auto simp: queue_of_def at cr_def [symmetric] nth_list_update qs_def [symmetric])
      qed (simp add: queue_of_def home cr_def [symmetric])
      show "set q' = set (queue_of s (home_of s (sc_crs s ! c))) - {c}"
        using find(2) q by (simp add: q'_def ids cr_def [symmetric])
      show "sorted_wrt (before (sc_crs s)) q'"
        using sorted_erase_first ok_sorted [OF ok, of "home_of s cr"] by (simp add: q'_def q)
      have "parts_ok (s\<lparr>sc_crs := crs2\<rparr>)" using sched_ok_same [OF ok] fixed2(1) by (simp add: same_queues_def sched_ok_def)
      then show "parts_ok (s\<lparr>sc_rq := rq, sc_crs := crs2\<rparr>)" by (simp add: parts_ok_def at qs keys_ok_def)
    qed (use fixed2 in simp_all)
    ultimately show ?thesis using False by (simp add: dequeued_def cr_def)
  qed
qed

lemma ch_dequeue_ok:
  assumes ok: "sched_ok pend s" and c: "c \<in> set pend"
  shows "dequeued c pend s (ch_dequeue c s)"
proof (cases "pid_of (sc_crs s ! c) < sc_proc_num s")
  case False
  then show ?thesis using cl_dequeue_ok [OF ok c] by (simp add: ch_dequeue_def)
next
  case pid: True
  define cr where "cr = sc_crs s ! c"
  define crs where "crs = (sc_crs s)[c := cr_Stop cr]"
  define i where "i = unat (pid_of cr)"
  have i: "i < unat (sc_proc_num s)" using pid by (simp add: i_def cr_def word_less_nat_alt)
  obtain cx where cx: "ch_context i s = Some cx" "keys_ok s cx" using ok_context [OF ok i] by blast
  have live: "c \<in> live pend s" using c by (simp add: live_def)
  have len: "c < length (sc_crs s)" by (rule ok_length [OF ok live])
  have home: "home_of s cr = Proc i" using pid by (simp add: home_of_def cr_def i_def)
  have q: "queue_of s (home_of s cr) = map snd (hc_cr_queue cx)" using queue_of_context(2) [OF cx(1) i] home by simp
  note find = find_by_id [OF ok live, folded cr_def, unfolded q]
  have ids: "cr_id (crs ! d) = cr_id (sc_crs s ! d)" for d using stopped_ids [of s c d] by (simp add: crs_def cr_def)
  have crs: "crs ! c = cr_Stop cr" "map fixed crs = map fixed (sc_crs s)" "locks crs = locks (sc_crs s)"
    using len by (simp_all add: crs_def cr_def map_update_same locks_def)
  show ?thesis
  proof (cases "cr_lock cr")
    case True
    have "(sc_pctxs s)[i := Choreography cx] = sc_pctxs s"
      using cx(1) by (auto simp: ch_context_def list_update_same_conv split: if_splits processor_context.splits)
    then have "set_ch_context i cx s = s" by (simp add: set_ch_context_def)
    then have "ch_dequeue c s = (Waits, s\<lparr>sc_crs := crs\<rparr>)"
      using find(1) True crs(1) pid cx(1) by (simp add: ch_dequeue_def hc_RemoveCRoutine_def Let_def Acquire_def
          cr_def [symmetric] i_def [symmetric] crs_def [symmetric])
    moreover have "same_queues s (s\<lparr>sc_crs := crs\<rparr>)" using crs(2) by (simp add: same_queues_def)
    ultimately show ?thesis using True sched_ok_same [OF ok] crs(2,3) by (simp add: dequeued_def cr_def)
  next
    case False
    define cx' where "cx' = cx\<lparr>hc_cr_queue := mm_erase_first (\<lambda>d. cr_id (crs ! d) = cr_id cr) (hc_cr_queue cx)\<rparr>"
    define crs2 where "crs2 = crs[c := Release ((crs ! c)\<lparr>cr_lock := True\<rparr>)]"
    let ?s = "(set_ch_context i cx' s)\<lparr>sc_crs := crs2\<rparr>"
    have "ch_dequeue c s = (Returns True, ?s)"
      using find(1) False crs(1) pid cx(1) by (simp add: ch_dequeue_def hc_RemoveCRoutine_def Let_def Acquire_def crs2_def cx'_def
          cr_def [symmetric] i_def [symmetric] crs_def [symmetric])
    moreover have fixed2: "map fixed crs2 = map fixed (sc_crs s)" "locks crs2 = locks (sc_crs s)"
      using crs False unfolding crs2_def locks_def by (simp_all add: map_update_same fixed_def Release_def)
    moreover have "sched_ok (remove1 c pend) ?s"
    proof (rule sched_ok_remove [OF ok c])
      note ctx = queue_of_context(1,3) [OF cx(1) i, where cx' = cx']
      show "queue_of ?s h = (if h = home_of s (sc_crs s ! c) then map snd (hc_cr_queue cx') else queue_of s h)" for h
        using ctx(1) home by (simp add: cr_def [symmetric])
      show "set (map snd (hc_cr_queue cx')) = set (queue_of s (home_of s (sc_crs s ! c))) - {c}"
        using find(2) q by (simp add: cx'_def mm_erase_first_snd ids cr_def [symmetric] del: set_map)
      show "sorted_wrt (before (sc_crs s)) (map snd (hc_cr_queue cx'))"
        using sorted_erase_first ok_sorted [OF ok, of "home_of s cr"] by (simp add: cx'_def mm_erase_first_snd q)
      have prev: "parts_ok (s\<lparr>sc_crs := crs2\<rparr>)" using sched_ok_same [OF ok] fixed2(1) by (simp add: same_queues_def sched_ok_def)
      show "parts_ok ?s"
      proof -
        have "\<exists>cy. ch_context j ?s = Some cy \<and> keys_ok ?s cy" if j: "j < unat (sc_proc_num s)" for j
        proof -
          obtain cy where cy: "ch_context j s = Some cy" "keys_ok (s\<lparr>sc_crs := crs2\<rparr>) cy" using prev j by (auto simp: parts_ok_def)
          then show ?thesis using ctx(2) [of j] cx(1) set_mm_erase_first by (cases "j = i") (fastforce simp: keys_ok_def cx'_def)+
        qed
        moreover have "ch_context j ?s = None" if "j \<ge> unat (sc_proc_num s)" for j
          using prev that i ctx(2) [of j] by (simp add: parts_ok_def)
        ultimately show ?thesis using prev by (simp add: parts_ok_def set_ch_context_def)
      qed
    qed (use fixed2 in \<open>simp_all add: set_ch_context_def\<close>)
    ultimately show ?thesis using False by (simp add: dequeued_def cr_def set_ch_context_def)
  qed
qed

section \<open>Dispatching\<close>

text \<open>What a scheduler does with a new routine, the last object: it is refused when its id is in use.\<close>

definition dispatched :: "nat list \<Rightarrow> 'a scheduler_scheme \<Rightarrow> (bool \<times> 'a scheduler_scheme) option \<Rightarrow> bool" where
  "dispatched pend s r \<longleftrightarrow>
     (\<exists>b s'. r = Some (b, s') \<and> b = (map_of (sc_id_cr s) (cr_id (last (sc_crs s))) = None) \<and> sched_ok pend s'
       \<and> sc_id_cr s' = (if b then um_set (cr_id (last (sc_crs s))) (length (sc_crs s) - 1) (sc_id_cr s) else sc_id_cr s)
       \<and> map cr_name (sc_crs s') = map cr_name (sc_crs s) \<and> locks (sc_crs s') = locks (sc_crs s)
       \<and> sc_stop s' = sc_stop s \<and> sc_proc_num s' = sc_proc_num s \<and> scheduler.more s' = scheduler.more s)"

lemma live_before_last:
  assumes "sched_ok pend (s\<lparr>sc_crs := butlast (sc_crs s)\<rparr>)" "d \<in> live pend s"
  shows "d < length (sc_crs s) - 1"
proof -
  have "d \<in> live pend (s\<lparr>sc_crs := butlast (sc_crs s)\<rparr>)" using assms(2) by (simp add: live_def)
  then show ?thesis using ok_length [OF assms(1)] by fastforce
qed

text \<open>A new object changes nothing before it is dispatched.\<close>

lemma sched_ok_new:
  assumes ok: "sched_ok pend (s\<lparr>sc_crs := butlast (sc_crs s)\<rparr>)" and ne: "sc_crs s \<noteq> []"
  shows "sched_ok pend s"
proof -
  let ?s = "s\<lparr>sc_crs := butlast (sc_crs s)\<rparr>"
  have live: "live pend ?s = live pend s" by (simp add: live_def)
  have nth: "d \<in> live pend s \<Longrightarrow> butlast (sc_crs s) ! d = sc_crs s ! d" for d using live_before_last [OF ok] by (simp add: nth_butlast)
  have qlive: "d \<in> set (queue_of s h) \<Longrightarrow> d \<in> live pend s" for d h using queued_live [OF ok, of d h] live by simp
  have "queues_ok pend s" unfolding queues_ok_def
  proof (intro conjI allI ballI)
    show "sorted_wrt (before (sc_crs s)) (queue_of s h)" for h
      using ok_sorted [OF ok, of h] nth qlive [of _ h] by (subst before_cong [of _ _ "butlast (sc_crs s)"]) auto
    show "d \<in> live pend s" "home_of s (sc_crs s ! d) = h" if "d \<in> set (queue_of s h)" for d h
      using queued_live [OF ok, of d h] that nth [OF qlive [OF that]] live by auto
    show "d < length (sc_crs s)" "d \<in> set (queue_of s (home_of s (sc_crs s ! d)))" if "d \<in> live pend s" for d
      using live_queued [OF ok, of d] live_before_last [OF ok that] nth [OF that] that live by auto
  qed
  moreover have "ids_ok pend s"
  proof -
    have old: "ids_ok pend ?s" using ok by (simp add: sched_ok_def)
    show ?thesis unfolding ids_ok_def
    proof (intro conjI allI impI)
      fix i d assume i: "map_of (sc_id_cr s) i = Some d"
      have "cr_id (butlast (sc_crs s) ! d) = i" using old i by (simp add: ids_ok_def)
      then show "cr_id (sc_crs s ! d) = i" using nth [OF registered_live [OF i]] by simp
      show "d \<notin> set pend" using old i by (auto simp: ids_ok_def)
    next
      have "inj_on (\<lambda>c. cr_id (butlast (sc_crs s) ! c)) (live pend s)" using old live by (simp add: ids_ok_def)
      then show "inj_on (\<lambda>c. cr_id (sc_crs s ! c)) (live pend s)"
        using inj_on_cong [of "live pend s" "\<lambda>c. cr_id (sc_crs s ! c)" "\<lambda>c. cr_id (butlast (sc_crs s) ! c)"] nth by simp
      show "distinct pend" using old by (simp add: ids_ok_def)
    qed
  qed
  moreover have "parts_ok s"
  proof -
    have "\<exists>cx. ch_context i s = Some cx \<and> keys_ok s cx" if i: "i < unat (sc_proc_num s)" for i
    proof -
      obtain cx where cx: "ch_context i s = Some cx" "keys_ok ?s cx" using ok_context [OF ok] i by auto
      have "butlast (sc_crs s) ! d = sc_crs s ! d" if "(p, d) \<in> set (hc_cr_queue cx)" for p d
        using nth [OF qlive [of d "Proc i"]] that i cx(1) by (force simp: queue_of_def)
      then show ?thesis using cx by (auto simp: keys_ok_def)
    qed
    then show ?thesis using ok by (simp add: sched_ok_def parts_ok_def)
  qed
  ultimately show ?thesis by (simp add: sched_ok_def)
qed

lemma free_from_table:
  assumes "sched_ok pend s" "i \<notin> (\<lambda>d. cr_id (sc_crs s ! d)) ` set pend" "map_of (sc_id_cr s) i = None"
  shows "free_id_for i pend s"
  unfolding free_id_for_def
proof
  fix d assume d: "d \<in> live pend s"
  show "cr_id (sc_crs s ! d) \<noteq> i"
  proof (cases "d \<in> set pend")
    case True
    then show ?thesis using assms(2) by auto
  next
    case False
    then obtain j where "map_of (sc_id_cr s) j = Some d" using d by (auto simp: live_def ran_def)
    moreover from this have "cr_id (sc_crs s ! d) = j" using assms(1) by (simp add: sched_ok_def ids_ok_def)
    ultimately show ?thesis using assms(3) by auto
  qed
qed

lemma cl_DispatchTask_ok:
  fixes s :: classic_scheduler
  assumes ok: "sched_ok pend (s\<lparr>sc_crs := butlast (sc_crs s)\<rparr>)" and ne: "sc_crs s \<noteq> []"
    and pend: "cr_id (last (sc_crs s)) \<notin> (\<lambda>d. cr_id (sc_crs s ! d)) ` set pend"
    and cl: "sc_proc_num s = 0" "cl_groups s \<noteq> []"
  shows "dispatched pend s (cl_DispatchTask (length (sc_crs s) - 1) s)"
proof -
  define c where "c = length (sc_crs s) - 1"
  define cr where "cr = last (sc_crs s)"
  have last: "sc_crs s ! c = cr" using ne by (simp add: cr_def c_def last_conv_nth)
  have c: "c < length (sc_crs s)" using ne by (simp add: c_def)
  have ok': "sched_ok pend s" by (rule sched_ok_new [OF ok ne])
  show ?thesis
  proof (cases "map_of (sc_id_cr s) (cr_id cr)")
    case (Some d)
    then have "cl_DispatchTask c s = Some (False, s)" by (simp add: cl_DispatchTask_def last Let_def)
    then show ?thesis using ok' Some by (auto simp: dispatched_def cr_def c_def intro!: exI [of _ False])
  next
    case None
    have free: "free_id_for (cr_id cr) pend s" by (rule free_from_table [OF ok' pend [folded cr_def] None])
    let ?s = "s\<lparr>sc_id_cr := um_set (cr_id cr) c (sc_id_cr s)\<rparr>"
    obtain cr' where cr': "cl_configure ?s cr = Some cr'" "cr_id cr' = cr_id cr" "unat (cr_priority cr') < MAX_PRIO" "cr_lock cr' = cr_lock cr" "cr_name cr' = cr_name cr"
      using cl(2) clip_priority_small by (cases "map_of (cl_cr_confs s) (cr_name cr)"; cases "cl_groups s") (auto simp: cl_configure_def)
    obtain rq where rq: "cc_enqueue c cr' (sc_rq s) = Some rq" using enqueue_some [OF cr'(3)] by blast
    let ?t = "(upd_cr c (\<lambda>_. cr') ?s)\<lparr>sc_rq := rq\<rparr>"
    have t: "sched_ok pend ?t"
      by (rule sched_ok_pool [OF ok' c live_before_last [OF ok, folded c_def] free cr'(2) _ rq refl]) (simp_all add: cl(1))
    have "cl_DispatchTask c s = Some (True, ?t\<lparr>sc_rq := cc_Notify (cr_group_name cr') (sc_rq ?t)\<rparr>)"
      using cr'(1) rq by (simp add: cl_DispatchTask_def last Let_def None)
    moreover have "sched_ok pend (?t\<lparr>sc_rq := cc_Notify (cr_group_name cr') (sc_rq ?t)\<rparr>)"
      by (rule sched_ok_same [OF t same_queues_notify])
    moreover have "locks (sc_crs ?t) = locks (sc_crs s)" "map cr_name (sc_crs ?t) = map cr_name (sc_crs s)"
      using last cr'(4,5) by (simp_all add: locks_def upd_cr_def map_update_same)
    ultimately show ?thesis using None unfolding c_def [symmetric] dispatched_def cr_def [symmetric] by (auto simp: upd_cr_def)
  qed
qed

lemma ch_configure_fields [simp]:
  "cr_id (ch_configure s cr) = cr_id cr" "cr_lock (ch_configure s cr) = cr_lock cr" "cr_name (ch_configure s cr) = cr_name cr"
  by (simp_all add: ch_configure_def Let_def split: option.split)

lemma ch_DispatchTask_ok:
  fixes s :: choreography_scheduler
  assumes ok: "sched_ok pend (s\<lparr>sc_crs := butlast (sc_crs s)\<rparr>)" and ne: "sc_crs s \<noteq> []"
    and pend: "cr_id (last (sc_crs s)) \<notin> (\<lambda>d. cr_id (sc_crs s ! d)) ` set pend"
  shows "dispatched pend s (ch_DispatchTask (length (sc_crs s) - 1) s)"
proof -
  define c where "c = length (sc_crs s) - 1"
  define cr where "cr = ch_configure s (last (sc_crs s))"
  define t where "t = upd_cr c (ch_configure s) s"
  have last: "sc_crs s ! c = last (sc_crs s)" using ne by (simp add: c_def last_conv_nth)
  have c: "c < length (sc_crs s)" using ne by (simp add: c_def)
  have t: "sc_crs t = (sc_crs s)[c := cr]" "sc_id_cr t = sc_id_cr s" "sc_proc_num t = sc_proc_num s" "scheduler.more t = scheduler.more s" "sc_stop t = sc_stop s"
    by (simp_all add: t_def upd_cr_def cr_def last)
  have but: "butlast (sc_crs t) = butlast (sc_crs s)" unfolding t(1) c_def by (simp add: butlast_list_update)
  have okt: "sched_ok pend (t\<lparr>sc_crs := butlast (sc_crs t)\<rparr>)"
    unfolding but by (rule sched_ok_same [OF ok]) (simp add: same_queues_def t_def upd_cr_def ch_context_def)
  have net: "sc_crs t \<noteq> []" using ne t(1) by simp
  have ok': "sched_ok pend t" by (rule sched_ok_new [OF okt net])
  have ct: "c < length (sc_crs t)" "sc_crs t ! c = cr" using c t(1) by simp_all
  have lock: "cr_lock cr = cr_lock (sc_crs s ! c)" "cr_id cr = cr_id (last (sc_crs s))" "cr_name cr = cr_name (sc_crs s ! c)" by (simp_all add: cr_def last)
  have locks_t: "locks ((sc_crs t)[c := cr']) = locks (sc_crs s)" "map cr_name ((sc_crs t)[c := cr']) = map cr_name (sc_crs s)"
    if "cr_lock cr' = cr_lock cr" "cr_name cr' = cr_name cr" for cr'
    unfolding t(1) using that lock(1,3) by (simp_all add: locks_def map_update_same)
  have before: "d \<in> live pend t \<Longrightarrow> d < c" for d using live_before_last [OF okt, of d] t(1) by (simp add: c_def)
  have dis: "ch_DispatchTask c s =
      (if map_of (sc_id_cr s) (cr_id cr) \<noteq> None then Some (False, t)
       else let u = t\<lparr>sc_id_cr := um_set (cr_id cr) c (sc_id_cr t)\<rparr>; pid = pid_of cr
            in if pid < sc_proc_num u then do { cx \<leftarrow> ch_context (unat pid) u; Some (True, set_ch_context (unat pid) (hc_Enqueue c cr cx) u) }
               else let cr = (clip_priority cr)\<lparr>cr_group_name := DEFAULT_GROUP_NAME\<rparr>
                    in do { rq \<leftarrow> cc_enqueue c cr (sc_rq u); Some (True, (upd_cr c (\<lambda>_. cr) u)\<lparr>sc_rq := rq\<rparr>) })"
    using ct(2) t(2) by (simp add: ch_DispatchTask_def t_def [symmetric] Let_def)
  show ?thesis
  proof (cases "map_of (sc_id_cr s) (cr_id cr)")
    case (Some d)
    then have "ch_DispatchTask c s = Some (False, t)" by (simp add: dis)
    then show ?thesis using ok' Some locks_t [of cr] ct t unfolding c_def [symmetric] dispatched_def lock(2) [symmetric] by (auto intro!: exI [of _ False])
  next
    case None
    have "cr_id (sc_crs t ! d) = cr_id (sc_crs s ! d)" for d using t(1) c lock(2) last by (cases "d = c") simp_all
    then have free: "free_id_for (cr_id cr) pend t"
      using pend None t(2) lock(2) by (intro free_from_table [OF ok']) simp_all
    let ?u = "t\<lparr>sc_id_cr := um_set (cr_id cr) c (sc_id_cr t)\<rparr>"
    have same: "upd_cr c (\<lambda>_. cr) ?u = ?u" using ct by (simp add: upd_cr_def list_update_same_conv)
    show ?thesis
    proof (cases "pid_of cr < sc_proc_num s")
      case True
      have pid: "unat (pid_of cr) < unat (sc_proc_num t)" using True t(3) by (simp add: word_less_nat_alt)
      obtain cx where cx: "ch_context (unat (pid_of cr)) t = Some cx" using ok_context [OF ok' pid] by blast
      let ?v = "set_ch_context (unat (pid_of cr)) (hc_Enqueue c cr cx) ?u"
      have "ch_DispatchTask c s = Some (True, ?v)" using None True cx t(3) by (simp add: dis Let_def)
      moreover have "sched_ok pend ?v"
        by (rule sched_ok_proc [OF ok' ct(1) before free refl _ cx]) (use True t(3) same in simp_all)
      ultimately show ?thesis using None locks_t [of cr] ct list_update_id [of "sc_crs t" c] t(2-5)
        unfolding c_def [symmetric] dispatched_def lock(2) [symmetric] by (auto simp: set_ch_context_def)
    next
      case False
      let ?cr = "(clip_priority cr)\<lparr>cr_group_name := DEFAULT_GROUP_NAME\<rparr>"
      have "unat (cr_priority ?cr) < MAX_PRIO" using clip_priority_small [of cr] by simp
      from enqueue_some [OF this] obtain rq where rq: "cc_enqueue c ?cr (sc_rq t) = Some rq" by blast
      let ?v = "(upd_cr c (\<lambda>_. ?cr) ?u)\<lparr>sc_rq := rq\<rparr>"
      have "ch_DispatchTask c s = Some (True, ?v)" using None False rq t(3) by (simp add: dis Let_def)
      moreover have "sched_ok pend ?v"
        by (rule sched_ok_pool [OF ok' ct(1) before free _ _ rq refl]) (use False t(3) in \<open>simp_all add: pid_of_def\<close>)
      ultimately show ?thesis using None locks_t [of ?cr] t(2-5) unfolding c_def [symmetric] dispatched_def lock(2) [symmetric]
        by (auto simp: upd_cr_def)
    qed
  qed
qed

end
