(* ===== verification/Sched_System.thy ===== *)
theory Sched_System
  imports Sched_Tasks "HOL-Library.Product_Lexorder"
begin

text \<open>
  A scheduler at work: tasks are created, notified and removed, processors take routines, run them and let
  them go, and the scheduler is shut down, in any order. The theorems hold for both policies, which
  meet the same interface.
\<close>

section \<open>The system\<close>

text \<open>The virtual functions of a scheduler.\<close>

record 'a policy =
  pl_DispatchTask :: "nat \<Rightarrow> 'a scheduler_scheme \<Rightarrow> (bool \<times> 'a scheduler_scheme) option"
  pl_dequeue :: "nat \<Rightarrow> 'a scheduler_scheme \<Rightarrow> outcome \<times> 'a scheduler_scheme"
  pl_NotifyProcessor :: "u64 \<Rightarrow> 'a scheduler_scheme \<Rightarrow> (bool \<times> 'a scheduler_scheme) option"

text \<open>
  The state: the scheduler, the process-wide registries, the routines being removed, that is, those of the calls of
  \<^verbatim>\<open>RemoveCRoutine\<close> that have not returned, and for each busy processor the routine it runs.
\<close>

record 'a sched_sys =
  sy_sched :: "'a scheduler_scheme"
  sy_global :: global_data
  sy_pend :: "nat list"
  sy_running :: "(nat, nat) umap"

text \<open>
  The operations. A processor is named by its context, and it is busy or idle; \<open>OpFinish\<close> is the end of
  \<^verbatim>\<open>Resume\<close>, with the state and the wake time of the routine at its yield. \<open>OpDequeue\<close> is an attempt of a waiting
  removal.
\<close>

datatype sched_op =
    OpCreate int string
  | OpRemove u64
  | OpDequeue nat
  | OpNotify u64
  | OpNext "nat \<Rightarrow> int" nat
  | OpWait nat
  | OpFinish nat RoutineState int
  | OpShutdown

text \<open>
  One operation; \<open>None\<close> is an exception or an access out of range. A call that cannot go on leaves the system as it is:
  the creation of a task whose id is being removed waits at the multi-key mutex, and with every id taken by another name the search for an id
  does not end.
\<close>

definition sys_create :: "(string \<Rightarrow> u64) \<Rightarrow> 'a policy \<Rightarrow> int \<Rightarrow> string \<Rightarrow> 'a sched_sys \<Rightarrow> 'a sched_sys option" where
  "sys_create Hash pl now name y =
     (let s = sy_sched y in
      case RegisterTaskName Hash name (sy_global y) of None \<Rightarrow> Some y
      | Some (task_id, _) \<Rightarrow>
          if task_id \<in> set (map (\<lambda>c. cr_id (sc_crs s ! c)) (sy_pend y)) then Some y
          else do { (_, g, s) \<leftarrow> sc_CreateTask (pl_DispatchTask pl) Hash now name (sy_global y) s;
                    Some (y\<lparr>sy_sched := s, sy_global := g\<rparr>) })"

definition sys_remove :: "u64 \<Rightarrow> 'a sched_sys \<Rightarrow> 'a sched_sys" where
  "sys_remove crid y =
     (case unregister crid (sy_sched y) of None \<Rightarrow> y | Some (c, s) \<Rightarrow> y\<lparr>sy_sched := s, sy_pend := c # sy_pend y\<rparr>)"

definition sys_dequeue :: "'a policy \<Rightarrow> nat \<Rightarrow> 'a sched_sys \<Rightarrow> 'a sched_sys option" where
  "sys_dequeue pl c y =
     (if c \<notin> set (sy_pend y) then Some y
      else case pl_dequeue pl c (sy_sched y) of
             (Throws, _) \<Rightarrow> None
           | (Waits, s) \<Rightarrow> Some (y\<lparr>sy_sched := s\<rparr>)
           | (Returns _, s) \<Rightarrow> Some (y\<lparr>sy_sched := s, sy_pend := remove1 c (sy_pend y)\<rparr>))"

definition sys_next :: "(nat \<Rightarrow> int) \<Rightarrow> nat \<Rightarrow> 'a sched_sys \<Rightarrow> 'a sched_sys" where
  "sys_next now i y =
     (let (found, s) = pr_next now i (sy_sched y)
      in y\<lparr>sy_sched := s, sy_running := (case found of None \<Rightarrow> sy_running y | Some c \<Rightarrow> um_set i c (sy_running y))\<rparr>)"

definition sys_finish :: "nat \<Rightarrow> RoutineState \<Rightarrow> int \<Rightarrow> 'a sched_sys \<Rightarrow> 'a sched_sys" where
  "sys_finish i st t y =
     (case map_of (sy_running y) i of None \<Rightarrow> y
      | Some c \<Rightarrow> y\<lparr>sy_sched := pr_finish c st t (sy_sched y), sy_running := um_erase i (sy_running y)\<rparr>)"

definition idle :: "nat \<Rightarrow> 'a sched_sys \<Rightarrow> bool" where
  "idle i y \<longleftrightarrow> i < length (sc_pctxs (sy_sched y)) \<and> map_of (sy_running y) i = None"

fun sys_do :: "(string \<Rightarrow> u64) \<Rightarrow> 'a policy \<Rightarrow> sched_op \<Rightarrow> 'a sched_sys \<Rightarrow> 'a sched_sys option" where
  "sys_do Hash pl (OpCreate now name) y = sys_create Hash pl now name y"
| "sys_do Hash pl (OpRemove crid) y = Some (sys_remove crid y)"
| "sys_do Hash pl (OpDequeue c) y = sys_dequeue pl c y"
| "sys_do Hash pl (OpNotify crid) y =
     do { (_, s) \<leftarrow> pl_NotifyProcessor pl crid (sy_sched y); Some (y\<lparr>sy_sched := s\<rparr>) }"
| "sys_do Hash pl (OpNext now i) y = Some (if idle i y then sys_next now i y else y)"
| "sys_do Hash pl (OpWait i) y = Some (if idle i y then y\<lparr>sy_sched := pr_wait i (sy_sched y)\<rparr> else y)"
| "sys_do Hash pl (OpFinish i st t) y = Some (sys_finish i st t y)"
| "sys_do Hash pl OpShutdown y = Some (y\<lparr>sy_sched := fst (sc_Shutdown (sy_sched y))\<rparr>)"

fun sched_run :: "(string \<Rightarrow> u64) \<Rightarrow> 'a policy \<Rightarrow> sched_op list \<Rightarrow> 'a sched_sys \<Rightarrow> 'a sched_sys option" where
  "sched_run Hash pl [] y = Some y"
| "sched_run Hash pl (op # ops) y = do { y \<leftarrow> sys_do Hash pl op y; sched_run Hash pl ops y }"

definition sys_init :: "'a scheduler_scheme \<Rightarrow> global_data \<Rightarrow> 'a sched_sys" where
  "sys_init s g = \<lparr>sy_sched = s, sy_global = g, sy_pend = [], sy_running = []\<rparr>"

section \<open>Operations that keep the queues\<close>

text \<open>Besides the queues, these keep which routines are held and the settings of the policy.\<close>

definition quiet :: "'a scheduler_scheme \<Rightarrow> 'a scheduler_scheme \<Rightarrow> bool" where
  "quiet s s' \<longleftrightarrow> same_queues s s' \<and> locks (sc_crs s') = locks (sc_crs s) \<and> scheduler.more s' = scheduler.more s"

lemma quiet_refl [simp]: "quiet s s"
  by (simp add: quiet_def same_queues_def)

lemma quiet_trans: "quiet s s' \<Longrightarrow> quiet s' s'' \<Longrightarrow> quiet s s''"
  unfolding quiet_def using same_queues_trans by auto

lemma quiet_upd:
  "fixed (f (sc_crs s ! c)) = fixed (sc_crs s ! c) \<Longrightarrow> cr_lock (f (sc_crs s ! c)) = cr_lock (sc_crs s ! c) \<Longrightarrow> quiet s (upd_cr c f s)"
  by (simp add: quiet_def same_queues_upd locks_def) (simp add: upd_cr_def map_update_same)

lemma quiet_rq: "rq_cr_group rq = rq_cr_group (sc_rq s) \<Longrightarrow> quiet s (s\<lparr>sc_rq := rq\<rparr>)"
  by (simp add: quiet_def same_queues_def)

lemma quiet_context: "ch_context i s = Some cx \<Longrightarrow> hc_cr_queue cx' = hc_cr_queue cx \<Longrightarrow> quiet s (set_ch_context i cx' s)"
  using same_queues_context by (simp add: quiet_def) (simp add: set_ch_context_def)

lemma notify_routine_fields: "fixed (notify_routine cr) = fixed cr" "cr_lock (notify_routine cr) = cr_lock cr"
  by (simp_all add: notify_routine_def SetUpdateFlag_def fixed_def)

lemma quiet_notify: "quiet s (upd_cr c notify_routine s)"
  by (rule quiet_upd) (simp_all add: notify_routine_fields)

lemma quiet_cl_NotifyProcessor: "quiet s (snd (cl_NotifyProcessor crid s))"
proof -
  have "quiet s ((upd_cr c notify_routine s)\<lparr>sc_rq := cc_Notify g (sc_rq s)\<rparr>)" for c g
    by (rule quiet_trans [OF quiet_notify quiet_rq]) (simp add: cc_Notify_def upd_cr_def)
  then show ?thesis by (simp add: cl_NotifyProcessor_def split: option.split)
qed

lemma quiet_ch_NotifyProcessor:
  assumes "sched_ok pend s"
  shows "\<exists>b s'. ch_NotifyProcessor crid s = Some (b, s') \<and> quiet s s'"
proof (cases "sc_stop s \<or> map_of (sc_id_cr s) crid = None")
  case True
  then show ?thesis by (auto simp: ch_NotifyProcessor_def)
next
  case False
  then obtain c where c: "map_of (sc_id_cr s) crid = Some c" "\<not> sc_stop s" by auto
  define t where "t = upd_cr c notify_routine s"
  define pid where "pid = pid_of (sc_crs s ! c)"
  have t: "quiet s t" "sc_proc_num t = sc_proc_num s" "sc_rq t = sc_rq s" "ch_context i t = ch_context i s" for i
    using quiet_notify by (simp_all add: t_def) (simp_all add: upd_cr_def)
  show ?thesis
  proof (cases "pid < sc_proc_num s")
    case True
    then have "unat pid < unat (sc_proc_num s)" by (simp add: word_less_nat_alt)
    then obtain cx where cx: "ch_context (unat pid) s = Some cx" using ok_context [OF assms] by blast
    then have "quiet t (set_ch_context (unat pid) (hc_Notify cx) t)" by (intro quiet_context) (simp_all add: t(4) hc_Notify_def)
    then show ?thesis using c True cx t quiet_trans by (auto simp: ch_NotifyProcessor_def Let_def t_def [symmetric] pid_def [symmetric])
  next
    case False
    have "quiet t (t\<lparr>sc_rq := cc_Notify (cr_group_name (sc_crs s ! c)) (sc_rq t)\<rparr>)" by (rule quiet_rq) (simp add: cc_Notify_def)
    then show ?thesis using c False t quiet_trans by (auto simp: ch_NotifyProcessor_def Let_def t_def [symmetric] pid_def [symmetric])
  qed
qed

lemma context_of_choreography: "i < length (sc_pctxs s) \<Longrightarrow> sc_pctxs s ! i = Choreography cx \<Longrightarrow> ch_context i s = Some cx"
  by (simp add: ch_context_def)

lemma quiet_wait: "i < length (sc_pctxs s) \<Longrightarrow> quiet s (pr_wait i s)"
  by (auto simp: pr_wait_def cc_Wait_def Let_def hc_Wait_def intro!: quiet_rq quiet_context context_of_choreography split: processor_context.split)

lemma quiet_shutdown_context: "i < length (sc_pctxs s) \<Longrightarrow> quiet s (pctx_Shutdown i s) \<and> length (sc_pctxs (pctx_Shutdown i s)) = length (sc_pctxs s)"
  by (auto simp: pctx_Shutdown_def cc_Shutdown_def Let_def hc_Shutdown_def set_ch_context_def quiet_def same_queues_def ch_context_def nth_list_update
      split: processor_context.splits if_splits)

lemma quiet_Shutdown: "quiet s (fst (sc_Shutdown s)) \<and> length (sc_pctxs (fst (sc_Shutdown s))) = length (sc_pctxs s)"
proof -
  have fold: "quiet s (fold pctx_Shutdown is s) \<and> length (sc_pctxs (fold pctx_Shutdown is s)) = length (sc_pctxs s)"
    if "\<forall>i\<in>set is. i < length (sc_pctxs s)" for "is" and s :: "'a scheduler_scheme"
    using that
  proof (induction "is" arbitrary: s)
    case (Cons i js)
    then show ?case using quiet_shutdown_context [of i s] Cons.IH [of "pctx_Shutdown i s"]
      quiet_trans [of s "pctx_Shutdown i s" "fold pctx_Shutdown js (pctx_Shutdown i s)"] by auto
  qed simp
  have "quiet s (s\<lparr>sc_stop := True\<rparr>)" by (simp add: quiet_def same_queues_def ch_context_def)
  then show ?thesis using fold [of "[0..<length (sc_pctxs s)]" "s\<lparr>sc_stop := True\<rparr>"] quiet_trans by (auto simp: sc_Shutdown_def Let_def)
qed

section \<open>The routine a processor takes\<close>

text \<open>The queue of a context, in the order in which it is searched.\<close>

definition context_queue :: "nat \<Rightarrow> 'a scheduler_scheme \<Rightarrow> nat list" where
  "context_queue i s =
     (case sc_pctxs s ! i of Classic cx \<Rightarrow> group_queue (cc_current_grp cx) (sc_rq s) | Choreography cx \<Rightarrow> map snd (hc_cr_queue cx))"

definition context_stopped :: "nat \<Rightarrow> 'a scheduler_scheme \<Rightarrow> bool" where
  "context_stopped i s = (case sc_pctxs s ! i of Classic cx \<Rightarrow> cc_stop cx | Choreography cx \<Rightarrow> hc_stop cx)"

text \<open>Whether a routine is one that context \<open>i\<close> is there for.\<close>

definition serves :: "nat \<Rightarrow> 'a scheduler_scheme \<Rightarrow> nat \<Rightarrow> bool" where
  "serves i s c =
     (case (sc_pctxs s ! i, home_of s (sc_crs s ! c)) of
        (Classic cx, Pool grp _) \<Rightarrow> grp = cc_current_grp cx
      | (Choreography _, Proc j) \<Rightarrow> j = i
      | _ \<Rightarrow> False)"

lemma group_queue_levels:
  assumes "parts_ok s"
  shows "group_queue grp (sc_rq s) = concat (map (\<lambda>p. queue_of s (Pool grp p)) (rev [0..<MAX_PRIO]))"
proof -
  define qs where "qs = um_at empty_queue grp (rq_cr_group (sc_rq s))"
  have len: "length qs = MAX_PRIO" using assms by (simp add: parts_ok_def qs_def)
  have "map (\<lambda>p. queue_of s (Pool grp p)) [0..<MAX_PRIO] = map ((!) qs) [0..<length qs]"
    by (simp add: len) (simp add: queue_of_def qs_def)
  then have "map (\<lambda>p. queue_of s (Pool grp p)) [0..<MAX_PRIO] = qs" by (simp add: map_nth)
  then show ?thesis by (simp add: group_queue_def qs_def flip: rev_map)
qed

lemma sorted_levels:
  assumes "sched_ok pend s" "sorted_wrt (>) ps"
  shows "sorted_wrt (before (sc_crs s)) (concat (map (\<lambda>p. queue_of s (Pool grp p)) ps))"
  using assms(2)
proof (induction ps)
  case (Cons p ps)
  have prio: "unat (cr_priority (sc_crs s ! c)) = r" if "c \<in> set (queue_of s (Pool grp r))" for c r
    using queued_live [OF assms(1) that] by (simp add: home_of_def split: if_splits)
  have "before (sc_crs s) c d" if "c \<in> set (queue_of s (Pool grp p))" "r \<in> set ps" "d \<in> set (queue_of s (Pool grp r))" for c d r
    using prio [OF that(1)] prio [OF that(3)] Cons.prems that(2) by (auto simp: before_def word_less_nat_alt)
  then show ?case using Cons ok_sorted [OF assms(1)] by (auto simp: sorted_wrt_append)
qed simp

lemma context_queue_sorted:
  assumes ok: "sched_ok pend s" and i: "i < length (sc_pctxs s)"
  shows "sorted_wrt (before (sc_crs s)) (context_queue i s)"
    and "set (context_queue i s) = {c \<in> live pend s. serves i s c}"
proof -
  have parts: "parts_ok s" using ok by (simp add: sched_ok_def)
  show "sorted_wrt (before (sc_crs s)) (context_queue i s)"
    and "set (context_queue i s) = {c \<in> live pend s. serves i s c}"
  proof (atomize (full), cases "sc_pctxs s ! i")
    case (Classic cx)
    have q: "context_queue i s = concat (map (\<lambda>p. queue_of s (Pool (cc_current_grp cx) p)) (rev [0..<MAX_PRIO]))"
      using group_queue_levels [OF parts] Classic by (simp add: context_queue_def)
    have level: "p < MAX_PRIO" if "c \<in> set (queue_of s (Pool g p))" for c g p
      using that by (simp add: queue_of_def split: if_splits)
    have "c \<in> set (context_queue i s) \<longleftrightarrow> c \<in> live pend s \<and> serves i s c" for c
    proof
      assume "c \<in> set (context_queue i s)"
      then show "c \<in> live pend s \<and> serves i s c" using queued_live [OF ok] Classic by (fastforce simp: q serves_def)
    next
      assume c: "c \<in> live pend s \<and> serves i s c"
      then obtain p where p: "home_of s (sc_crs s ! c) = Pool (cc_current_grp cx) p"
        using Classic by (auto simp: serves_def split: home.splits)
      then have "c \<in> set (queue_of s (Pool (cc_current_grp cx) p))" using live_queued [OF ok, of c] c by simp
      then show "c \<in> set (context_queue i s)" using level by (auto simp: q)
    qed
    moreover have "sorted_wrt (>) (rev [0..<MAX_PRIO])" by (simp add: sorted_wrt_rev)
    ultimately show "sorted_wrt (before (sc_crs s)) (context_queue i s) \<and> set (context_queue i s) = {c \<in> live pend s. serves i s c}"
      using sorted_levels [OF ok] unfolding q by blast
  next
    case (Choreography cx)
    have cx: "ch_context i s = Some cx" using i Choreography by (rule context_of_choreography)
    then have n: "i < unat (sc_proc_num s)" using parts unfolding parts_ok_def by (metis not_le_imp_less option.distinct(1))
    have q: "context_queue i s = queue_of s (Proc i)" using cx n Choreography by (simp add: context_queue_def queue_of_def)
    have "c \<in> set (queue_of s (Proc i)) \<longleftrightarrow> c \<in> live pend s \<and> serves i s c" for c
      using queued_live [OF ok, of c "Proc i"] live_queued [OF ok, of c] Choreography by (auto simp: serves_def split: home.splits)
    then show "sorted_wrt (before (sc_crs s)) (context_queue i s) \<and> set (context_queue i s) = {c \<in> live pend s. serves i s c}"
      using ok_sorted [OF ok, of "Proc i"] unfolding q by blast
  qed
qed

lemma pr_next_takes:
  assumes "sched_ok pend s" "i < length (sc_pctxs s)"
  shows "takes_first now (context_stopped i s) (context_queue i s) (sc_crs s) (fst (pr_next now i s), sc_crs (snd (pr_next now i s)))"
    and "snd (pr_next now i s) = s\<lparr>sc_crs := sc_crs (snd (pr_next now i s))\<rparr>"
proof -
  have d: "distinct (context_queue i s)" using context_queue_sorted(1) [OF assms] by (rule before_distinct)
  show "takes_first now (context_stopped i s) (context_queue i s) (sc_crs s) (fst (pr_next now i s), sc_crs (snd (pr_next now i s)))"
    using d cc_NextRoutine_takes hc_NextRoutine_takes
    by (cases "sc_pctxs s ! i") (simp_all add: pr_next_def context_queue_def context_stopped_def split_beta)
  show "snd (pr_next now i s) = s\<lparr>sc_crs := sc_crs (snd (pr_next now i s))\<rparr>" by (simp add: pr_next_def split_beta)
qed

text \<open>The reference: the live routines that the context serves, sorted by falling priority and by age.\<close>

definition rank :: "croutine list \<Rightarrow> nat \<Rightarrow> int \<times> nat" where
  "rank crs c = (- uint (cr_priority (crs ! c)), c)"

definition by_priority :: "nat list \<Rightarrow> nat \<Rightarrow> 'a scheduler_scheme \<Rightarrow> nat list" where
  "by_priority pend i s =
     sort_key (rank (sc_crs s))
       (filter (\<lambda>c. (c \<in> set pend \<or> map_of (sc_id_cr s) (cr_id (sc_crs s ! c)) = Some c) \<and> serves i s c) [0..<length (sc_crs s)])"

lemma before_rank: "before crs c d \<longleftrightarrow> rank crs c < rank crs d"
  by (auto simp: before_def rank_def word_less_alt less_prod_def' intro: word_uint_eqI)

lemma inj_rank: "inj (rank crs)"
  by (simp add: inj_def rank_def)

lemma sorted_by_rank:
  assumes "sorted_wrt (before crs) q"
  shows "sort_key (rank crs) q = q"
proof -
  have "sorted_wrt (\<lambda>c d. rank crs c \<le> rank crs d) q"
    using assms by (rule sorted_wrt_mono_rel [rotated]) (simp add: before_rank)
  then show ?thesis by (simp add: sort_key_id_if_sorted sorted_map)
qed

lemma sort_by_rank_unique:
  assumes "distinct p" "distinct q" "set p = set q"
  shows "sort_key (rank crs) p = sort_key (rank crs) q"
proof -
  have "map (rank crs) (sort_key (rank crs) p) = map (rank crs) (sort_key (rank crs) q)"
    using assms inj_rank [of crs] by (intro sorted_distinct_set_unique) (simp_all add: distinct_map inj_on_def inj_def)
  then show ?thesis using inj_rank [of crs] by (simp add: inj_map_eq_map)
qed

lemma context_queue_by_priority:
  assumes ok: "sched_ok pend s" and i: "i < length (sc_pctxs s)"
  shows "context_queue i s = by_priority pend i s"
proof -
  let ?P = "\<lambda>c. (c \<in> set pend \<or> map_of (sc_id_cr s) (cr_id (sc_crs s ! c)) = Some c) \<and> serves i s c"
  have ids: "map_of (sc_id_cr s) j = Some c \<Longrightarrow> cr_id (sc_crs s ! c) = j" for j c using ok by (simp add: sched_ok_def ids_ok_def)
  have "c \<in> live pend s \<longleftrightarrow> c \<in> set pend \<or> map_of (sc_id_cr s) (cr_id (sc_crs s ! c)) = Some c" for c
    using ids by (auto simp: live_def ran_def)
  then have set: "set (context_queue i s) = set (filter ?P [0..<length (sc_crs s)])"
    using context_queue_sorted(2) [OF ok i] ok_length [OF ok] by auto
  have sorted: "sorted_wrt (before (sc_crs s)) (context_queue i s)" by (rule context_queue_sorted(1) [OF ok i])
  have "context_queue i s = sort_key (rank (sc_crs s)) (context_queue i s)" by (simp add: sorted_by_rank [OF sorted])
  also have "\<dots> = by_priority pend i s" unfolding by_priority_def
    by (rule sort_by_rank_unique [OF before_distinct [OF sorted] _ set]) simp
  finally show ?thesis .
qed

section \<open>The invariant of the system\<close>

text \<open>A routine is held just when a processor runs it, and by one processor.\<close>

definition held_ok :: "(nat, nat) umap \<Rightarrow> bool list \<Rightarrow> bool" where
  "held_ok m ls \<longleftrightarrow> (\<forall>i c. map_of m i = Some c \<longrightarrow> c < length ls \<and> ls ! c) \<and> (\<forall>c<length ls. ls ! c \<longrightarrow> c \<in> ran (map_of m))
     \<and> inj_on (map_of m) (dom (map_of m))"

lemma held_ok_take:
  assumes "held_ok m ls" "map_of m i = None" "c < length ls" "\<not> ls ! c"
  shows "held_ok (um_set i c m) (ls[c := True])"
proof -
  have "map_of m j \<noteq> Some c" for j using assms(1,4) by (auto simp: held_ok_def)
  then show ?thesis using assms by (auto simp: held_ok_def nth_list_update inj_on_def ran_map_upd)
qed

lemma held_ok_release:
  assumes "held_ok m ls" "map_of m i = Some c"
  shows "held_ok (um_erase i m) (ls[c := False])"
proof -
  have one: "map_of m j = Some c \<Longrightarrow> j = i" for j using assms by (auto simp: held_ok_def inj_on_def dom_def)
  have "d \<in> ran (map_of (um_erase i m))" if d: "d < length ls" "ls ! d" "d \<noteq> c" for d
  proof -
    obtain j where "map_of m j = Some d" using assms(1) d(1,2) unfolding held_ok_def ran_def by blast
    moreover from this have "j \<noteq> i" using assms(2) d(3) by auto
    ultimately show ?thesis by (auto simp: ran_def)
  qed
  moreover have "d < length ls \<and> ls ! d \<and> d \<noteq> c" if "map_of (um_erase i m) j = Some d" for j d
  proof -
    have j: "map_of m j = Some d" "j \<noteq> i" using that by (auto split: if_splits)
    then show ?thesis using assms(1) one [of j] unfolding held_ok_def by blast
  qed
  moreover have "inj_on (map_of (um_erase i m)) (dom (map_of (um_erase i m)))"
  proof (rule inj_onI)
    fix j k assume "j \<in> dom (map_of (um_erase i m))" "map_of (um_erase i m) j = map_of (um_erase i m) k" "k \<in> dom (map_of (um_erase i m))"
    then have "map_of m j = map_of m k" "j \<in> dom (map_of m)" "k \<in> dom (map_of m)" by (auto simp: dom_def split: if_splits)
    then show "j = k" using assms(1) by (auto simp: held_ok_def dest: inj_onD)
  qed
  moreover have "(ls[c := False]) ! d = (ls ! d \<and> d \<noteq> c)" if "d < length ls" for d using that by (cases "c = d") auto
  ultimately show ?thesis unfolding held_ok_def length_list_update by blast
qed

lemma held_ok_new: "held_ok m ls \<Longrightarrow> held_ok m (ls @ [False])"
  by (simp add: held_ok_def nth_append) (metis less_SucI less_antisym)

definition sys_ok :: "('a scheduler_scheme \<Rightarrow> bool) \<Rightarrow> 'a sched_sys \<Rightarrow> bool" where
  "sys_ok settled y \<longleftrightarrow> settled (sy_sched y) \<and> sched_ok (sy_pend y) (sy_sched y) \<and> held_ok (sy_running y) (locks (sc_crs (sy_sched y)))"

text \<open>
  How a system goes on: routines are added at the end, and a processor runs only routines that are in the table or being removed.
\<close>

definition goes_on :: "'a sched_sys \<Rightarrow> 'a sched_sys \<Rightarrow> bool" where
  "goes_on y y' \<longleftrightarrow> length (sc_crs (sy_sched y)) \<le> length (sc_crs (sy_sched y'))
     \<and> live (sy_pend y') (sy_sched y') \<subseteq> live (sy_pend y) (sy_sched y) \<union> {length (sc_crs (sy_sched y))..}
     \<and> ran (map_of (sy_running y')) \<subseteq> ran (map_of (sy_running y)) \<union> live (sy_pend y) (sy_sched y)"

definition retired :: "nat \<Rightarrow> 'a sched_sys \<Rightarrow> bool" where
  "retired c y \<longleftrightarrow> c < length (sc_crs (sy_sched y)) \<and> c \<notin> live (sy_pend y) (sy_sched y) \<and> c \<notin> ran (map_of (sy_running y))"

lemma retired_goes_on: "retired c y \<Longrightarrow> goes_on y y' \<Longrightarrow> retired c y'"
  unfolding retired_def goes_on_def by auto

lemma goes_on_refl [simp]: "goes_on y y"
  by (simp add: goes_on_def)

lemma goes_on_same: "same_queues (sy_sched y) s \<Longrightarrow> goes_on y (y\<lparr>sy_sched := s\<rparr>)"
  using same_queuesD(6) [of "sy_sched y" s] by (simp add: goes_on_def same_queues_live)

lemma length_locks: "locks crs = locks crs' \<Longrightarrow> length crs = length crs'"
  by (metis length_map locks_def)

text \<open>
  The interface of a policy: dispatching and dequeueing keep the queues in order and do not fail, notifications leave them alone.
  \<open>settled\<close> is what the constructor of the policy provides.
\<close>

locale scheduler_policy =
  fixes pl :: "'a policy" and settled :: "'a scheduler_scheme \<Rightarrow> bool"
  assumes dispatch_law: "settled s \<Longrightarrow> sched_ok pend (s\<lparr>sc_crs := butlast (sc_crs s)\<rparr>) \<Longrightarrow> sc_crs s \<noteq> []
      \<Longrightarrow> cr_id (last (sc_crs s)) \<notin> (\<lambda>d. cr_id (sc_crs s ! d)) ` set pend
      \<Longrightarrow> dispatched pend s (pl_DispatchTask pl (length (sc_crs s) - 1) s)"
    and dequeue_law: "settled s \<Longrightarrow> sched_ok pend s \<Longrightarrow> c \<in> set pend \<Longrightarrow> dequeued c pend s (pl_dequeue pl c s)"
    and notify_law: "sched_ok pend s \<Longrightarrow> \<exists>b s'. pl_NotifyProcessor pl crid s = Some (b, s') \<and> quiet s s'"
    and settled_law: "settled s \<Longrightarrow> sc_proc_num s' = sc_proc_num s \<Longrightarrow> scheduler.more s' = scheduler.more s \<Longrightarrow> settled s'"
begin

lemma sys_ok_quiet:
  assumes y: "sys_ok settled y" and q: "quiet (sy_sched y) s"
  shows "sys_ok settled (y\<lparr>sy_sched := s\<rparr>) \<and> goes_on y (y\<lparr>sy_sched := s\<rparr>)"
proof -
  have "sc_proc_num s = sc_proc_num (sy_sched y)" using q same_queuesD(3) by (auto simp: quiet_def)
  then show ?thesis using y q settled_law [of "sy_sched y" s] sched_ok_same [of "sy_pend y" "sy_sched y" s] goes_on_same [of y s]
    by (simp add: sys_ok_def quiet_def)
qed

lemma sys_ok_create:
  assumes y: "sys_ok settled y"
  shows "\<exists>y'. sys_create Hash pl now name y = Some y' \<and> sys_ok settled y' \<and> goes_on y y'"
proof -
  let ?s = "sy_sched y"
  show ?thesis
  proof (cases "RegisterTaskName Hash name (sy_global y)")
    case None
    then show ?thesis using y by (simp add: sys_create_def)
  next
    case (Some r)
    obtain i g where r: "r = (i, g)" by (cases r)
    let ?t = "?s\<lparr>sc_crs := sc_crs ?s @ [CRoutine now i name]\<rparr>"
    show ?thesis
    proof (cases "sc_stop ?s \<or> i \<in> set (map (\<lambda>c. cr_id (sc_crs ?s ! c)) (sy_pend y))")
      case True
      then show ?thesis using y Some r by (auto simp: sys_create_def sc_CreateTask_def Let_def)
    next
      case False
      have ok: "sched_ok (sy_pend y) ?s" and settled: "settled ?s" using y by (simp_all add: sys_ok_def)
      have "settled ?t" by (rule settled_law [OF settled]) simp_all
      moreover have "sched_ok (sy_pend y) (?t\<lparr>sc_crs := butlast (sc_crs ?t)\<rparr>)" using ok by simp
      moreover have "cr_id (last (sc_crs ?t)) \<notin> (\<lambda>d. cr_id (sc_crs ?t ! d)) ` set (sy_pend y)"
      proof -
        have "d < length (sc_crs ?s)" if "d \<in> set (sy_pend y)" for d using ok_length [OF ok] that by (simp add: live_def)
        then show ?thesis using False by (auto simp: CRoutine_def nth_append)
      qed
      ultimately have "dispatched (sy_pend y) ?t (pl_DispatchTask pl (length (sc_crs ?t) - 1) ?t)" by (intro dispatch_law) simp_all
      then obtain b s' where s': "pl_DispatchTask pl (length (sc_crs ?s)) ?t = Some (b, s')" "sched_ok (sy_pend y) s'"
        "locks (sc_crs s') = locks (sc_crs ?t)" "sc_proc_num s' = sc_proc_num ?s" "scheduler.more s' = scheduler.more ?s"
        "sc_id_cr s' = (if b then um_set i (length (sc_crs ?s)) (sc_id_cr ?s) else sc_id_cr ?s)"
        by (auto simp: dispatched_def CRoutine_def)
      let ?y = "y\<lparr>sy_sched := s', sy_global := g\<rparr>"
      have "locks (sc_crs ?t) = locks (sc_crs ?s) @ [False]" by (simp add: locks_def CRoutine_def)
      then have "sys_ok settled ?y"
        using y s'(2,3) settled_law [OF settled s'(4,5)] held_ok_new [of "sy_running y" "locks (sc_crs ?s)"] by (simp add: sys_ok_def)
      moreover have "goes_on y ?y" using length_locks [OF s'(3)] s'(6) by (auto simp: goes_on_def live_def ran_def split: if_splits)
      moreover have "sys_create Hash pl now name y = Some ?y" using Some r False s'(1) by (simp add: sys_create_def sc_CreateTask_def Let_def)
      ultimately show ?thesis by simp
    qed
  qed
qed

lemma sys_ok_remove:
  assumes y: "sys_ok settled y"
  shows "sys_ok settled (sys_remove crid y) \<and> goes_on y (sys_remove crid y)"
proof (cases "unregister crid (sy_sched y)")
  case None
  then show ?thesis using y by (simp add: sys_remove_def)
next
  case (Some r)
  obtain c s where r: "r = (c, s)" by (cases r)
  have ok: "sched_ok (sy_pend y) (sy_sched y)" and settled: "settled (sy_sched y)" using y by (simp_all add: sys_ok_def)
  have "sched_ok (c # sy_pend y) s" using sched_ok_unregister [OF ok] Some r by simp
  moreover have s: "s = (upd_cr c cr_Stop (sy_sched y))\<lparr>sc_id_cr := um_erase crid (sc_id_cr (sy_sched y))\<rparr>"
    using Some r by (auto simp: unregister_def split: option.splits)
  moreover have "settled s" by (rule settled_law [OF settled]) (simp_all add: s upd_cr_def)
  moreover have "locks (sc_crs s) = locks (sc_crs (sy_sched y))" by (simp add: s upd_cr_def locks_def map_update_same)
  moreover have "map_of (sc_id_cr (sy_sched y)) crid = Some c" using Some r by (auto simp: unregister_def split: option.splits)
  then have "goes_on y (y\<lparr>sy_sched := s, sy_pend := c # sy_pend y\<rparr>)"
    by (auto simp: goes_on_def live_def s upd_cr_def ran_def split: if_splits)
  ultimately show ?thesis using y Some r by (simp add: sys_remove_def sys_ok_def)
qed

lemma sys_ok_dequeue:
  assumes y: "sys_ok settled y"
  shows "\<exists>y'. sys_dequeue pl c y = Some y' \<and> sys_ok settled y' \<and> goes_on y y'"
proof (cases "c \<in> set (sy_pend y)")
  case True
  have ok: "sched_ok (sy_pend y) (sy_sched y)" and settled: "settled (sy_sched y)" using y by (simp_all add: sys_ok_def)
  obtain r s where rs: "pl_dequeue pl c (sy_sched y) = (r, s)" by (cases "pl_dequeue pl c (sy_sched y)")
  have d: "dequeued c (sy_pend y) (sy_sched y) (r, s)" using dequeue_law [OF settled ok True] rs by simp
  then have "settled s" using settled_law [OF settled, of s] by (simp add: dequeued_def)
  moreover have "goes_on y (y\<lparr>sy_sched := s\<rparr>)" "goes_on y (y\<lparr>sy_sched := s, sy_pend := remove1 c (sy_pend y)\<rparr>)"
    using d length_locks [of "sc_crs s" "sc_crs (sy_sched y)"] set_remove1_subset [of c "sy_pend y"]
    by (auto simp: goes_on_def dequeued_def live_def)
  ultimately show ?thesis using d True y rs by (auto simp: dequeued_def sys_dequeue_def sys_ok_def split: if_splits)
qed (use y in \<open>simp add: sys_dequeue_def\<close>)

lemma sys_ok_next:
  assumes y: "sys_ok settled y" and i: "idle i y"
  shows "sys_ok settled (sys_next now i y) \<and> goes_on y (sys_next now i y)"
proof -
  let ?s = "sy_sched y"
  obtain found s where r: "pr_next now i ?s = (found, s)" by (cases "pr_next now i ?s")
  have ok: "sched_ok (sy_pend y) ?s" and settled: "settled ?s" using y by (simp_all add: sys_ok_def)
  have i': "i < length (sc_pctxs ?s)" "map_of (sy_running y) i = None" using i by (simp_all add: idle_def)
  have takes: "takes_first now (context_stopped i ?s) (context_queue i ?s) (sc_crs ?s) (found, sc_crs s)" "s = ?s\<lparr>sc_crs := sc_crs s\<rparr>"
    using pr_next_takes [OF ok i'(1), of now] r by simp_all
  have "same_queues ?s (?s\<lparr>sc_crs := sc_crs s\<rparr>)" using takes(1) by (simp add: takes_first_def same_queues_def)
  then have q: "same_queues ?s s" using takes(2) by simp
  have "settled s" by (rule settled_law [OF settled same_queuesD(3) [OF q]]) (subst takes(2), simp)
  moreover have "goes_on y (sys_next now i y)"
  proof -
    have "c \<in> live (sy_pend y) ?s" if "found = Some c" for c
    proof -
      have "find (runnable now (sc_crs ?s)) (context_queue i ?s) = Some c"
        using takes(1) that by (simp add: takes_first_def split: if_splits)
      then have "c \<in> set (context_queue i ?s)" by (auto simp: find_Some_iff)
      then show ?thesis using context_queue_sorted(2) [OF ok i'(1)] by blast
    qed
    then show ?thesis using same_queuesD(6) [OF q] same_queues_live [OF q] r
      by (auto simp: goes_on_def sys_next_def ran_def split: option.splits if_splits)
  qed
  moreover have "held_ok (case found of None \<Rightarrow> sy_running y | Some c \<Rightarrow> um_set i c (sy_running y)) (locks (sc_crs s))"
  proof (cases found)
    case None
    then show ?thesis using takes(1) y by (simp add: takes_first_def sys_ok_def)
  next
    case (Some c)
    then have "find (runnable now (sc_crs ?s)) (context_queue i ?s) = Some c"
      using takes(1) by (simp add: takes_first_def split: if_splits)
    then have "c \<in> set (context_queue i ?s)" "\<not> cr_lock (sc_crs ?s ! c)" by (auto simp: find_Some_iff runnable_def)
    moreover from this(1) have "c < length (sc_crs ?s)" using context_queue_sorted(2) [OF ok i'(1)] ok_length [OF ok] by blast
    moreover have "held_ok (sy_running y) (locks (sc_crs ?s))" using y by (simp add: sys_ok_def)
    ultimately have "held_ok (um_set i c (sy_running y)) ((locks (sc_crs ?s))[c := True])"
      using i'(2) by (intro held_ok_take) (simp_all add: locks_def)
    moreover have "locks (sc_crs s) = (locks (sc_crs ?s))[c := True]" using takes(1) Some unfolding takes_first_def by auto
    ultimately show ?thesis using Some by simp
  qed
  ultimately show ?thesis using r sched_ok_same [OF ok q] by (simp add: sys_next_def sys_ok_def)
qed

lemma sys_ok_finish:
  assumes y: "sys_ok settled y"
  shows "sys_ok settled (sys_finish i st t y) \<and> goes_on y (sys_finish i st t y)"
proof (cases "map_of (sy_running y) i")
  case None
  then show ?thesis using y by (simp add: sys_finish_def)
next
  case (Some c)
  let ?s = "sy_sched y" and ?f = "\<lambda>cr. Release (snd (Resume (\<lambda>cr. cr\<lparr>cr_state := st, cr_wake_time := t\<rparr>) cr))"
  have settled: "settled ?s" and ok: "sched_ok (sy_pend y) ?s" using y by (simp_all add: sys_ok_def)
  have fixed: "fixed (?f cr) = fixed cr" "\<not> cr_lock (?f cr)" for cr by (simp_all add: Resume_def fixed_def Release_def)
  have fin: "pr_finish c st t ?s = upd_cr c ?f ?s" by (simp add: pr_finish_def)
  have q: "same_queues ?s (pr_finish c st t ?s)" unfolding fin by (rule same_queues_upd) (rule fixed)
  have "settled (pr_finish c st t ?s)" by (rule settled_law [OF settled]) (simp_all add: fin upd_cr_def)
  moreover have "locks (sc_crs (pr_finish c st t ?s)) = (locks (sc_crs ?s))[c := False]"
    using fixed(2) by (simp add: fin upd_cr_def locks_def map_update)
  moreover have "goes_on y (sys_finish i st t y)"
    using Some same_queuesD(6) [OF q] same_queues_live [OF q] by (auto simp: goes_on_def sys_finish_def ran_def split: if_splits)
  ultimately show ?thesis using Some y sched_ok_same [OF ok q] held_ok_release [of "sy_running y" _ i c]
    by (simp add: sys_finish_def sys_ok_def)
qed

lemma sys_ok_do:
  assumes y: "sys_ok settled y"
  shows "\<exists>y'. sys_do Hash pl op y = Some y' \<and> sys_ok settled y' \<and> goes_on y y'"
proof (cases op)
  case (OpNotify crid)
  have "sched_ok (sy_pend y) (sy_sched y)" using y by (simp add: sys_ok_def)
  from notify_law [OF this] obtain b s where "pl_NotifyProcessor pl crid (sy_sched y) = Some (b, s)" "quiet (sy_sched y) s" by blast
  then show ?thesis using OpNotify sys_ok_quiet [OF y] by simp
next
  case (OpWait i)
  then show ?thesis using sys_ok_quiet [OF y quiet_wait] y by (simp add: idle_def)
next
  case OpShutdown
  then show ?thesis using sys_ok_quiet [OF y conjunct1 [OF quiet_Shutdown]] by simp
qed (use y sys_ok_create sys_ok_remove sys_ok_dequeue sys_ok_next sys_ok_finish in simp_all)

lemma sys_ok_run: "sys_ok settled y \<Longrightarrow> \<exists>y'. sched_run Hash pl ops y = Some y' \<and> sys_ok settled y'"
proof (induction ops arbitrary: y)
  case (Cons op ops)
  obtain y' where "sys_do Hash pl op y = Some y'" "sys_ok settled y'" using sys_ok_do [OF Cons.prems] by blast
  then show ?case using Cons.IH by simp
qed simp

lemma retired_run: "sys_ok settled y \<Longrightarrow> retired c y \<Longrightarrow> sched_run Hash pl ops y = Some y' \<Longrightarrow> retired c y'"
proof (induction ops arbitrary: y)
  case (Cons op ops)
  obtain z where "sys_do Hash pl op y = Some z" "sys_ok settled z" "goes_on y z" using sys_ok_do [OF Cons.prems(1)] by blast
  then show ?case using Cons retired_goes_on by auto
qed simp

lemma dequeue_retires:
  assumes y: "sys_ok settled y" and d: "c \<in> set (sy_pend y)" "sys_dequeue pl c y = Some y'" "c \<notin> set (sy_pend y')"
  shows "retired c y'"
proof -
  have ok: "sched_ok (sy_pend y) (sy_sched y)" and settled: "settled (sy_sched y)" using y by (simp_all add: sys_ok_def)
  obtain r s where rs: "pl_dequeue pl c (sy_sched y) = (r, s)" by (cases "pl_dequeue pl c (sy_sched y)")
  have q: "dequeued c (sy_pend y) (sy_sched y) (r, s)" using dequeue_law [OF settled ok d(1)] rs by simp
  have ret: "r = Returns True" "\<not> cr_lock (sc_crs (sy_sched y) ! c)"
    using q d rs by (auto simp: dequeued_def sys_dequeue_def split: if_splits)
  then have y': "y' = y\<lparr>sy_sched := s, sy_pend := remove1 c (sy_pend y)\<rparr>" using d rs by (simp add: sys_dequeue_def)
  have len: "c < length (sc_crs (sy_sched y))" using ok_length [OF ok] d(1) by (simp add: live_def)
  have "\<not> locks (sc_crs (sy_sched y)) ! c" using ret(2) len by (simp add: locks_def)
  then have "c \<notin> ran (map_of (sy_running y))" using y by (auto simp: sys_ok_def held_ok_def ran_def)
  moreover have "c \<notin> ran (map_of (sc_id_cr (sy_sched y)))" using ok d(1) by (auto simp: sched_ok_def ids_ok_def ran_def)
  moreover have "distinct (sy_pend y)" using ok by (simp add: sched_ok_def ids_ok_def)
  ultimately show ?thesis using q len length_locks [of "sc_crs s" "sc_crs (sy_sched y)"]
    by (simp add: retired_def y' live_def dequeued_def)
qed

lemma idle_takes_by_priority:
  assumes "sys_ok settled y" "idle i y"
  shows "fst (pr_next now i (sy_sched y)) =
    (if context_stopped i (sy_sched y) then None
     else find (runnable now (sc_crs (sy_sched y))) (by_priority (sy_pend y) i (sy_sched y)))"
  using assms pr_next_takes(1) [of "sy_pend y" "sy_sched y" i now] context_queue_by_priority [of "sy_pend y" "sy_sched y" i]
  by (simp add: sys_ok_def idle_def takes_first_def)

end

section \<open>The two policies\<close>

definition classic_policy :: "unit classic_scheduler_ext policy" where
  "classic_policy = \<lparr>pl_DispatchTask = cl_DispatchTask, pl_dequeue = cl_dequeue, pl_NotifyProcessor = (\<lambda>crid s. Some (cl_NotifyProcessor crid s))\<rparr>"

definition choreography_policy :: "unit choreography_scheduler_ext policy" where
  "choreography_policy = \<lparr>pl_DispatchTask = ch_DispatchTask, pl_dequeue = ch_dequeue, pl_NotifyProcessor = ch_NotifyProcessor\<rparr>"

definition classic_settled :: "classic_scheduler \<Rightarrow> bool" where
  "classic_settled s \<longleftrightarrow> sc_proc_num s = 0 \<and> cl_groups s \<noteq> []"

lemma cl_groups_more: "scheduler.more s' = scheduler.more s \<Longrightarrow> cl_groups (s' :: classic_scheduler) = cl_groups s"
  by (cases s; cases s') simp

interpretation classic: scheduler_policy classic_policy classic_settled
proof
  fix s :: classic_scheduler and pend c
  assume s: "classic_settled s" "sched_ok pend s" "c \<in> set pend"
  show "dequeued c pend s (pl_dequeue classic_policy c s)"
    using cl_dequeue_ok [OF s(2,3)] s(1) by (simp add: classic_policy_def classic_settled_def)
next
  fix s s' :: classic_scheduler
  assume "classic_settled s" "sc_proc_num s' = sc_proc_num s" "scheduler.more s' = scheduler.more s"
  then show "classic_settled s'" using cl_groups_more [of s' s] by (simp add: classic_settled_def)
next
  fix s :: classic_scheduler and crid
  show "\<exists>b s'. pl_NotifyProcessor classic_policy crid s = Some (b, s') \<and> quiet s s'"
    using quiet_cl_NotifyProcessor [of s crid] by (cases "cl_NotifyProcessor crid s") (simp add: classic_policy_def)
qed (simp add: classic_policy_def classic_settled_def cl_DispatchTask_ok [simplified])

interpretation choreography: scheduler_policy choreography_policy "\<lambda>_. True"
  by unfold_locales (simp_all add: choreography_policy_def ch_DispatchTask_ok [simplified] ch_dequeue_ok quiet_ch_NotifyProcessor)

text \<open>A scheduler before its first task.\<close>

definition blank :: "'a scheduler_scheme \<Rightarrow> bool" where
  "blank s \<longleftrightarrow> sc_crs s = [] \<and> sc_id_cr s = [] \<and> (\<forall>grp. um_at empty_queue grp (rq_cr_group (sc_rq s)) = empty_queue)
     \<and> (\<forall>i. ch_context i s = (if i < unat (sc_proc_num s) then Some ChoreographyContext else None))"

lemma blank_ok: "blank s \<Longrightarrow> sched_ok [] s"
  by (auto simp: blank_def sched_ok_def parts_ok_def queues_ok_def ids_ok_def live_def keys_ok_def ChoreographyContext_def queue_of_def empty_queue_def
      split: home.split)

lemma blank_add_contexts:
  assumes "blank s"
  shows "blank (add_contexts n grp s) \<and> sc_proc_num (add_contexts n grp s) = sc_proc_num s \<and> scheduler.more (add_contexts n grp s) = scheduler.more s"
  using assms
proof (induction n arbitrary: s)
  case (Suc n)
  have "ch_context i (s\<lparr>sc_pctxs := sc_pctxs s @ [Classic cx], sc_rq := rq\<rparr>) = ch_context i s" for i cx rq
    by (simp add: ch_context_def nth_append)
  then have "blank (s\<lparr>sc_pctxs := sc_pctxs s @ [Classic (fst (ClassicContext grp (sc_rq s)))], sc_rq := snd (ClassicContext grp (sc_rq s))\<rparr>)"
    using Suc.prems by (simp add: blank_def ClassicContext_def InitGroup_def)
  from Suc.IH [OF this] show ?case by (simp add: split_beta)
qed simp

lemma blank_groups:
  assumes "blank s"
  shows "blank (fold group_processors gs s) \<and> sc_proc_num (fold group_processors gs s) = sc_proc_num s
    \<and> scheduler.more (fold group_processors gs s) = scheduler.more s"
  using assms
proof (induction gs arbitrary: s)
  case (Cons g gs)
  let ?t = "if sc_task_pool_size s = 0 then s\<lparr>sc_task_pool_size := sg_processor_num g\<rparr> else s"
  have "ch_context i (s\<lparr>sc_task_pool_size := sg_processor_num g\<rparr>) = ch_context i s" for i by (simp add: ch_context_def)
  then have "blank ?t" using Cons.prems by (simp add: blank_def)
  moreover have "sc_proc_num ?t = sc_proc_num s" "scheduler.more ?t = scheduler.more s" by simp_all
  ultimately show ?case using blank_add_contexts [of ?t "unat (sg_processor_num g)" "sg_name g"] Cons.IH
    by (simp add: group_processors_def Let_def)
qed simp

lemma blank_SchedulerClassic:
  assumes "conf \<noteq> Some []"
  shows "blank (SchedulerClassic conf n) \<and> classic_settled (SchedulerClassic conf n)"
proof -
  define s where "s = (let s = \<lparr>sc_stop = False, sc_id_cr = [], sc_pctxs = [], sc_proc_num = 0, sc_task_pool_size = 0, sc_crs = [],
               sc_rq = \<lparr>rq_cr_group = [], rq_notify_grp = []\<rparr>, cl_cr_confs = [], cl_groups = []\<rparr>
      in case conf of Some groups \<Rightarrow> s\<lparr>cl_groups := groups, cl_cr_confs := fold group_confs groups []\<rparr>
         | None \<Rightarrow> let proc_num = (case n of Some n \<Rightarrow> n | None \<Rightarrow> 2)
             in s\<lparr>sc_task_pool_size := proc_num, cl_groups := [\<lparr>sg_name = DEFAULT_GROUP_NAME, sg_processor_num = proc_num, sg_tasks = []\<rparr>]\<rparr>)"
  have s: "SchedulerClassic conf n = cl_CreateProcessor s" by (simp add: SchedulerClassic_def s_def Let_def)
  have "blank s" "sc_proc_num s = 0" "cl_groups s \<noteq> []"
    using assms by (auto simp: s_def blank_def ch_context_def Let_def split: option.splits)
  then show ?thesis using blank_groups [of s "cl_groups s"] cl_groups_more [of "cl_CreateProcessor s" s]
    by (simp add: s cl_CreateProcessor_def classic_settled_def)
qed

lemma blank_SchedulerChoreography: "blank (SchedulerChoreography conf n)"
proof -
  have "blank (ch_CreateProcessor s)" if "sc_pctxs s = []" "sc_crs s = []" "sc_id_cr s = []" "sc_rq s = \<lparr>rq_cr_group = [], rq_notify_grp = []\<rparr>" for s
  proof -
    have "blank (s\<lparr>sc_pctxs := sc_pctxs s @ replicate (unat (sc_proc_num s)) (Choreography ChoreographyContext)\<rparr>)"
      using that by (simp add: blank_def ch_context_def)
    from blank_add_contexts [OF this] show ?thesis by (simp add: ch_CreateProcessor_def)
  qed
  then show ?thesis by (simp add: SchedulerChoreography_def Let_def split: option.split)
qed

lemma blank_sys_ok: "blank s \<Longrightarrow> settled s \<Longrightarrow> sys_ok settled (sys_init s g)"
  using blank_ok by (simp add: sys_ok_def sys_init_def held_ok_def blank_def locks_def)

text \<open>Every run from a fresh scheduler.\<close>

lemma classic_run:
  assumes "conf \<noteq> Some []"
  shows "\<exists>y. sched_run Hash classic_policy ops (sys_init (SchedulerClassic conf n) g) = Some y \<and> sys_ok classic_settled y"
  using blank_SchedulerClassic [OF assms] by (intro classic.sys_ok_run blank_sys_ok) auto

lemma choreography_run:
  "\<exists>y. sched_run Hash choreography_policy ops (sys_init (SchedulerChoreography conf n) g) = Some y \<and> sys_ok (\<lambda>_. True) y"
  using blank_SchedulerChoreography by (intro choreography.sys_ok_run blank_sys_ok) auto

section \<open>Properties\<close>

lemma sched_run_append: "sched_run Hash pl (ops @ ops') y = do { y \<leftarrow> sched_run Hash pl ops y; sched_run Hash pl ops' y }"
  by (induction ops arbitrary: y) (auto split: Option.bind_split)

text \<open>The process-wide data of a process that has just started.\<close>

definition fresh_global :: global_data where
  "fresh_global = \<lparr>gd_arena_conf = None, gd_host_ip = [], gd_host_name = [], gd_process_id = 0, gd_process_group = [], gd_component_nums = 0,
     gd_sched_name = [], gd_run_mode = MODE_REALITY, gd_clock_mode = MODE_CYBER, gd_node_id_map = AtomicHashMap 16,
     gd_channel_id_map = AtomicHashMap 16, gd_service_id_map = AtomicHashMap 16, gd_task_id_map = AtomicHashMap 16\<rparr>"

declare probe_id.simps [code]




text \<open>
  Claim C38. An idle processor takes the routine a plain sort would give: the first that can run among the live routines it
  serves, sorted by falling priority and then by age.
\<close>

theorem processor_takes_by_priority:
  assumes "sched_run Hash choreography_policy ops (sys_init (SchedulerChoreography conf n) g) = Some y" "idle i y"
  shows "fst (pr_next now i (sy_sched y)) =
    (if context_stopped i (sy_sched y) then None
     else find (runnable now (sc_crs (sy_sched y))) (by_priority (sy_pend y) i (sy_sched y)))"
  using choreography.idle_takes_by_priority [of y i now] choreography_run [of Hash ops conf n g] assms by auto

definition demo_conf :: choreography_conf where
  "demo_conf = \<lparr>hf_choreography_processor_num = 1, hf_pool_processor_num = 1,
     hf_tasks = [\<lparr>ht_name = ''a'', ht_processor = Some 0, ht_prio = 3\<rparr>, \<lparr>ht_name = ''b'', ht_processor = Some 0, ht_prio = 9\<rparr>]\<rparr>"

lemma demo_order:
  "map_option (\<lambda>y. (idle 0 y, fst (pr_next (\<lambda>_. 1) 0 (sy_sched y))))
     (sched_run (\<lambda>_. 7) choreography_policy [OpCreate 0 ''a'', OpCreate 0 ''b''] (sys_init (SchedulerChoreography (Some demo_conf) None) fresh_global))
   = Some (True, Some 1)"
  by code_simp

theorem processor_takes_by_priority_witness:
  "\<exists>y. sched_run (\<lambda>_. 7) choreography_policy [OpCreate 0 ''a'', OpCreate 0 ''b'']
        (sys_init (SchedulerChoreography (Some demo_conf) None) fresh_global) = Some y \<and> idle 0 y
      \<and> Some 1 = (if context_stopped 0 (sy_sched y) then None
          else find (runnable (\<lambda>_. 1) (sc_crs (sy_sched y))) (by_priority (sy_pend y) 0 (sy_sched y)))"
proof -
  obtain y where y: "sched_run (\<lambda>_. 7) choreography_policy [OpCreate 0 ''a'', OpCreate 0 ''b'']
      (sys_init (SchedulerChoreography (Some demo_conf) None) fresh_global) = Some y" "idle 0 y" "fst (pr_next (\<lambda>_. 1) 0 (sy_sched y)) = Some 1"
    using demo_order by (auto simp del: sched_run.simps)
  show ?thesis using processor_takes_by_priority [OF y(1,2), of "\<lambda>_. 1"] y by (auto simp del: sched_run.simps)
qed

text \<open>
  Claim C39. Once the removal of a task has returned, no processor runs its routine, and none ever will.
\<close>

theorem removed_task_never_runs:
  assumes conf: "conf \<noteq> Some []" and y: "sched_run Hash classic_policy ops (sys_init (SchedulerClassic conf n) g) = Some y" "c \<in> set (sy_pend y)"
    and y': "sched_run Hash classic_policy (ops @ [OpDequeue c]) (sys_init (SchedulerClassic conf n) g) = Some y'" "c \<notin> set (sy_pend y')"
    and z: "sched_run Hash classic_policy (ops @ OpDequeue c # later) (sys_init (SchedulerClassic conf n) g) = Some z"
  shows "map_of (sy_running z) i \<noteq> Some c"
proof -
  have ok: "sys_ok classic_settled y" "sys_ok classic_settled y'"
    using classic_run [OF conf, of Hash ops n g] classic_run [OF conf, of Hash "ops @ [OpDequeue c]" n g] y y' by auto
  have "sys_dequeue classic_policy c y = Some y'" using y y' by (auto simp: sched_run_append split: Option.bind_splits)
  from classic.dequeue_retires [OF ok(1) y(2) this y'(2)] have "retired c y'" .
  moreover have "sched_run Hash classic_policy later y' = Some z" using y(1) y'(1) z by (auto simp: sched_run_append split: Option.bind_splits)
  ultimately have "retired c z" by (rule classic.retired_run [OF ok(2)])
  then show ?thesis by (auto simp: retired_def ran_def)
qed

lemma demo_removal:
  "map_option sy_pend (sched_run (\<lambda>_. 7) classic_policy [OpCreate 0 ''a'', OpRemove 7]
     (sys_init (SchedulerClassic None None) fresh_global)) = Some [0]"
  "map_option sy_pend (sched_run (\<lambda>_. 7) classic_policy ([OpCreate 0 ''a'', OpRemove 7] @ [OpDequeue 0])
     (sys_init (SchedulerClassic None None) fresh_global)) = Some []"
  "map_option sy_pend (sched_run (\<lambda>_. 7) classic_policy ([OpCreate 0 ''a'', OpRemove 7] @ OpDequeue 0 # [OpCreate 0 ''a'', OpNext (\<lambda>_. 1) 0])
     (sys_init (SchedulerClassic None None) fresh_global)) = Some []"
  by code_simp+

theorem removed_task_never_runs_witness:
  "\<exists>z. sched_run (\<lambda>_. 7) classic_policy ([OpCreate 0 ''a'', OpRemove 7] @ OpDequeue 0 # [OpCreate 0 ''a'', OpNext (\<lambda>_. 1) 0])
      (sys_init (SchedulerClassic None None) fresh_global) = Some z \<and> map_of (sy_running z) 0 \<noteq> Some 0"
proof -
  let ?init = "sys_init (SchedulerClassic None None) fresh_global" and ?ops = "[OpCreate 0 ''a'', OpRemove 7]"
  obtain y where y: "sched_run (\<lambda>_. 7) classic_policy ?ops ?init = Some y" "sy_pend y = [0]"
    using demo_removal(1) by (auto simp del: sched_run.simps)
  obtain y' where y': "sched_run (\<lambda>_. 7) classic_policy (?ops @ [OpDequeue 0]) ?init = Some y'" "sy_pend y' = []"
    using demo_removal(2) by (auto simp del: sched_run.simps append.simps)
  obtain z where z: "sched_run (\<lambda>_. 7) classic_policy (?ops @ OpDequeue 0 # [OpCreate 0 ''a'', OpNext (\<lambda>_. 1) 0]) ?init = Some z"
    using demo_removal(3) by (auto simp del: sched_run.simps append.simps)
  have "map_of (sy_running z) 0 \<noteq> Some 0"
    by (rule removed_task_never_runs [OF _ y(1) _ y'(1) _ z]) (use y(2) y'(2) in simp_all)
  then show ?thesis using z by blast
qed

text \<open>Creating a task whose id is free, with no removal under way.\<close>

lemma cl_create:
  assumes s: "classic_settled s" "sched_ok [] s" "\<not> sc_stop s"
    and reg: "RegisterTaskName Hash name g = Some (i, g')" "map_of (sc_id_cr s) i = None"
  shows "\<exists>s'. sc_CreateTask cl_DispatchTask Hash now name g s = Some (True, g', s') \<and> classic_settled s' \<and> sched_ok [] s' \<and> \<not> sc_stop s'
    \<and> sc_id_cr s' = um_set i (length (sc_crs s)) (sc_id_cr s) \<and> map cr_name (sc_crs s') = map cr_name (sc_crs s) @ [name]
    \<and> locks (sc_crs s') = locks (sc_crs s) @ [False]"
proof -
  let ?t = "s\<lparr>sc_crs := sc_crs s @ [CRoutine now i name]\<rparr>"
  have t: "classic_settled ?t" by (rule classic.settled_law [OF s(1)]) simp_all
  have "dispatched [] ?t (cl_DispatchTask (length (sc_crs ?t) - 1) ?t)"
    using s(2) t by (intro cl_DispatchTask_ok) (simp_all add: classic_settled_def)
  then obtain s' where s': "cl_DispatchTask (length (sc_crs s)) ?t = Some (True, s')" "sched_ok [] s'"
    "sc_id_cr s' = um_set i (length (sc_crs s)) (sc_id_cr s)" "map cr_name (sc_crs s') = map cr_name (sc_crs ?t)"
    "locks (sc_crs s') = locks (sc_crs ?t)" "sc_stop s' = sc_stop s" "sc_proc_num s' = sc_proc_num ?t" "scheduler.more s' = scheduler.more ?t"
    using reg(2) by (auto simp: dispatched_def CRoutine_def)
  have "classic_settled s'" by (rule classic.settled_law [OF t s'(7,8)])
  then show ?thesis using s' s(3) reg(1) by (simp add: sc_CreateTask_def CRoutine_def locks_def)
qed

lemma stop_add_contexts [simp]: "sc_stop (add_contexts n grp s) = sc_stop s"
  by (induction n arbitrary: s) (simp_all add: split_beta)

lemma fresh_not_stopped: "\<not> sc_stop (SchedulerClassic conf n)"
proof -
  have "sc_stop (fold group_processors gs s) = sc_stop s" for gs and s :: classic_scheduler
    by (induction gs arbitrary: s) (simp_all add: group_processors_def Let_def)
  then show ?thesis by (simp add: SchedulerClassic_def cl_CreateProcessor_def Let_def split: option.split)
qed

lemma register_two:
  assumes "Hash a = Hash b" "a \<noteq> b" "gd_task_id_map g = AtomicHashMap 512"
  shows "\<exists>g1 g2. RegisterTaskName Hash a g = Some (Hash a, g1) \<and> RegisterTaskName Hash b g1 = Some (Hash a + 1, g2)"
proof -
  have ok: "ahm_ok (AtomicHashMap 512 :: id_map)" by (simp add: ahm_ok_new)
  show ?thesis using assms by (simp add: RegisterTaskName_def register_name_def probe_id_step [OF ok] ahm_Get_new
        probe_id_step [OF ahm_ok_Set [OF ok]] ahm_Get_Set [OF ok] ahm_Get_Set [OF ahm_ok_Set [OF ok]])
qed

lemma cl_remove:
  assumes "sched_ok [] s" "classic_settled s" "map_of (sc_id_cr s) crid = Some c" "\<not> locks (sc_crs s) ! c"
  shows "\<exists>s'. cl_RemoveCRoutine crid s = (Returns True, s') \<and> sc_id_cr s' = um_erase crid (sc_id_cr s)
    \<and> map cr_name (sc_crs s') = map cr_name (sc_crs s)"
proof -
  let ?t = "(upd_cr c cr_Stop s)\<lparr>sc_id_cr := um_erase crid (sc_id_cr s)\<rparr>"
  have u: "unregister crid s = Some (c, ?t)" using assms(3) by (simp add: unregister_def)
  have len: "c < length (sc_crs s)" using ok_length [OF assms(1) registered_live [OF assms(3)]] .
  have "\<not> pid_of (sc_crs ?t ! c) < sc_proc_num ?t" using assms(2) by (simp add: classic_settled_def upd_cr_def)
  from cl_dequeue_ok [OF sched_ok_unregister [OF assms(1) u] _ this]
  have d: "dequeued c [c] ?t (cl_dequeue c ?t)" by simp
  have "\<not> cr_lock (sc_crs ?t ! c)" using assms(4) len by (simp add: upd_cr_def locks_def)
  then have r: "fst (cl_dequeue c ?t) = Returns True" "sc_id_cr (snd (cl_dequeue c ?t)) = um_erase crid (sc_id_cr s)"
    "map fixed (sc_crs (snd (cl_dequeue c ?t))) = map fixed (sc_crs ?t)"
    using d by (simp_all add: dequeued_def)
  have "map cr_name crs = map (\<lambda>(_, _, _, _, n). n) (map fixed crs)" for crs by (simp add: fixed_def)
  then have "map cr_name (sc_crs (snd (cl_dequeue c ?t))) = map cr_name (sc_crs ?t)" using r(3) by metis
  also have "\<dots> = map cr_name (sc_crs s)" by (simp add: upd_cr_def map_update_same cr_Stop_def)
  finally show ?thesis using r(1,2) u by (cases "cl_dequeue c ?t") (simp add: cl_RemoveCRoutine_def)
qed



end
