(* ===== verification/Timer_Wheel.thy ===== *)
theory Timer_Wheel
  imports Cyber_Prelude
begin

text \<open>
  The timing wheel (\<^verbatim>\<open>timer/timing_wheel\<close>): a work wheel of 512 buckets that moves one bucket every
  two milliseconds and an assistant wheel of 64 buckets, one per turn of the work wheel.

  Tasks are shared objects known to the wheel by weak pointers: a task is the number of an object,
  and the store says which objects are still alive. The reference is a set of countdowns, and the
  two wheels implement it: every task fires at the tick it is due.
\<close>

section \<open>TimingWheel\<close>

definition WORK_WHEEL_SIZE :: u64 where "WORK_WHEEL_SIZE = 512"

definition ASSISTANT_WHEEL_SIZE :: u64 where "ASSISTANT_WHEEL_SIZE = 64"

definition TIMER_RESOLUTION_MS :: u64 where "TIMER_RESOLUTION_MS = 2"

definition TIMER_MAX_INTERVAL_MS :: u64 where
  "TIMER_MAX_INTERVAL_MS = WORK_WHEEL_SIZE * ASSISTANT_WHEEL_SIZE * TIMER_RESOLUTION_MS"

record timer_task =
  tt_timer_id :: u64
  tt_interval_ms :: u64
  tt_remainder_interval_ms :: u64
  tt_next_fire_duration_ms :: u64
  tt_accumulated_error_ns :: u64
  tt_last_execute_time_ns :: u64

definition TimerTask :: "u64 \<Rightarrow> timer_task" where
  "TimerTask timer_id = \<lparr>tt_timer_id = timer_id, tt_interval_ms = 0, tt_remainder_interval_ms = 0, tt_next_fire_duration_ms = 0,
     tt_accumulated_error_ns = 0, tt_last_execute_time_ns = 0\<rparr>"

type_synonym timer_bucket = "nat list"

text \<open>The wheel and the objects that its weak pointers refer to; \<open>None\<close> is an object that is gone.\<close>

record timing_wheel =
  tw_running :: bool
  tw_tick_count :: u64
  tw_work_wheel :: "timer_bucket list"
  tw_assistant_wheel :: "timer_bucket list"
  tw_current_work_wheel_index :: u64
  tw_current_assistant_wheel_index :: u64
  tw_tasks :: "nat \<Rightarrow> timer_task option"

definition TimingWheel :: "(nat \<Rightarrow> timer_task option) \<Rightarrow> timing_wheel" where
  "TimingWheel tasks = \<lparr>tw_running = False, tw_tick_count = 0, tw_work_wheel = replicate 512 [], tw_assistant_wheel = replicate 64 [],
     tw_current_work_wheel_index = 0, tw_current_assistant_wheel_index = 0, tw_tasks = tasks\<rparr>"

definition GetWorkWheelIndex :: "u64 \<Rightarrow> u64" where
  "GetWorkWheelIndex index = index AND (WORK_WHEEL_SIZE - 1)"

definition GetAssistantWheelIndex :: "u64 \<Rightarrow> u64" where
  "GetAssistantWheelIndex index = index AND (ASSISTANT_WHEEL_SIZE - 1)"

definition tw_Start :: "timing_wheel \<Rightarrow> timing_wheel" where
  "tw_Start w = (if \<not> tw_running w then w\<lparr>tw_running := True\<rparr> else w)"

definition tw_Shutdown :: "timing_wheel \<Rightarrow> timing_wheel" where
  "tw_Shutdown w = (if tw_running w then w\<lparr>tw_running := False\<rparr> else w)"

definition bucket_AddTask :: "u64 \<Rightarrow> nat \<Rightarrow> timer_bucket list \<Rightarrow> timer_bucket list" where
  "bucket_AddTask i t wheel = wheel[unat i := wheel ! unat i @ [t]]"

text \<open>\<^verbatim>\<open>Tick\<close>: the tasks whose callbacks are started, in order.\<close>

definition tw_Tick :: "timing_wheel \<Rightarrow> nat list \<times> timing_wheel" where
  "tw_Tick w =
     (let i = unat (tw_current_work_wheel_index w) in
      (filter (\<lambda>t. tw_tasks w t \<noteq> None) (tw_work_wheel w ! i), w\<lparr>tw_work_wheel := (tw_work_wheel w)[i := []]\<rparr>))"

text \<open>
  The number of ticks for a duration, the ceiling of half of it. The source divides doubles, which is
  exact below $2^{53}$.
\<close>

definition ticks_of :: "u64 \<Rightarrow> u64" where
  "ticks_of ms = of_nat ((unat ms + 1) div 2)"

text \<open>
  \<^verbatim>\<open>AddTask(task, current_work_wheel_index)\<close>; the index passed in may differ from the one the wheel has by
  now.
\<close>

definition tw_AddTask_at :: "nat \<Rightarrow> u64 \<Rightarrow> timing_wheel \<Rightarrow> timing_wheel" where
  "tw_AddTask_at t current_work_wheel_index w =
     (case tw_tasks w t of None \<Rightarrow> w
      | Some task \<Rightarrow>
          let w = (if \<not> tw_running w then tw_Start w else w);
              work_wheel_index = current_work_wheel_index + ticks_of (tt_next_fire_duration_ms task)
          in if WORK_WHEEL_SIZE \<le> work_wheel_index then
               let real_work_wheel_index = GetWorkWheelIndex work_wheel_index;
                   w = w\<lparr>tw_tasks := (tw_tasks w)(t \<mapsto> task\<lparr>tt_remainder_interval_ms := real_work_wheel_index\<rparr>)\<rparr>;
                   assistant_ticks = work_wheel_index div WORK_WHEEL_SIZE
               in if assistant_ticks = 1 \<and> real_work_wheel_index < tw_current_work_wheel_index w
                  then w\<lparr>tw_work_wheel := bucket_AddTask real_work_wheel_index t (tw_work_wheel w)\<rparr>
                  else w\<lparr>tw_assistant_wheel := bucket_AddTask
                         (GetAssistantWheelIndex (tw_current_assistant_wheel_index w + assistant_ticks)) t (tw_assistant_wheel w)\<rparr>
             else w\<lparr>tw_work_wheel := bucket_AddTask work_wheel_index t (tw_work_wheel w)\<rparr>)"

definition tw_AddTask :: "nat \<Rightarrow> timing_wheel \<Rightarrow> timing_wheel" where
  "tw_AddTask t w = tw_AddTask_at t (tw_current_work_wheel_index w) w"

definition cascade_task :: "nat \<Rightarrow> timing_wheel \<Rightarrow> timing_wheel" where
  "cascade_task t w =
     (case tw_tasks w t of None \<Rightarrow> w
      | Some task \<Rightarrow> w\<lparr>tw_work_wheel := bucket_AddTask (tt_remainder_interval_ms task) t (tw_work_wheel w)\<rparr>)"

definition tw_Cascade :: "u64 \<Rightarrow> timing_wheel \<Rightarrow> timing_wheel" where
  "tw_Cascade assistant_wheel_index w =
     (let i = unat assistant_wheel_index; w' = fold cascade_task (tw_assistant_wheel w ! i) w
      in w'\<lparr>tw_assistant_wheel := (tw_assistant_wheel w')[i := []]\<rparr>)"

text \<open>The loop of \<^verbatim>\<open>TickFunc\<close>: the part before and the part after the sleep.\<close>

definition tick_part :: "timing_wheel \<Rightarrow> nat list \<times> timing_wheel" where
  "tick_part w = (let (fired, w) = tw_Tick w in (fired, w\<lparr>tw_tick_count := tw_tick_count w + 1\<rparr>))"

definition move_part :: "timing_wheel \<Rightarrow> timing_wheel" where
  "move_part w =
     (let w = w\<lparr>tw_current_work_wheel_index := GetWorkWheelIndex (tw_current_work_wheel_index w + 1)\<rparr>
      in if tw_current_work_wheel_index w = 0 then
           let w = w\<lparr>tw_current_assistant_wheel_index := GetAssistantWheelIndex (tw_current_assistant_wheel_index w + 1)\<rparr>
           in tw_Cascade (tw_current_assistant_wheel_index w) w
         else w)"

text \<open>One round as the sleeping loop sees it: it wakes up, moves on and ticks.\<close>

definition wheel_round :: "timing_wheel \<Rightarrow> nat list \<times> timing_wheel" where
  "wheel_round w = tick_part (move_part w)"

section \<open>Indices\<close>

lemma unat_work_index: "unat (GetWorkWheelIndex i) = unat i mod 512"
proof -
  have "GetWorkWheelIndex i = take_bit 9 i" by (simp add: GetWorkWheelIndex_def WORK_WHEEL_SIZE_def take_bit_eq_mask mask_eq_exp_minus_1)
  then show ?thesis by (simp add: unat_mod_distrib take_bit_eq_mod)
qed

lemma unat_assistant_index: "unat (GetAssistantWheelIndex i) = unat i mod 64"
proof -
  have "GetAssistantWheelIndex i = take_bit 6 i" by (simp add: GetAssistantWheelIndex_def ASSISTANT_WHEEL_SIZE_def take_bit_eq_mask mask_eq_exp_minus_1)
  then show ?thesis by (simp add: unat_mod_distrib take_bit_eq_mod)
qed

section \<open>Countdowns\<close>

text \<open>
  The ticks until a bucket is reached, seen by the sleeping loop, which has already served the bucket
  it stands at.
\<close>

definition work_distance :: "nat \<Rightarrow> nat \<Rightarrow> nat" where
  "work_distance c j = (if c < j then j - c else j + 512 - c)"

definition assistant_distance :: "nat \<Rightarrow> nat \<Rightarrow> nat" where
  "assistant_distance a b = (if a < b then b - a else b + 64 - a)"

definition wheel_ok :: "timing_wheel \<Rightarrow> bool" where
  "wheel_ok w \<longleftrightarrow> length (tw_work_wheel w) = 512 \<and> length (tw_assistant_wheel w) = 64
     \<and> unat (tw_current_work_wheel_index w) < 512 \<and> unat (tw_current_assistant_wheel_index w) < 64
     \<and> (\<forall>b<64. \<forall>t\<in>set (tw_assistant_wheel w ! b). \<forall>task. tw_tasks w t = Some task \<longrightarrow> unat (tt_remainder_interval_ms task) < 512)"

text \<open>The living tasks of the wheel with the number of ticks until they fire.\<close>

definition in_work :: "timing_wheel \<Rightarrow> nat \<Rightarrow> nat \<Rightarrow> bool" where
  "in_work w t j \<longleftrightarrow> j < 512 \<and> t \<in> set (tw_work_wheel w ! j) \<and> tw_tasks w t \<noteq> None"

definition in_assistant :: "timing_wheel \<Rightarrow> nat \<Rightarrow> nat \<Rightarrow> nat \<Rightarrow> bool" where
  "in_assistant w t b j \<longleftrightarrow> b < 64 \<and> t \<in> set (tw_assistant_wheel w ! b)
     \<and> (\<exists>task. tw_tasks w t = Some task \<and> j = unat (tt_remainder_interval_ms task))"

definition countdowns :: "timing_wheel \<Rightarrow> (nat \<times> nat) set" where
  "countdowns w = (let c = unat (tw_current_work_wheel_index w); a = unat (tw_current_assistant_wheel_index w) in
     {(t, n). (\<exists>j. in_work w t j \<and> n = work_distance c j)
            \<or> (\<exists>b j. in_assistant w t b j \<and> n = assistant_distance a b * 512 + j - c)})"

lemma in_countdowns:
  "(t, n) \<in> countdowns w \<longleftrightarrow> (\<exists>j. in_work w t j \<and> n = work_distance (unat (tw_current_work_wheel_index w)) j)
     \<or> (\<exists>b j. in_assistant w t b j
              \<and> n = assistant_distance (unat (tw_current_assistant_wheel_index w)) b * 512 + j - unat (tw_current_work_wheel_index w))"
  by (simp add: countdowns_def Let_def)

lemma wheel_ok_new: "wheel_ok (TimingWheel tasks)"
  by (simp add: wheel_ok_def TimingWheel_def)

lemma in_bucket_AddTask:
  assumes "unat i < length wheel" "j < length wheel"
  shows "t \<in> set (bucket_AddTask i t' wheel ! j) \<longleftrightarrow> t \<in> set (wheel ! j) \<or> (t = t' \<and> j = unat i)"
  using assms by (auto simp: bucket_AddTask_def nth_list_update)

lemma length_bucket_AddTask [simp]: "length (bucket_AddTask i t wheel) = length wheel"
  by (simp add: bucket_AddTask_def)

text \<open>Cascading a list of tasks puts the living ones into the work wheel.\<close>

lemma cascade_frame:
  "tw_tasks (fold cascade_task ts w) = tw_tasks w \<and> tw_assistant_wheel (fold cascade_task ts w) = tw_assistant_wheel w
   \<and> tw_current_work_wheel_index (fold cascade_task ts w) = tw_current_work_wheel_index w
   \<and> tw_current_assistant_wheel_index (fold cascade_task ts w) = tw_current_assistant_wheel_index w
   \<and> length (tw_work_wheel (fold cascade_task ts w)) = length (tw_work_wheel w)"
proof (induction ts arbitrary: w)
  case (Cons t ts)
  show ?case using Cons.IH [of "cascade_task t w"] by (simp add: cascade_task_def split: option.splits)
qed simp

lemma in_work_cascade_task:
  assumes "length (tw_work_wheel w) = 512"
    and "\<And>task. tw_tasks w t' = Some task \<Longrightarrow> unat (tt_remainder_interval_ms task) < 512"
  shows "in_work (cascade_task t' w) t j
     \<longleftrightarrow> in_work w t j \<or> (t = t' \<and> (\<exists>task. tw_tasks w t' = Some task \<and> j = unat (tt_remainder_interval_ms task)))"
  using assms by (auto simp: in_work_def cascade_task_def in_bucket_AddTask split: option.splits)

lemma in_work_cascade:
  assumes "length (tw_work_wheel w) = 512"
    and "\<And>t task. t \<in> set ts \<Longrightarrow> tw_tasks w t = Some task \<Longrightarrow> unat (tt_remainder_interval_ms task) < 512"
  shows "in_work (fold cascade_task ts w) t j
     \<longleftrightarrow> in_work w t j \<or> (t \<in> set ts \<and> (\<exists>task. tw_tasks w t = Some task \<and> j = unat (tt_remainder_interval_ms task)))"
  using assms
proof (induction ts arbitrary: w)
  case (Cons t' ts)
  have fr: "tw_tasks (cascade_task t' w) = tw_tasks w" "length (tw_work_wheel (cascade_task t' w)) = 512"
    using cascade_frame [of "[t']" w] Cons.prems(1) by simp_all
  have "in_work (fold cascade_task ts (cascade_task t' w)) t j
      \<longleftrightarrow> in_work (cascade_task t' w) t j
          \<or> (t \<in> set ts \<and> (\<exists>task. tw_tasks w t = Some task \<and> j = unat (tt_remainder_interval_ms task)))"
    by (subst Cons.IH) (use Cons.prems in \<open>auto simp: fr\<close>)
  moreover have "in_work (cascade_task t' w) t j
      \<longleftrightarrow> in_work w t j \<or> (t = t' \<and> (\<exists>task. tw_tasks w t' = Some task \<and> j = unat (tt_remainder_interval_ms task)))"
    by (rule in_work_cascade_task) (use Cons.prems in auto)
  ultimately show ?case by auto
qed simp

lemma cascade_spec:
  assumes "wheel_ok w" "unat a < 64"
  shows "in_work (tw_Cascade a w) t j \<longleftrightarrow> in_work w t j \<or> in_assistant w t (unat a) j"
    and "in_assistant (tw_Cascade a w) t b j \<longleftrightarrow> in_assistant w t b j \<and> b \<noteq> unat a"
    and "wheel_ok (tw_Cascade a w)"
    and "tw_tasks (tw_Cascade a w) = tw_tasks w"
proof -
  let ?w = "fold cascade_task (tw_assistant_wheel w ! unat a) w"
  note fr = cascade_frame [of "tw_assistant_wheel w ! unat a" w]
  have "in_work (tw_Cascade a w) t j \<longleftrightarrow> in_work ?w t j"
    by (simp add: in_work_def tw_Cascade_def Let_def fr)
  also have "\<dots> \<longleftrightarrow> in_work w t j \<or> in_assistant w t (unat a) j"
    by (subst in_work_cascade) (use assms in \<open>auto simp: wheel_ok_def in_assistant_def\<close>)
  finally show "in_work (tw_Cascade a w) t j \<longleftrightarrow> in_work w t j \<or> in_assistant w t (unat a) j" .
  show "in_assistant (tw_Cascade a w) t b j \<longleftrightarrow> in_assistant w t b j \<and> b \<noteq> unat a"
    using assms by (auto simp: in_assistant_def tw_Cascade_def Let_def fr wheel_ok_def nth_list_update)
  show "wheel_ok (tw_Cascade a w)"
    using assms by (auto simp: tw_Cascade_def Let_def fr wheel_ok_def nth_list_update split: if_splits)
  show "tw_tasks (tw_Cascade a w) = tw_tasks w"
    by (simp add: tw_Cascade_def Let_def fr)
qed

text \<open>Where everything is after a round.\<close>

lemma tick_part_spec:
  assumes "wheel_ok w"
  defines "c \<equiv> unat (tw_current_work_wheel_index w)"
  shows "in_work (snd (tick_part w)) t j \<longleftrightarrow> in_work w t j \<and> j \<noteq> c"
    and "in_assistant (snd (tick_part w)) t b j \<longleftrightarrow> in_assistant w t b j"
    and "t \<in> set (fst (tick_part w)) \<longleftrightarrow> in_work w t c"
    and "wheel_ok (snd (tick_part w))"
    and "tw_tasks (snd (tick_part w)) = tw_tasks w"
    and "tw_current_work_wheel_index (snd (tick_part w)) = tw_current_work_wheel_index w"
    and "tw_current_assistant_wheel_index (snd (tick_part w)) = tw_current_assistant_wheel_index w"
  using assms by (auto simp: tick_part_def tw_Tick_def Let_def in_work_def in_assistant_def wheel_ok_def c_def nth_list_update)

lemma move_part_within:
  assumes "wheel_ok w" "unat (tw_current_work_wheel_index w) < 511"
  shows "\<exists>i. move_part w = w\<lparr>tw_current_work_wheel_index := i\<rparr> \<and> unat i = unat (tw_current_work_wheel_index w) + 1"
proof -
  let ?i = "GetWorkWheelIndex (tw_current_work_wheel_index w + 1)"
  have "unat (tw_current_work_wheel_index w + 1) = unat (tw_current_work_wheel_index w) + 1"
    using assms(2) by (simp add: unat_word_ariths)
  then have i: "unat ?i = unat (tw_current_work_wheel_index w) + 1" using assms(2) by (simp add: unat_work_index)
  then have "?i \<noteq> 0" by auto
  then show ?thesis using i by (auto simp: move_part_def Let_def)
qed

lemma move_part_turn:
  assumes "wheel_ok w" "unat (tw_current_work_wheel_index w) = 511"
  shows "\<exists>a. move_part w = tw_Cascade a (w\<lparr>tw_current_work_wheel_index := 0, tw_current_assistant_wheel_index := a\<rparr>)
     \<and> unat a = (unat (tw_current_assistant_wheel_index w) + 1) mod 64"
proof -
  let ?i = "GetWorkWheelIndex (tw_current_work_wheel_index w + 1)"
  let ?a = "GetAssistantWheelIndex (tw_current_assistant_wheel_index w + 1)"
  have "unat (tw_current_work_wheel_index w + 1) = 512" using assms(2) by (simp add: unat_word_ariths)
  then have "unat ?i = 0" by (simp add: unat_work_index)
  then have i: "?i = 0" by (simp add: unat_eq_0)
  have "unat (tw_current_assistant_wheel_index w + 1) = unat (tw_current_assistant_wheel_index w) + 1"
    using assms(1) by (simp add: unat_word_ariths wheel_ok_def)
  then have "unat ?a = (unat (tw_current_assistant_wheel_index w) + 1) mod 64" by (simp add: unat_assistant_index)
  then show ?thesis using i by (auto simp: move_part_def Let_def)
qed

lemma in_wheel_index_simps [simp]:
  "in_work (w\<lparr>tw_current_work_wheel_index := i\<rparr>) t j = in_work w t j"
  "in_work (w\<lparr>tw_current_assistant_wheel_index := a\<rparr>) t j = in_work w t j"
  "in_assistant (w\<lparr>tw_current_work_wheel_index := i\<rparr>) t b j = in_assistant w t b j"
  "in_assistant (w\<lparr>tw_current_assistant_wheel_index := a\<rparr>) t b j = in_assistant w t b j"
  by (simp_all add: in_work_def in_assistant_def)

lemma tw_Cascade_indices [simp]:
  "tw_current_work_wheel_index (tw_Cascade a w) = tw_current_work_wheel_index w"
  "tw_current_assistant_wheel_index (tw_Cascade a w) = tw_current_assistant_wheel_index w"
  by (simp_all add: tw_Cascade_def Let_def cascade_frame)

lemma move_part_spec:
  assumes ok: "wheel_ok w"
  defines "c \<equiv> unat (tw_current_work_wheel_index w)"
    and "a \<equiv> unat (tw_current_assistant_wheel_index w)"
  defines "a' \<equiv> (if c = 511 then (a + 1) mod 64 else a)"
  shows "unat (tw_current_work_wheel_index (move_part w)) = (c + 1) mod 512"
    and "unat (tw_current_assistant_wheel_index (move_part w)) = a'"
    and "in_work (move_part w) t j \<longleftrightarrow> in_work w t j \<or> (c = 511 \<and> in_assistant w t a' j)"
    and "in_assistant (move_part w) t b j \<longleftrightarrow> in_assistant w t b j \<and> \<not> (c = 511 \<and> b = a')"
    and "wheel_ok (move_part w)"
    and "tw_tasks (move_part w) = tw_tasks w"
proof -
  have c: "c < 512" using ok by (simp add: wheel_ok_def c_def)
  have "unat (tw_current_work_wheel_index (move_part w)) = (c + 1) mod 512
    \<and> unat (tw_current_assistant_wheel_index (move_part w)) = a'
    \<and> (in_work (move_part w) t j \<longleftrightarrow> in_work w t j \<or> (c = 511 \<and> in_assistant w t a' j))
    \<and> (in_assistant (move_part w) t b j \<longleftrightarrow> in_assistant w t b j \<and> \<not> (c = 511 \<and> b = a'))
    \<and> wheel_ok (move_part w) \<and> tw_tasks (move_part w) = tw_tasks w"
  proof (cases "c = 511")
    case True
    then obtain i where i: "move_part w = tw_Cascade i (w\<lparr>tw_current_work_wheel_index := 0, tw_current_assistant_wheel_index := i\<rparr>)"
      and ai: "unat i = a'" using move_part_turn [OF ok] by (auto simp: c_def a_def a'_def)
    let ?w = "w\<lparr>tw_current_work_wheel_index := 0, tw_current_assistant_wheel_index := i\<rparr>"
    have i64: "unat i < 64" using ai True by (simp add: a'_def)
    have ok': "wheel_ok ?w" using ok i64 by (simp add: wheel_ok_def)
    show ?thesis using cascade_spec [OF ok' i64] True ai by (simp add: i)
  next
    case False
    then show ?thesis using move_part_within [OF ok] ok c by (auto simp: c_def a_def a'_def wheel_ok_def)
  qed
  then show "unat (tw_current_work_wheel_index (move_part w)) = (c + 1) mod 512"
    and "unat (tw_current_assistant_wheel_index (move_part w)) = a'"
    and "in_work (move_part w) t j \<longleftrightarrow> in_work w t j \<or> (c = 511 \<and> in_assistant w t a' j)"
    and "in_assistant (move_part w) t b j \<longleftrightarrow> in_assistant w t b j \<and> \<not> (c = 511 \<and> b = a')"
    and "wheel_ok (move_part w)"
    and "tw_tasks (move_part w) = tw_tasks w" by blast+
qed

text \<open>How the distances change in a round.\<close>

lemma work_distance_one: "c < 512 \<Longrightarrow> j < 512 \<Longrightarrow> work_distance c j = 1 \<longleftrightarrow> j = (c + 1) mod 512"
  by (cases "c = 511") (auto simp: work_distance_def)

lemma work_distance_next:
  "c < 512 \<Longrightarrow> j < 512 \<Longrightarrow> j \<noteq> (c + 1) mod 512 \<Longrightarrow> work_distance c j = Suc (work_distance ((c + 1) mod 512) j)"
  by (cases "c = 511") (auto simp: work_distance_def)

lemma assistant_distance_one: "a < 64 \<Longrightarrow> b < 64 \<Longrightarrow> assistant_distance a b = 1 \<longleftrightarrow> b = (a + 1) mod 64"
  by (cases "a = 63") (auto simp: assistant_distance_def)

lemma assistant_distance_next:
  "a < 64 \<Longrightarrow> b < 64 \<Longrightarrow> b \<noteq> (a + 1) mod 64 \<Longrightarrow> assistant_distance a b = Suc (assistant_distance ((a + 1) mod 64) b)"
  by (cases "a = 63") (auto simp: assistant_distance_def)

lemma distance_pos: "c < 512 \<Longrightarrow> 0 < work_distance c j" "a < 64 \<Longrightarrow> 0 < assistant_distance a b"
  by (auto simp: work_distance_def assistant_distance_def)

lemma two_wheel_distance_one:
  assumes "c < 512" "a < 64" "b < 64"
  shows "assistant_distance a b * 512 + j - c = 1 \<longleftrightarrow> c = 511 \<and> b = (a + 1) mod 64 \<and> j = 0"
proof (cases "b = (a + 1) mod 64")
  case True
  then have "assistant_distance a b = 1" using assistant_distance_one assms by blast
  then show ?thesis using assms True by auto
next
  case False
  then have "2 \<le> assistant_distance a b"
    using assistant_distance_one [of a b] distance_pos(2) [of a b] assms by linarith
  then show ?thesis using assms False by auto
qed

lemma two_wheel_distance_next:
  assumes "c < 512" "a < 64" "b < 64" "\<not> (c = 511 \<and> b = (a + 1) mod 64)"
  shows "assistant_distance a b * 512 + j - c
    = Suc (assistant_distance (if c = 511 then (a + 1) mod 64 else a) b * 512 + j - (c + 1) mod 512)"
proof (cases "c = 511")
  case True
  then show ?thesis using assistant_distance_next [of a b] assms by auto
next
  case False
  then show ?thesis using distance_pos(2) [of a b] assms by auto
qed

lemma two_wheel_distance_pos: "c < 512 \<Longrightarrow> a < 64 \<Longrightarrow> 0 < assistant_distance a b * 512 + j - c"
  using distance_pos(2) [of a b] by (cases "assistant_distance a b") auto

lemma countdown_pos: "wheel_ok w \<Longrightarrow> (t, n) \<in> countdowns w \<Longrightarrow> 0 < n"
  by (auto simp: in_countdowns wheel_ok_def intro: distance_pos two_wheel_distance_pos)

text \<open>A round is one step of all the countdowns.\<close>

lemma round_fires:
  assumes ok: "wheel_ok w"
  shows "t \<in> set (fst (wheel_round w)) \<longleftrightarrow> (t, 1) \<in> countdowns w"
proof -
  let ?c = "unat (tw_current_work_wheel_index w)" and ?a = "unat (tw_current_assistant_wheel_index w)"
  have b: "?c < 512" "?a < 64" using ok by (simp_all add: wheel_ok_def)
  have "t \<in> set (fst (wheel_round w)) \<longleftrightarrow> in_work w t ((?c + 1) mod 512) \<or> (?c = 511 \<and> in_assistant w t ((?a + 1) mod 64) 0)"
    using tick_part_spec(3) [OF move_part_spec(5) [OF ok]] move_part_spec [OF ok] by (auto simp: wheel_round_def)
  also have "\<dots> \<longleftrightarrow> (t, 1) \<in> countdowns w"
  proof -
    have "(\<exists>j. in_work w t j \<and> 1 = work_distance ?c j) \<longleftrightarrow> in_work w t ((?c + 1) mod 512)"
      using work_distance_one [OF b(1)] by (metis in_work_def)
    moreover have "(\<exists>b j. in_assistant w t b j \<and> 1 = assistant_distance ?a b * 512 + j - ?c)
        \<longleftrightarrow> (?c = 511 \<and> in_assistant w t ((?a + 1) mod 64) 0)"
      using two_wheel_distance_one [OF b] by (metis in_assistant_def)
    ultimately show ?thesis by (simp add: in_countdowns)
  qed
  finally show ?thesis .
qed

lemma countdown_shift:
  fixes c a n :: nat
  assumes b: "c < 512" "a < 64" and n: "0 < n"
    and P: "\<And>j. P j \<Longrightarrow> j < 512" and Q: "\<And>b j. Q b j \<Longrightarrow> b < 64"
  defines "c' \<equiv> (c + 1) mod 512" and "a' \<equiv> (if c = 511 then (a + 1) mod 64 else a)"
  shows "(\<exists>j. ((P j \<or> (c = 511 \<and> Q a' j)) \<and> j \<noteq> c') \<and> n = work_distance c' j)
       \<or> (\<exists>b j. (Q b j \<and> \<not> (c = 511 \<and> b = a')) \<and> n = assistant_distance a' b * 512 + j - c')
     \<longleftrightarrow> (\<exists>j. P j \<and> Suc n = work_distance c j) \<or> (\<exists>b j. Q b j \<and> Suc n = assistant_distance a b * 512 + j - c)"
    (is "?work' \<or> ?assistant' \<longleftrightarrow> ?work \<or> ?assistant")
proof -
  have work: "Suc n = work_distance c j \<longleftrightarrow> j \<noteq> c' \<and> n = work_distance c' j" if "P j" for j
    using work_distance_one [OF b(1) P [OF that]] work_distance_next [OF b(1) P [OF that]] n by (auto simp: c'_def)
  have turn: "Suc n = assistant_distance a a' * 512 + j - c \<longleftrightarrow> j \<noteq> c' \<and> n = work_distance c' j" if "c = 511" "Q a' j" for j
    using assistant_distance_one [OF b(2) Q [OF that(2)]] that(1) n by (auto simp: a'_def c'_def work_distance_def)
  have rest: "Suc n = assistant_distance a b * 512 + j - c \<longleftrightarrow> n = assistant_distance a' b * 512 + j - c'"
    if "Q b j" "\<not> (c = 511 \<and> b = a')" for b j
    using two_wheel_distance_next [OF b Q [OF that(1)], of j] that(2) by (auto simp: a'_def c'_def)
  show ?thesis
  proof
    assume "?work' \<or> ?assistant'"
    then show "?work \<or> ?assistant" using work turn rest by blast
  next
    assume "?work \<or> ?assistant"
    then show "?work' \<or> ?assistant'" using work turn rest by blast
  qed
qed

lemma round_steps:
  assumes ok: "wheel_ok w" and n: "0 < n"
  shows "(t, n) \<in> countdowns (snd (wheel_round w)) \<longleftrightarrow> (t, Suc n) \<in> countdowns w"
proof -
  note mv = move_part_spec [OF ok] and b = ok [unfolded wheel_ok_def]
  note tk = tick_part_spec [OF mv(5)]
  show ?thesis unfolding in_countdowns wheel_round_def tk mv
    by (rule countdown_shift) (use b n in \<open>auto simp: in_work_def in_assistant_def\<close>)
qed

lemma round_ok: "wheel_ok w \<Longrightarrow> wheel_ok (snd (wheel_round w))"
  by (simp add: wheel_round_def tick_part_spec move_part_spec)

lemma round_tasks: "wheel_ok w \<Longrightarrow> tw_tasks (snd (wheel_round w)) = tw_tasks w"
  by (simp add: wheel_round_def tick_part_spec move_part_spec)

section \<open>Adding a task\<close>

text \<open>The wheel after a task went into a bucket, with the remainder noted in the task.\<close>

definition same_but :: "nat \<Rightarrow> timing_wheel \<Rightarrow> timing_wheel \<Rightarrow> bool" where
  "same_but t w w' \<longleftrightarrow> tw_current_work_wheel_index w' = tw_current_work_wheel_index w
     \<and> tw_current_assistant_wheel_index w' = tw_current_assistant_wheel_index w
     \<and> (\<forall>x. x \<noteq> t \<longrightarrow> tw_tasks w' x = tw_tasks w x) \<and> tw_tasks w' t \<noteq> None"

lemma put_in_work:
  assumes "wheel_ok w" "same_but t w w'" "unat i < 512" "\<And>n. (t, n) \<notin> countdowns w" "tw_tasks w t \<noteq> None"
    and "tw_work_wheel w' = bucket_AddTask i t (tw_work_wheel w)" "tw_assistant_wheel w' = tw_assistant_wheel w"
  shows "countdowns w' = insert (t, work_distance (unat (tw_current_work_wheel_index w)) (unat i)) (countdowns w)"
proof -
  have "\<not> in_assistant w t b j" for b j using assms(4) by (auto simp: in_countdowns)
  then have no: "b < 64 \<Longrightarrow> t \<notin> set (tw_assistant_wheel w ! b)" for b using assms(5) by (auto simp: in_assistant_def)
  have l: "length (tw_work_wheel w) = 512" using assms(1) by (simp add: wheel_ok_def)
  have "in_work w' x j \<longleftrightarrow> in_work w x j \<or> (x = t \<and> j = unat i)" for x j
    using assms(2,3,5,6) by (cases "x = t") (auto simp: in_work_def same_but_def in_bucket_AddTask l)
  moreover have "in_assistant w' x b j \<longleftrightarrow> in_assistant w x b j" for x b j
  proof (cases "x = t")
    case True
    then show ?thesis using no [of b] assms(5,7) by (auto simp: in_assistant_def)
  qed (use assms(2,7) in \<open>auto simp: in_assistant_def same_but_def\<close>)
  ultimately have "(x, n) \<in> countdowns w' \<longleftrightarrow> (x, n) \<in> insert (t, work_distance (unat (tw_current_work_wheel_index w)) (unat i)) (countdowns w)" for x n
    using assms(2) by (simp add: in_countdowns same_but_def) blast
  then show ?thesis by auto
qed

lemma put_in_assistant:
  assumes "wheel_ok w" "same_but t w w'" "unat i < 64" "\<And>n. (t, n) \<notin> countdowns w" "tw_tasks w t \<noteq> None"
    and "tw_tasks w' t = Some task" "tw_work_wheel w' = tw_work_wheel w"
    and "tw_assistant_wheel w' = bucket_AddTask i t (tw_assistant_wheel w)"
  shows "countdowns w' = insert (t, assistant_distance (unat (tw_current_assistant_wheel_index w)) (unat i) * 512
      + unat (tt_remainder_interval_ms task) - unat (tw_current_work_wheel_index w)) (countdowns w)"
proof -
  have "\<not> in_assistant w t b j" for b j using assms(4) by (auto simp: in_countdowns)
  then have no: "b < 64 \<Longrightarrow> t \<notin> set (tw_assistant_wheel w ! b)" for b using assms(5) by (auto simp: in_assistant_def)
  have l: "length (tw_assistant_wheel w) = 64" using assms(1) by (simp add: wheel_ok_def)
  have "in_work w' x j \<longleftrightarrow> in_work w x j" for x j
    using assms(2,5,7) by (cases "x = t") (auto simp: in_work_def same_but_def)
  moreover have "in_assistant w' x b j \<longleftrightarrow> in_assistant w x b j \<or> (x = t \<and> b = unat i \<and> j = unat (tt_remainder_interval_ms task))" for x b j
  proof (cases "x = t")
    case True
    then show ?thesis using no [of b] assms(3,5,6,8) by (auto simp: in_assistant_def in_bucket_AddTask l)
  next
    case False
    then show ?thesis using assms(2,3,8) by (auto simp: in_assistant_def same_but_def in_bucket_AddTask l)
  qed
  ultimately have "(x, n) \<in> countdowns w' \<longleftrightarrow> (x, n) \<in> insert (t, assistant_distance (unat (tw_current_assistant_wheel_index w)) (unat i) * 512
      + unat (tt_remainder_interval_ms task) - unat (tw_current_work_wheel_index w)) (countdowns w)" for x n
    using assms(2) by (simp add: in_countdowns same_but_def) blast
  then show ?thesis by auto
qed

lemma ticks_of_unat: "unat (ticks_of ms) = (unat ms + 1) div 2"
proof -
  have "unat ms + 1 < 18446744073709551616 * 2" using unat_lt_u64 [of ms] by linarith
  then have "(unat ms + 1) div 2 < 18446744073709551616" by (rule less_mult_imp_div_less)
  then show ?thesis by (simp add: ticks_of_def unat_of_nat)
qed

text \<open>The bucket chosen for an index, which may be stale.\<close>

definition add_distance :: "nat \<Rightarrow> nat \<Rightarrow> nat \<Rightarrow> nat" where
  "add_distance c a i =
     (if i < 512 then work_distance c i
      else if i div 512 = 1 \<and> i mod 512 < c then work_distance c (i mod 512)
      else assistant_distance a ((a + i div 512) mod 64) * 512 + i mod 512 - c)"

lemma tw_Start_simps [simp]:
  "tw_work_wheel (tw_Start w) = tw_work_wheel w" "tw_assistant_wheel (tw_Start w) = tw_assistant_wheel w"
  "tw_current_work_wheel_index (tw_Start w) = tw_current_work_wheel_index w"
  "tw_current_assistant_wheel_index (tw_Start w) = tw_current_assistant_wheel_index w"
  "tw_tasks (tw_Start w) = tw_tasks w"
  by (simp_all add: tw_Start_def)

lemma AddTask_at_countdowns:
  assumes ok: "wheel_ok w" and t: "tw_tasks w t = Some task" and fresh: "\<And>n. (t, n) \<notin> countdowns w"
    and i: "unat i + (unat (tt_next_fire_duration_ms task) + 1) div 2 < 2 ^ 63"
  shows "countdowns (tw_AddTask_at t i w) = insert (t, add_distance (unat (tw_current_work_wheel_index w))
      (unat (tw_current_assistant_wheel_index w)) (unat i + (unat (tt_next_fire_duration_ms task) + 1) div 2)) (countdowns w)"
proof -
  define x where "x = i + ticks_of (tt_next_fire_duration_ms task)"
  define w0 where "w0 = (if \<not> tw_running w then tw_Start w else w)"
  have x: "unat x = unat i + (unat (tt_next_fire_duration_ms task) + 1) div 2"
    using i by (simp add: x_def unat_word_ariths ticks_of_unat)
  have w0: "tw_work_wheel w0 = tw_work_wheel w" "tw_assistant_wheel w0 = tw_assistant_wheel w" "tw_tasks w0 = tw_tasks w"
    "tw_current_work_wheel_index w0 = tw_current_work_wheel_index w" "tw_current_assistant_wheel_index w0 = tw_current_assistant_wheel_index w"
    by (simp_all add: w0_def)
  have small: "unat x < 512 \<longleftrightarrow> \<not> WORK_WHEEL_SIZE \<le> x" by (auto simp: WORK_WHEEL_SIZE_def word_le_nat_alt)
  have div: "unat (x div WORK_WHEEL_SIZE) = unat x div 512" by (simp add: WORK_WHEEL_SIZE_def unat_div_distrib)
  then have one: "x div WORK_WHEEL_SIZE = 1 \<longleftrightarrow> unat x div 512 = 1" by (metis unat_1 unsigned_word_eqI)
  have less: "GetWorkWheelIndex x < tw_current_work_wheel_index w \<longleftrightarrow> unat x mod 512 < unat (tw_current_work_wheel_index w)"
    by (simp add: word_less_nat_alt unat_work_index)
  have asst: "unat (GetAssistantWheelIndex (tw_current_assistant_wheel_index w + x div WORK_WHEEL_SIZE))
      = (unat (tw_current_assistant_wheel_index w) + unat x div 512) mod 64"
  proof -
    have "unat (tw_current_assistant_wheel_index w + x div WORK_WHEEL_SIZE) = unat (tw_current_assistant_wheel_index w) + unat x div 512"
    proof -
      have "unat (tw_current_assistant_wheel_index w) < 64" using ok by (simp add: wheel_ok_def)
      moreover have "unat x div 512 < 2 ^ 63" using i unfolding x [symmetric] by (rule le_less_trans [OF div_le_dividend])
      ultimately show ?thesis using unat_add_u64 [of "tw_current_assistant_wheel_index w" "x div WORK_WHEEL_SIZE"] div by simp
    qed
    then show ?thesis by (simp add: unat_assistant_index)
  qed
  have add: "tw_AddTask_at t i w =
     (if WORK_WHEEL_SIZE \<le> x then
        let w = w0\<lparr>tw_tasks := (tw_tasks w0)(t \<mapsto> task\<lparr>tt_remainder_interval_ms := GetWorkWheelIndex x\<rparr>)\<rparr>
        in if x div WORK_WHEEL_SIZE = 1 \<and> GetWorkWheelIndex x < tw_current_work_wheel_index w
           then w\<lparr>tw_work_wheel := bucket_AddTask (GetWorkWheelIndex x) t (tw_work_wheel w)\<rparr>
           else w\<lparr>tw_assistant_wheel := bucket_AddTask
             (GetAssistantWheelIndex (tw_current_assistant_wheel_index w + x div WORK_WHEEL_SIZE)) t (tw_assistant_wheel w)\<rparr>
      else w0\<lparr>tw_work_wheel := bucket_AddTask x t (tw_work_wheel w0)\<rparr>)"
    by (simp add: tw_AddTask_at_def t x_def w0_def Let_def)
  consider (near) "unat x < 512" | (wrapped) "\<not> unat x < 512" "unat x div 512 = 1 \<and> unat x mod 512 < unat (tw_current_work_wheel_index w)"
    | (far) "\<not> unat x < 512" "\<not> (unat x div 512 = 1 \<and> unat x mod 512 < unat (tw_current_work_wheel_index w))" by blast
  then show ?thesis
  proof cases
    case near
    show ?thesis unfolding x [symmetric] add
      by (subst put_in_work [OF ok _ _ fresh]) (use near t in \<open>auto simp: small w0 same_but_def add_distance_def\<close>)
  next
    case wrapped
    show ?thesis unfolding x [symmetric] add
      by (subst put_in_work [OF ok _ _ fresh, where i = "GetWorkWheelIndex x"])
        (use wrapped t in \<open>auto simp: small w0 same_but_def add_distance_def one less unat_work_index\<close>)
  next
    case far
    show ?thesis unfolding x [symmetric] add
      by (subst put_in_assistant [OF ok _ _ fresh,
            where i = "GetAssistantWheelIndex (tw_current_assistant_wheel_index w + x div WORK_WHEEL_SIZE)"])
        (use far t in \<open>auto simp: small w0 same_but_def add_distance_def one less unat_work_index asst\<close>)
  qed
qed

lemma add_distance_fresh:
  assumes "c < 512" "a < 64" "1 \<le> k" "k \<le> 32768"
  shows "add_distance c a (c + k) = k"
proof -
  consider (near) "c + k < 512" | (wrapped) "\<not> c + k < 512" "(c + k) div 512 = 1 \<and> (c + k) mod 512 < c"
    | (far) "\<not> c + k < 512" "\<not> ((c + k) div 512 = 1 \<and> (c + k) mod 512 < c)" by blast
  then show ?thesis
  proof cases
    case near
    then show ?thesis using assms by (simp add: add_distance_def work_distance_def)
  next
    case wrapped
    then have "(c + k) mod 512 = c + k - 512" by (metis div_mult_mod_eq mult_1 add_diff_cancel_left')
    then show ?thesis using wrapped assms by (auto simp: add_distance_def work_distance_def)
  next
    case far
    let ?q = "(c + k) div 512"
    have q: "1 \<le> ?q" "?q \<le> 64" using far(1) assms by (simp_all add: div_greater_zero_iff Suc_le_eq)
    have "assistant_distance a ((a + ?q) mod 64) = ?q"
    proof (cases "a + ?q < 64")
      case True
      then show ?thesis using q by (simp add: assistant_distance_def)
    next
      case False
      then have "(a + ?q) mod 64 = a + ?q - 64" using q assms(2) by (simp add: mod_if)
      then show ?thesis using q False by (auto simp: assistant_distance_def)
    qed
    then show ?thesis using far by (auto simp: add_distance_def)
  qed
qed

lemma add_distance_stale:
  assumes "c < 512" "a < 64"
  shows "add_distance ((c + 1) mod 512) a (c + 1) = 512"
proof (cases "c = 511")
  case True
  then show ?thesis using assistant_distance_one [OF assms(2), of "(a + 1) mod 64"] by (simp add: add_distance_def)
qed (use assms in \<open>auto simp: add_distance_def work_distance_def\<close>)

text \<open>Whatever index is used, the wheel stays well formed and the other tasks keep their countdowns.\<close>

lemma AddTask_at_ok:
  assumes ok: "wheel_ok w"
  shows "wheel_ok (tw_AddTask_at t i w)"
proof (cases "tw_tasks w t")
  case (Some task)
  have "unat (GetWorkWheelIndex x) < 512" "unat (GetAssistantWheelIndex x) < 64" for x
    by (simp_all add: unat_work_index unat_assistant_index)
  then show ?thesis
    using ok Some by (auto simp: tw_AddTask_at_def Let_def wheel_ok_def in_bucket_AddTask)
qed (simp add: ok tw_AddTask_at_def)

lemma AddTask_at_others:
  assumes ok: "wheel_ok w" and x: "x \<noteq> t"
  shows "(x, n) \<in> countdowns (tw_AddTask_at t i w) \<longleftrightarrow> (x, n) \<in> countdowns w"
proof (cases "tw_tasks w t")
  case (Some task)
  have small: "unat (GetWorkWheelIndex x) < 512" "unat (GetAssistantWheelIndex x) < 64" for x
    by (simp_all add: unat_work_index unat_assistant_index)
  have i: "unat y < 512" if "\<not> WORK_WHEEL_SIZE \<le> y" for y
    using that by (simp add: WORK_WHEEL_SIZE_def word_le_nat_alt)
  have "in_work (tw_AddTask_at t i w) x j = in_work w x j" for j
    using ok Some x small i
    by (auto simp: tw_AddTask_at_def Let_def wheel_ok_def in_work_def in_bucket_AddTask)
  moreover have "in_assistant (tw_AddTask_at t i w) x b j = in_assistant w x b j" for b j
    using ok Some x small
    by (auto simp: tw_AddTask_at_def Let_def wheel_ok_def in_assistant_def in_bucket_AddTask)
  moreover have "tw_current_work_wheel_index (tw_AddTask_at t i w) = tw_current_work_wheel_index w"
      "tw_current_assistant_wheel_index (tw_AddTask_at t i w) = tw_current_assistant_wheel_index w"
    by (simp_all add: tw_AddTask_at_def Let_def Some)
  ultimately show ?thesis by (simp add: in_countdowns)
qed (simp add: tw_AddTask_at_def)

lemma AddTask_at_tasks:
  "x \<noteq> t \<Longrightarrow> tw_tasks (tw_AddTask_at t i w) x = tw_tasks w x"
  "tw_tasks (tw_AddTask_at t i w) t = None \<longleftrightarrow> tw_tasks w t = None"
  by (auto simp: tw_AddTask_at_def Let_def split: option.splits)

section \<open>Runs\<close>

text \<open>
  What happens to the wheel while its loop sleeps and wakes up: timers set the duration of their task
  and add it, tasks go away, rounds pass. A run gives the tasks fired in each round.
\<close>

datatype wheel_op = WAdd nat u64 | WDrop nat | WRound

definition set_duration :: "nat \<Rightarrow> u64 \<Rightarrow> timing_wheel \<Rightarrow> timing_wheel" where
  "set_duration t ms w = w\<lparr>tw_tasks := (tw_tasks w)(t := map_option (\<lambda>task. task\<lparr>tt_next_fire_duration_ms := ms\<rparr>) (tw_tasks w t))\<rparr>"

definition wheel_add :: "nat \<Rightarrow> u64 \<Rightarrow> timing_wheel \<Rightarrow> timing_wheel" where
  "wheel_add t ms w = tw_AddTask t (set_duration t ms w)"

definition wheel_drop :: "nat \<Rightarrow> timing_wheel \<Rightarrow> timing_wheel" where
  "wheel_drop t w = w\<lparr>tw_tasks := (tw_tasks w)(t := None)\<rparr>"

fun wheel_run :: "wheel_op list \<Rightarrow> timing_wheel \<Rightarrow> nat list list \<times> timing_wheel" where
  "wheel_run [] w = ([], w)"
| "wheel_run (WAdd t ms # ops) w = wheel_run ops (wheel_add t ms w)"
| "wheel_run (WDrop t # ops) w = wheel_run ops (wheel_drop t w)"
| "wheel_run (WRound # ops) w =
     (let run = wheel_run ops (snd (wheel_round w)) in (fst (wheel_round w) # fst run, snd run))"

fun op_task :: "wheel_op \<Rightarrow> nat option" where
  "op_task (WAdd t ms) = Some t"
| "op_task (WDrop t) = Some t"
| "op_task WRound = None"

lemma set_duration_wheels [simp]:
  "tw_work_wheel (set_duration t ms w) = tw_work_wheel w"
  "tw_assistant_wheel (set_duration t ms w) = tw_assistant_wheel w"
  "tw_current_work_wheel_index (set_duration t ms w) = tw_current_work_wheel_index w"
  "tw_current_assistant_wheel_index (set_duration t ms w) = tw_current_assistant_wheel_index w"
  by (simp_all add: set_duration_def)

lemma set_duration_countdowns [simp]: "countdowns (set_duration t ms w) = countdowns w"
proof -
  have "in_work (set_duration t ms w) x j = in_work w x j" for x j by (auto simp: in_work_def set_duration_def)
  moreover have "in_assistant (set_duration t ms w) x b j = in_assistant w x b j" for x b j
    by (auto simp: in_assistant_def set_duration_def)
  ultimately show ?thesis by (auto simp: in_countdowns)
qed

lemma set_duration_ok: "wheel_ok w \<Longrightarrow> wheel_ok (set_duration t ms w)"
  by (auto simp: wheel_ok_def set_duration_def)

lemma wheel_add_ok: "wheel_ok w \<Longrightarrow> wheel_ok (wheel_add t ms w)"
  by (simp add: wheel_add_def tw_AddTask_def AddTask_at_ok set_duration_ok)

lemma wheel_drop_ok: "wheel_ok w \<Longrightarrow> wheel_ok (wheel_drop t w)"
  by (auto simp: wheel_ok_def wheel_drop_def)

lemma wheel_add_others:
  "wheel_ok w \<Longrightarrow> x \<noteq> t \<Longrightarrow> (x, n) \<in> countdowns (wheel_add t ms w) \<longleftrightarrow> (x, n) \<in> countdowns w"
  by (simp add: wheel_add_def tw_AddTask_def AddTask_at_others set_duration_ok)

lemma wheel_drop_others: "x \<noteq> t \<Longrightarrow> (x, n) \<in> countdowns (wheel_drop t w) \<longleftrightarrow> (x, n) \<in> countdowns w"
  by (simp add: in_countdowns in_work_def in_assistant_def wheel_drop_def)

lemma wheel_add_countdown:
  assumes "wheel_ok w" "tw_tasks w t \<noteq> None" "\<And>n. (t, n) \<notin> countdowns w" "1 \<le> unat ms" "unat ms \<le> 65536"
  shows "countdowns (wheel_add t ms w) = insert (t, (unat ms + 1) div 2) (countdowns w)"
proof -
  obtain task where t: "tw_tasks (set_duration t ms w) t = Some task" "tt_next_fire_duration_ms task = ms"
    using assms(2) by (auto simp: set_duration_def)
  let ?c = "unat (tw_current_work_wheel_index w)" and ?a = "unat (tw_current_assistant_wheel_index w)"
  have b: "?c < 512" "?a < 64" using assms(1) by (simp_all add: wheel_ok_def)
  have k: "1 \<le> (unat ms + 1) div 2" "(unat ms + 1) div 2 \<le> 32768" using assms(4,5) by linarith+
  have "countdowns (wheel_add t ms w) = insert (t, add_distance ?c ?a (?c + (unat ms + 1) div 2)) (countdowns w)"
    unfolding wheel_add_def tw_AddTask_def
    by (subst AddTask_at_countdowns [OF set_duration_ok [OF assms(1)] t(1)]) (use assms(3) t(2) b k in auto)
  then show ?thesis by (simp only: add_distance_fresh [OF b k])
qed

lemma wheel_run_ok: "wheel_ok w \<Longrightarrow> wheel_ok (snd (wheel_run ops w))"
  by (induction ops w rule: wheel_run.induct)
    (simp_all add: wheel_add_ok wheel_drop_ok round_ok Let_def)

lemma fires_in_run:
  assumes "wheel_ok w" "\<And>n. (t, n) \<in> countdowns w \<longleftrightarrow> 0 < n \<and> n = k" "\<And>p. p \<in> set ops \<Longrightarrow> op_task p \<noteq> Some t"
    and "i < length (fst (wheel_run ops w))"
  shows "t \<in> set (fst (wheel_run ops w) ! i) \<longleftrightarrow> Suc i = k"
  using assms
proof (induction ops w arbitrary: i k rule: wheel_run.induct)
  case (2 x ms ops w)
  have "x \<noteq> t" using "2.prems"(3) [of "WAdd x ms"] by simp
  then show ?case using "2.IH" [of k i] "2.prems" wheel_add_others [of w t x] by (auto simp: wheel_add_ok)
next
  case (3 x ops w)
  have "x \<noteq> t" using "3.prems"(3) [of "WDrop x"] by simp
  then show ?case using "3.IH" [of k i] "3.prems" wheel_drop_others [of t x] by (auto simp: wheel_drop_ok)
next
  case (4 ops w)
  let ?w = "snd (wheel_round w)"
  have ok: "wheel_ok ?w" using "4.prems"(1) by (rule round_ok)
  have later: "(t, n) \<in> countdowns ?w \<longleftrightarrow> 0 < n \<and> n = k - 1" for n
    using round_steps [OF "4.prems"(1), of n t] countdown_pos [OF ok, of t n] "4.prems"(2) [of "Suc n"] by auto
  have run: "fst (wheel_run (WRound # ops) w) = fst (wheel_round w) # fst (wheel_run ops ?w)"
    by (simp add: split_beta Let_def)
  show ?case
  proof (cases i)
    case 0
    then show ?thesis unfolding run using round_fires [OF "4.prems"(1)] "4.prems"(2) [of 1] by auto
  next
    case (Suc i')
    have "t \<in> set (fst (wheel_run ops ?w) ! i') \<longleftrightarrow> Suc i' = k - 1"
      by (rule "4.IH" [OF ok later]) (use "4.prems"(3,4) Suc run in auto)
    then show ?thesis unfolding run Suc by auto
  qed
qed simp

text \<open>A living task that is added fires in the round its duration ends, whatever happens to the others.\<close>

lemma added_task_fires:
  assumes ok: "wheel_ok w" and t: "tw_tasks w t \<noteq> None" "\<And>n. (t, n) \<notin> countdowns w"
    and ms: "1 \<le> unat ms" "unat ms \<le> 65536" and ops: "\<And>p. p \<in> set ops \<Longrightarrow> op_task p \<noteq> Some t"
    and i: "i < length (fst (wheel_run ops (wheel_add t ms w)))"
  shows "t \<in> set (fst (wheel_run ops (wheel_add t ms w)) ! i) \<longleftrightarrow> Suc i = (unat ms + 1) div 2"
proof (rule fires_in_run [OF wheel_add_ok [OF ok] _ ops i])
  have "0 < (unat ms + 1) div 2" using ms(1) by linarith
  then show "(t, n) \<in> countdowns (wheel_add t ms w) \<longleftrightarrow> 0 < n \<and> n = (unat ms + 1) div 2" for n
    using wheel_add_countdown [OF ok t ms] t(2) by auto
qed

text \<open>A task that is gone never fires, and is not put back.\<close>

lemma dead_task_silent:
  assumes "wheel_ok w" "tw_tasks w t = None" "i < length (fst (wheel_run ops w))"
  shows "t \<notin> set (fst (wheel_run ops w) ! i)"
  using assms
proof (induction ops w arbitrary: i rule: wheel_run.induct)
  case (2 x ms ops w)
  have "tw_tasks (wheel_add x ms w) t = None"
    using "2.prems"(2) AddTask_at_tasks by (cases "x = t") (simp_all add: wheel_add_def tw_AddTask_def set_duration_def)
  then show ?case using "2.IH" "2.prems" by (simp add: wheel_add_ok)
next
  case (3 x ops w)
  then show ?case by (simp add: wheel_drop_ok) (simp add: wheel_drop_def)
next
  case (4 ops w)
  have "(t, 1) \<notin> countdowns w" using "4.prems"(2) by (auto simp: in_countdowns in_work_def in_assistant_def)
  then have "t \<notin> set (fst (wheel_round w))" using round_fires [OF "4.prems"(1)] by blast
  moreover have "t \<notin> set (fst (wheel_run ops (snd (wheel_round w))) ! j)" if "j < length (fst (wheel_run ops (snd (wheel_round w))))" for j
    using "4.IH" [OF round_ok [OF "4.prems"(1)]] round_tasks [OF "4.prems"(1)] "4.prems"(2) that by simp
  ultimately show ?case using "4.prems"(3) by (cases i) (auto simp: Let_def)
qed simp

text \<open>
  Claim C31. The index that \<^verbatim>\<open>AddTask\<close> takes is read before the bucket is chosen, without the lock of the
  index. When the wheel moves on in between, a task due at the next tick is put into the bucket that
  has just been served, and fires 512 rounds later: after 1024 milliseconds instead of two.
\<close>

theorem stale_index_delays_task:
  assumes "w = snd (wheel_run ops0 (TimingWheel tasks))" and "tw_tasks w t = Some task" and "\<And>n. (t, n) \<notin> countdowns w"
    and "tt_next_fire_duration_ms task = TIMER_RESOLUTION_MS"
  shows "(t, n) \<in> countdowns (tw_AddTask_at t (tw_current_work_wheel_index w) (snd (wheel_round w))) \<longleftrightarrow> n = 512"
proof -
  have ok: "wheel_ok w" using wheel_run_ok [OF wheel_ok_new] assms(1) by simp
  let ?w = "snd (wheel_round w)" and ?c = "unat (tw_current_work_wheel_index w)"
  have ok': "wheel_ok ?w" using ok by (rule round_ok)
  have t: "tw_tasks ?w t = Some task" using assms(2) round_tasks [OF ok] by simp
  have fresh: "(t, m) \<notin> countdowns ?w" for m
    using round_steps [OF ok, of m t] countdown_pos [OF ok', of t m] assms(3) by auto
  have c: "?c < 512" using ok by (simp add: wheel_ok_def)
  have c': "unat (tw_current_work_wheel_index ?w) = (?c + 1) mod 512"
    by (simp add: wheel_round_def tick_part_spec move_part_spec ok)
  have a: "unat (tw_current_assistant_wheel_index ?w) < 64" using ok' by (simp add: wheel_ok_def)
  have due: "unat (tt_next_fire_duration_ms task) = 2" using assms(4) by (simp add: TIMER_RESOLUTION_MS_def)
  have "countdowns (tw_AddTask_at t (tw_current_work_wheel_index w) ?w)
      = insert (t, add_distance ((?c + 1) mod 512) (unat (tw_current_assistant_wheel_index ?w)) (?c + 1)) (countdowns ?w)"
    using AddTask_at_countdowns [OF ok' t fresh, of "tw_current_work_wheel_index w"] c by (simp add: due c')
  also have "add_distance ((?c + 1) mod 512) (unat (tw_current_assistant_wheel_index ?w)) (?c + 1) = 512"
    by (rule add_distance_stale [OF c a])
  finally show ?thesis using fresh by auto
qed

lemma countdowns_new: "(t, n) \<notin> countdowns (TimingWheel tasks)"
  by (auto simp: in_countdowns in_work_def in_assistant_def TimingWheel_def)

theorem stale_index_delays_task_witness:
  "(1, 512) \<in> countdowns (tw_AddTask_at 1 0 (snd (wheel_round (TimingWheel (\<lambda>t. Some ((TimerTask 7)\<lparr>tt_next_fire_duration_ms := 2\<rparr>))))))"
proof -
  let ?tasks = "\<lambda>t :: nat. Some ((TimerTask 7)\<lparr>tt_next_fire_duration_ms := 2\<rparr>)"
  have "tw_current_work_wheel_index (TimingWheel ?tasks) = 0" "tw_tasks (TimingWheel ?tasks) = ?tasks" by (simp_all add: TimingWheel_def)
  then show ?thesis
    using stale_index_delays_task [of "TimingWheel ?tasks" "[]" ?tasks 1 "(TimerTask 7)\<lparr>tt_next_fire_duration_ms := 2\<rparr>" 512]
    by (simp add: countdowns_new TIMER_RESOLUTION_MS_def)
qed

end
