(* ===== verification/Timer_Timer.thy ===== *)
theory Timer_Timer
  imports Timer_Wheel
begin

text \<open>
  Timers (\<^verbatim>\<open>timer/timer\<close>): the object a user starts and stops, the task it puts into the timing wheel, and the
  callback of a periodic task, which measures its own delay and sets the duration to the next firing.

  A timer that is on time keeps to the grid of its first firing: the delays do not add up. Times are
  nanoseconds of the monotonic clock as 64-bit words; the two roundings to milliseconds are those of
  \<^verbatim>\<open>llround\<close> on the quotient, exact below $2^{53}$ nanoseconds.
\<close>

section \<open>Timer\<close>

record timer_option =
  to_period :: u32
  to_oneshot :: bool

record timer =
  ti_id :: u64
  ti_opt :: timer_option
  ti_task :: "nat option"
  ti_started :: bool

text \<open>The callback of a periodic task: what it does to the task, with the times it reads.\<close>

definition llround_u64 :: "u64 \<Rightarrow> u64" where
  "llround_u64 ns = of_nat ((unat ns + 500000) div 1000000)"

definition llround_int :: "int \<Rightarrow> int" where
  "llround_int ns = (if 0 \<le> ns then (ns + 500000) div 1000000 else - ((- ns + 500000) div 1000000))"

definition note_start :: "u64 \<Rightarrow> timer_task \<Rightarrow> timer_task" where
  "note_start start task =
     (if tt_last_execute_time_ns task = 0 then task
      else task\<lparr>tt_accumulated_error_ns := tt_accumulated_error_ns task
             + (start - tt_last_execute_time_ns task - tt_interval_ms task * 1000000)\<rparr>)
     \<lparr>tt_last_execute_time_ns := start\<rparr>"

definition next_duration :: "u64 \<Rightarrow> u64 \<Rightarrow> u64 \<Rightarrow> u64" where
  "next_duration interval_ms execute_time_ms accumulated_error_ns =
     (if interval_ms \<le> execute_time_ms then TIMER_RESOLUTION_MS
      else let accumulated_error_ms = llround_int (sint accumulated_error_ns)
           in if accumulated_error_ms \<le> sint (interval_ms - execute_time_ms - TIMER_RESOLUTION_MS)
              then interval_ms - execute_time_ms - of_int accumulated_error_ms
              else TIMER_RESOLUTION_MS)"

definition periodic_callback :: "u64 \<Rightarrow> u64 \<Rightarrow> timer_task \<Rightarrow> timer_task" where
  "periodic_callback start fin task =
     (let execute_time_ns = fin - start;
          execute_time_ms = llround_u64 execute_time_ns;
          task = note_start start task
      in task\<lparr>tt_next_fire_duration_ms := next_duration (tt_interval_ms task) execute_time_ms (tt_accumulated_error_ns task)\<rparr>)"

text \<open>
  The callback in the wheel: nothing when the task is gone, the update and a new \<^verbatim>\<open>AddTask\<close> for a periodic
  task, and only the user's function for a one-shot task.
\<close>

definition task_callback :: "bool \<Rightarrow> nat \<Rightarrow> u64 \<Rightarrow> u64 \<Rightarrow> timing_wheel \<Rightarrow> timing_wheel" where
  "task_callback oneshot t start fin w =
     (case tw_tasks w t of None \<Rightarrow> w
      | Some task \<Rightarrow> if oneshot then w
          else tw_AddTask t (w\<lparr>tw_tasks := (tw_tasks w)(t \<mapsto> periodic_callback start fin task)\<rparr>))"

definition ti_SetTimerOption :: "timer_option \<Rightarrow> timer \<Rightarrow> timer" where
  "ti_SetTimerOption opt ti = ti\<lparr>ti_opt := opt\<rparr>"

text \<open>\<^verbatim>\<open>InitTimerTask\<close>: \<open>t\<close> is the new object; the task that the timer held before is released.\<close>

definition release :: "nat option \<Rightarrow> timing_wheel \<Rightarrow> timing_wheel" where
  "release old w = (case old of None \<Rightarrow> w | Some t \<Rightarrow> wheel_drop t w)"

definition ti_InitTimerTask :: "nat \<Rightarrow> timer \<Rightarrow> timing_wheel \<Rightarrow> bool \<times> timer \<times> timing_wheel" where
  "ti_InitTimerTask t ti w =
     (let period = ucast (to_period (ti_opt ti)) :: u64 in
      if period = 0 then (False, ti, w)
      else if TIMER_MAX_INTERVAL_MS \<le> period then (False, ti, w)
      else let w = release (ti_task ti) w;
               task = (TimerTask (ti_id ti))\<lparr>tt_interval_ms := period, tt_next_fire_duration_ms := period\<rparr>
           in (True, ti\<lparr>ti_task := Some t\<rparr>, w\<lparr>tw_tasks := (tw_tasks w)(t \<mapsto> task)\<rparr>))"

definition ti_Start :: "bool \<Rightarrow> nat \<Rightarrow> timer \<Rightarrow> timing_wheel \<Rightarrow> timer \<times> timing_wheel" where
  "ti_Start reality_mode t ti w =
     (if \<not> reality_mode then (ti, w)
      else if ti_started ti then (ti, w)
      else let ti = ti\<lparr>ti_started := True\<rparr>; (ok, ti, w) = ti_InitTimerTask t ti w
           in if ok then (ti, tw_AddTask t w) else (ti, w))"

definition ti_Stop :: "timer \<Rightarrow> timing_wheel \<Rightarrow> timer \<times> timing_wheel" where
  "ti_Stop ti w =
     (let was = ti_started ti; ti = ti\<lparr>ti_started := False\<rparr>
      in if was \<and> ti_task ti \<noteq> None then (ti\<lparr>ti_task := None\<rparr>, release (ti_task ti) w) else (ti, w))"

definition ti_destroy :: "timer \<Rightarrow> timing_wheel \<Rightarrow> timing_wheel" where
  "ti_destroy ti w = (let (ti, w) = (if ti_task ti \<noteq> None then ti_Stop ti w else (ti, w)) in release (ti_task ti) w)"

section \<open>The duration to the next firing\<close>

lemma sint_word_of_int: "- (2 ^ 63) \<le> k \<Longrightarrow> k < 2 ^ 63 \<Longrightarrow> sint (word_of_int k :: u64) = k"
  by (simp add: signed_of_int signed_take_bit_int_eq_self)

lemma uint_word_of_int: "0 \<le> k \<Longrightarrow> k < 2 ^ 64 \<Longrightarrow> uint (word_of_int k :: u64) = k"
  by (simp add: unsigned_of_int take_bit_int_eq_self)

lemma llround_int_near: "\<bar>llround_int x * 1000000 - x\<bar> \<le> 500000"
proof (cases "0 \<le> x")
  case True
  then show ?thesis using div_mult_mod_eq [of "x + 500000" 1000000] pos_mod_bound [of 1000000 "x + 500000"] pos_mod_sign [of 1000000 "x + 500000"]
    unfolding llround_int_def by (simp only: if_True)
next
  case False
  then show ?thesis using div_mult_mod_eq [of "- x + 500000" 1000000] pos_mod_bound [of 1000000 "- x + 500000"] pos_mod_sign [of 1000000 "- x + 500000"]
    unfolding llround_int_def by (simp only: if_False)
qed

lemma sint_bounds: "- (2 ^ 63) \<le> sint (x :: u64)" "sint (x :: u64) < 2 ^ 63"
  using sint_greater_eq [of x] sint_less [of x] by simp_all

lemma llround_sint_bounds: "\<bar>llround_int (sint (x :: u64))\<bar> \<le> 2 ^ 44"
proof -
  define r where "r = llround_int (sint x)"
  have "\<bar>r * 1000000 - sint x\<bar> \<le> 500000" unfolding r_def by (rule llround_int_near)
  then have "\<bar>r\<bar> \<le> 2 ^ 44" using sint_bounds [of x] by (simp add: abs_le_iff)
  then show ?thesis by (simp add: r_def)
qed

lemma llround_u64_near:
  assumes "unat ns < 2 ^ 63"
  shows "\<bar>int (unat (llround_u64 ns)) * 1000000 - int (unat ns)\<bar> \<le> 500000"
proof -
  let ?q = "(unat ns + 500000) div 1000000"
  have "?q < 2 ^ 64" using assms by (simp add: less_mult_imp_div_less)
  then have "unat (llround_u64 ns) = ?q" by (simp add: llround_u64_def unat_of_nat)
  moreover have "?q * 1000000 + (unat ns + 500000) mod 1000000 = unat ns + 500000" by (rule div_mult_mod_eq)
  moreover have "(unat ns + 500000) mod 1000000 < 1000000" by simp
  ultimately show ?thesis by linarith
qed

lemma next_duration_int:
  assumes "unat interval < 65536"
  shows "int (unat (next_duration interval exec err))
    = (if interval \<le> exec then 2 else max 2 (int (unat interval) - int (unat exec) - llround_int (sint err)))"
proof (cases "interval \<le> exec")
  case False
  define d where "d = int (unat interval) - int (unat exec)"
  define r where "r = llround_int (sint err)"
  have lt: "unat exec < unat interval" using False by (simp add: word_le_nat_alt)
  then have d: "0 < d" "d < 65536" using assms unfolding d_def by linarith+
  have r: "\<bar>r\<bar> \<le> 2 ^ 44" unfolding r_def by (rule llround_sint_bounds)
  have diff: "interval - exec = word_of_int d" by (simp only: word_sub_wi [of interval exec] uint_nat d_def)
  have "sint (interval - exec - TIMER_RESOLUTION_MS) = d - 2"
  proof -
    have "interval - exec - TIMER_RESOLUTION_MS = word_of_int (d - 2)" by (simp add: diff TIMER_RESOLUTION_MS_def)
    then show ?thesis using sint_word_of_int [of "d - 2"] d by simp
  qed
  moreover have "int (unat (interval - exec - of_int r)) = d - r" if "r \<le> d - 2"
  proof -
    have "interval - exec - of_int r = word_of_int (d - r)" by (simp add: diff)
    moreover have "uint (word_of_int (d - r) :: u64) = d - r" by (rule uint_word_of_int) (use d r that in auto)
    ultimately show ?thesis by (simp only: uint_nat)
  qed
  ultimately show ?thesis using False by (auto simp: next_duration_def Let_def TIMER_RESOLUTION_MS_def d_def r_def)
qed (simp add: next_duration_def TIMER_RESOLUTION_MS_def)

text \<open>The callbacks of a task one after the other, each with the times at its start and its end.\<close>

fun callbacks :: "(u64 \<times> u64) list \<Rightarrow> timer_task \<Rightarrow> timer_task" where
  "callbacks [] task = task"
| "callbacks ((start, fin) # rest) task = callbacks rest (periodic_callback start fin task)"

lemma periodic_callback_fields [simp]:
  "tt_interval_ms (periodic_callback start fin task) = tt_interval_ms task"
  "tt_last_execute_time_ns (periodic_callback start fin task) = start"
  "tt_accumulated_error_ns (periodic_callback start fin task) = tt_accumulated_error_ns (note_start start task)"
  "tt_next_fire_duration_ms (periodic_callback start fin task)
     = next_duration (tt_interval_ms task) (llround_u64 (fin - start)) (tt_accumulated_error_ns (note_start start task))"
  by (simp_all add: periodic_callback_def note_start_def Let_def)

lemma callbacks_append: "callbacks (xs @ ys) task = callbacks ys (callbacks xs task)"
  by (induction xs task rule: callbacks.induct) simp_all

lemma callbacks_interval [simp]: "tt_interval_ms (callbacks se task) = tt_interval_ms task"
  by (induction se task rule: callbacks.induct) simp_all

text \<open>The accumulated error telescopes: it is the delay of the last start against the grid of the first.\<close>

lemma accumulated_error_is_delay:
  assumes "tt_last_execute_time_ns task = 0" "tt_accumulated_error_ns task = 0"
    and "se \<noteq> []" "\<And>s f. (s, f) \<in> set se \<Longrightarrow> s \<noteq> 0"
  shows "tt_last_execute_time_ns (callbacks se task) = fst (last se)
    \<and> tt_accumulated_error_ns (callbacks se task)
        = fst (last se) - fst (hd se) - of_nat (length se - 1) * (tt_interval_ms task * 1000000)"
  using assms(3,4)
proof (induction se rule: rev_nonempty_induct)
  case (single p)
  then show ?case using assms(1,2) by (cases p) (simp add: note_start_def)
next
  case (snoc p se)
  obtain s f where p: "p = (s, f)" by (cases p)
  let ?task = "callbacks se task"
  have IH: "tt_last_execute_time_ns ?task = fst (last se)"
      "tt_accumulated_error_ns ?task = fst (last se) - fst (hd se) - of_nat (length se - 1) * (tt_interval_ms task * 1000000)"
    using snoc.IH snoc.prems by auto
  have "fst (last se) \<noteq> 0" using snoc.prems [of "fst (last se)" "snd (last se)"] snoc.hyps by simp
  then have "tt_accumulated_error_ns (note_start s ?task)
      = tt_accumulated_error_ns ?task + (s - fst (last se) - tt_interval_ms task * 1000000)"
    by (simp add: note_start_def IH(1))
  also have "\<dots> = s - fst (hd se) - of_nat (length se) * (tt_interval_ms task * 1000000)"
  proof -
    obtain n where "length se = Suc n" using snoc.hyps by (cases "length se") auto
    then show ?thesis by (simp add: IH(2) algebra_simps)
  qed
  finally show ?case using snoc.hyps by (simp add: callbacks_append p hd_append)
qed

lemma sint_delay:
  fixes s s0 I :: u64
  assumes "unat s < 2 ^ 62" "unat s0 < 2 ^ 62" "n * unat I * 1000000 < 2 ^ 62"
  shows "sint (s - s0 - of_nat n * (I * 1000000)) = int (unat s) - int (unat s0) - int n * int (unat I) * 1000000"
proof -
  define k where "k = int (unat s) - int (unat s0) - int n * int (unat I) * 1000000"
  have "s - s0 - of_nat n * (I * 1000000) = word_of_int k" by (simp add: k_def)
  moreover have "a < 2 ^ 62 \<Longrightarrow> b < 2 ^ 62 \<Longrightarrow> c < 2 ^ 62 \<Longrightarrow> - (2 ^ 63) \<le> int a - int b - int c \<and> int a - int b - int c < 2 ^ 63"
    for a b c :: nat by simp
  from this [OF assms] have "- (2 ^ 63) \<le> k" "k < 2 ^ 63" unfolding k_def of_nat_mult of_nat_numeral by blast+
  then have "sint (word_of_int k :: u64) = k" by (rule sint_word_of_int)
  ultimately show ?thesis unfolding k_def [symmetric] by (simp only:)
qed



text \<open>
  Claim C29. A periodic timer does not drift. Let a fresh task have run its callback any number of times, the
  last one ending at time \<open>f\<close>. Unless the timer is behind, which is when it asks for the minimal
  duration, the duration it asks for ends on the grid that its first start laid down, to within one
  millisecond: the delays of the earlier rounds and the times the callbacks took do not add up.
\<close>

theorem periodic_timer_does_not_drift:
  assumes fresh: "tt_last_execute_time_ns task = 0" "tt_accumulated_error_ns task = 0"
    and I: "unat (tt_interval_ms task) < 65536" "length se * unat (tt_interval_ms task) * 1000000 < 2 ^ 62"
    and se: "se \<noteq> []" "last se = (s, f)" "\<And>s f. (s, f) \<in> set se \<Longrightarrow> 0 < unat s \<and> unat s < 2 ^ 62"
    and f: "s \<le> f" "unat f < 2 ^ 62"
    and D: "2 < unat (tt_next_fire_duration_ms (callbacks se task))"
  shows "\<bar>int (unat f) + int (unat (tt_next_fire_duration_ms (callbacks se task))) * 1000000
      - (int (unat (fst (hd se))) + int (length se) * int (unat (tt_interval_ms task)) * 1000000)\<bar> \<le> 1000000"
proof -
  define pre where "pre = callbacks (butlast se) task"
  have split: "callbacks se task = periodic_callback s f pre"
    using callbacks_append [of "butlast se" "[(s, f)]" task] append_butlast_last_id [OF se(1)] se(2) by (simp add: pre_def)
  have nz: "(s, f) \<in> set se \<Longrightarrow> s \<noteq> 0" for s f using se(3) [of s f] by auto
  have err: "tt_accumulated_error_ns (note_start s pre) = s - fst (hd se) - of_nat (length se - 1) * (tt_interval_ms task * 1000000)"
    using accumulated_error_is_delay [OF fresh se(1) nz] se(2) by (simp add: split)
  have s: "unat s < 2 ^ 62" "unat (fst (hd se)) < 2 ^ 62"
    using se(3) [of s f] se(3) [of "fst (hd se)" "snd (hd se)"] last_in_set [OF se(1)] hd_in_set [OF se(1)] se(2) by auto
  obtain n where n: "length se = Suc n" using se(1) by (cases "length se") auto
  have "n * unat (tt_interval_ms task) * 1000000 < 2 ^ 62" using I(2) by (simp add: n)
  then have delay: "sint (tt_accumulated_error_ns (note_start s pre))
      = int (unat s) - int (unat (fst (hd se))) - int n * int (unat (tt_interval_ms task)) * 1000000"
    using sint_delay [OF s] n by (simp only: err diff_Suc_1)
  have exec: "\<bar>int (unat (llround_u64 (f - s))) * 1000000 - (int (unat f) - int (unat s))\<bar> \<le> 500000"
  proof -
    have "unat (f - s) = unat f - unat s" using f(1) by (rule unat_sub)
    moreover have "unat s \<le> unat f" using f(1) by (simp add: word_le_nat_alt)
    ultimately show ?thesis using llround_u64_near [of "f - s"] f(2) by (simp add: of_nat_diff)
  qed
  have iv: "tt_interval_ms pre = tt_interval_ms task" by (simp add: pre_def)
  have "int (unat (tt_next_fire_duration_ms (callbacks se task))) = int (unat (tt_interval_ms task)) - int (unat (llround_u64 (f - s)))
      - llround_int (sint (tt_accumulated_error_ns (note_start s pre)))"
  proof -
    have "int (unat (tt_next_fire_duration_ms (callbacks se task))) \<noteq> 2" using D by linarith
    then show ?thesis
      using next_duration_int [OF I(1), of "llround_u64 (f - s)" "tt_accumulated_error_ns (note_start s pre)"]
      unfolding split periodic_callback_fields iv max_def by (auto simp only: split: if_splits)
  qed
  moreover have "\<bar>llround_int (sint (tt_accumulated_error_ns (note_start s pre))) * 1000000
      - sint (tt_accumulated_error_ns (note_start s pre))\<bar> \<le> 500000" by (rule llround_int_near)
  ultimately show ?thesis using exec delay unfolding n of_nat_Suc distrib_right mult_1 by linarith
qed

theorem periodic_timer_does_not_drift_witness:
  "\<bar>int (unat (12100000 :: u64)) + int (unat (tt_next_fire_duration_ms
        (callbacks [(1000000, 1200000), (12000000, 12100000)] ((TimerTask 0)\<lparr>tt_interval_ms := 10\<rparr>)))) * 1000000 - 21000000\<bar> \<le> 1000000"
proof -
  let ?task = "(TimerTask 0)\<lparr>tt_interval_ms := 10\<rparr>"
  have "int (unat (next_duration 10 0 1000000)) = 9"
    by (subst next_duration_int) (simp_all add: llround_int_def word_le_nat_alt)
  moreover have "llround_u64 100000 = 0" by (simp add: llround_u64_def)
  moreover from calculation have "2 < unat (next_duration 10 0 1000000)" by linarith
  ultimately have "tt_next_fire_duration_ms (callbacks [(1000000, 1200000), (12000000, 12100000)] ?task) = next_duration 10 0 1000000"
    "2 < unat (next_duration 10 0 1000000)" by (simp_all add: TimerTask_def note_start_def)
  moreover have "(s, f) \<in> set [(1000000, 1200000), (12000000, 12100000)] \<Longrightarrow> 0 < unat s \<and> unat s < 2 ^ 62" for s f :: u64
    by auto
  ultimately show ?thesis
    using periodic_timer_does_not_drift [of ?task "[(1000000, 1200000), (12000000, 12100000)]" 12000000 12100000]
    by (auto simp: TimerTask_def word_le_nat_alt)
qed

section \<open>Starting and stopping\<close>

text \<open>
  Claim C28. A timer that is started fires on time. Take the wheel after any sequence of operations, a
  timer that is not started, with a period of 1 to 65535 milliseconds, and a new object for its task.
  After \<^verbatim>\<open>Start\<close>, and whatever happens to the tasks of other timers, the task fires in exactly one of the
  following rounds of two milliseconds until it is added again: the round in which half the period,
  rounded up, is over.
\<close>

theorem started_timer_fires_on_time:
  assumes w: "w = snd (wheel_run ops0 (TimingWheel tasks))" and new: "t \<notin> set (concat (tw_work_wheel w @ tw_assistant_wheel w))"
    and ti: "\<not> ti_started ti" "ti_task ti \<noteq> Some t" "0 < unat (to_period (ti_opt ti))" "unat (to_period (ti_opt ti)) < 65536"
    and ops: "\<And>p. p \<in> set ops \<Longrightarrow> op_task p \<noteq> Some t"
    and i: "i < length (fst (wheel_run ops (snd (ti_Start True t ti w))))"
  shows "t \<in> set (fst (wheel_run ops (snd (ti_Start True t ti w))) ! i) \<longleftrightarrow> Suc i = (unat (to_period (ti_opt ti)) + 1) div 2"
proof -
  let ?ms = "ucast (to_period (ti_opt ti)) :: u64"
  define w1 where "w1 = (release (ti_task ti) w)\<lparr>tw_tasks := (tw_tasks (release (ti_task ti) w))
      (t \<mapsto> (TimerTask (ti_id ti))\<lparr>tt_interval_ms := ?ms, tt_next_fire_duration_ms := ?ms\<rparr>)\<rparr>"
  have "?ms \<noteq> 0" using ti(3) by (metis less_irrefl unat_0 unat_ucast_u32_u64)
  moreover have "\<not> TIMER_MAX_INTERVAL_MS \<le> ?ms"
    using ti(4) by (simp add: TIMER_MAX_INTERVAL_MS_def WORK_WHEEL_SIZE_def ASSISTANT_WHEEL_SIZE_def TIMER_RESOLUTION_MS_def word_le_nat_alt)
  ultimately have "snd (ti_Start True t ti w) = tw_AddTask t w1"
    using ti(1) by (simp add: ti_Start_def ti_InitTimerTask_def Let_def w1_def)
  also have "\<dots> = wheel_add t ?ms w1"
    by (simp add: wheel_add_def set_duration_def w1_def)
  finally have start: "snd (ti_Start True t ti w) = wheel_add t ?ms w1" .
  have ok: "wheel_ok w" using wheel_run_ok [OF wheel_ok_new] w by simp
  have rel: "wheel_ok (release (ti_task ti) w)" "tw_work_wheel (release (ti_task ti) w) = tw_work_wheel w"
    "tw_assistant_wheel (release (ti_task ti) w) = tw_assistant_wheel w"
    using ok wheel_drop_ok [OF ok] by (auto simp: release_def wheel_drop_def split: option.splits)
  have ok1: "wheel_ok w1" using rel(1) by (auto simp: wheel_ok_def w1_def TimerTask_def)
  have "(t, n) \<notin> countdowns w1" for n
  proof -
    have "length (tw_work_wheel w) = 512" "length (tw_assistant_wheel w) = 64" using ok by (simp_all add: wheel_ok_def)
    then have "j < 512 \<Longrightarrow> t \<notin> set (tw_work_wheel w ! j)" "b < 64 \<Longrightarrow> t \<notin> set (tw_assistant_wheel w ! b)" for b j
      using new nth_mem [of j "tw_work_wheel w"] nth_mem [of b "tw_assistant_wheel w"] by auto
    then show ?thesis by (auto simp: in_countdowns in_work_def in_assistant_def w1_def rel)
  qed
  then show ?thesis unfolding start
    using added_task_fires [OF ok1, of t ?ms ops i] ti(3,4) ops i start by (simp add: w1_def)
qed

theorem started_timer_fires_on_time_witness:
  "7 \<in> set (fst (wheel_run [WRound, WAdd 3 8, WRound]
      (snd (ti_Start True 7 \<lparr>ti_id = 1, ti_opt = \<lparr>to_period = 3, to_oneshot = False\<rparr>, ti_task = None, ti_started = False\<rparr>
        (TimingWheel (\<lambda>_. None))))) ! 1)"
proof -
  let ?ti = "\<lparr>ti_id = 1, ti_opt = \<lparr>to_period = 3, to_oneshot = False\<rparr>, ti_task = None, ti_started = False\<rparr>"
  have "7 \<notin> set (concat (tw_work_wheel (TimingWheel (\<lambda>_. None)) @ tw_assistant_wheel (TimingWheel (\<lambda>_. None))))"
    by (simp add: TimingWheel_def)
  moreover have "p \<in> set [WRound, WAdd 3 8, WRound] \<Longrightarrow> op_task p \<noteq> Some 7" for p by auto
  ultimately show ?thesis
    using started_timer_fires_on_time [of "TimingWheel (\<lambda>_. None)" "[]" "\<lambda>_. None" 7 ?ti "[WRound, WAdd 3 8, WRound]" 1]
    by (simp add: Let_def)
qed

text \<open>
  A stopped timer is silent: after \<^verbatim>\<open>Stop\<close> on a started timer that has a task, the task fires in no
  later round, whatever is done to the wheel.
\<close>

lemma stopped_timer_is_silent:
  assumes "w = snd (wheel_run ops0 (TimingWheel tasks))" "ti_started ti" "ti_task ti = Some t"
    and "i < length (fst (wheel_run ops (snd (ti_Stop ti w))))"
  shows "t \<notin> set (fst (wheel_run ops (snd (ti_Stop ti w))) ! i)"
proof (rule dead_task_silent [OF _ _ assms(4)])
  have ok: "wheel_ok w" using wheel_run_ok [OF wheel_ok_new] assms(1) by simp
  have stop: "snd (ti_Stop ti w) = wheel_drop t w" using assms(2,3) by (simp add: ti_Stop_def Let_def release_def)
  show "wheel_ok (snd (ti_Stop ti w))" unfolding stop by (rule wheel_drop_ok [OF ok])
  show "tw_tasks (snd (ti_Stop ti w)) t = None" unfolding stop by (simp add: wheel_drop_def)
qed

lemma stopped_timer_is_silent_witness:
  "7 \<notin> set (fst (wheel_run [WRound] (snd (ti_Stop \<lparr>ti_id = 1, ti_opt = \<lparr>to_period = 3, to_oneshot = False\<rparr>, ti_task = Some 7,
      ti_started = True\<rparr> (wheel_add 7 2 (TimingWheel (\<lambda>_. Some (TimerTask 0))))))) ! 0)"
  using stopped_timer_is_silent [of "wheel_add 7 2 (TimingWheel (\<lambda>_. Some (TimerTask 0)))" "[WAdd 7 2]" "\<lambda>_. Some (TimerTask 0)"
    "\<lparr>ti_id = 1, ti_opt = \<lparr>to_period = 3, to_oneshot = False\<rparr>, ti_task = Some 7, ti_started = True\<rparr>" 7 0 "[WRound]"]
  by (simp add: Let_def)

text \<open>
  A period of zero or of 65536 milliseconds and more is refused. The timer is marked as started all the
  same: with a proper period set afterwards, \<^verbatim>\<open>Start\<close> does nothing until \<^verbatim>\<open>Stop\<close> is called.
\<close>

lemma refused_start_blocks_restart:
  fixes ti :: timer and t t' :: nat and w w' :: timing_wheel and opt :: timer_option
  assumes "\<not> ti_started ti" "unat (to_period (ti_opt ti)) = 0 \<or> 65536 \<le> unat (to_period (ti_opt ti))"
  defines "ti' \<equiv> ti_SetTimerOption opt (fst (ti_Start True t ti w))"
  shows "snd (ti_Start True t ti w) = w" "ti_Start True t' ti' w' = (ti', w')"
proof -
  let ?ms = "ucast (to_period (ti_opt ti)) :: u64"
  have "?ms = 0 \<or> TIMER_MAX_INTERVAL_MS \<le> ?ms"
  proof (cases "unat (to_period (ti_opt ti)) = 0")
    case True
    then show ?thesis by (simp add: unat_eq_0)
  qed (use assms(2) in \<open>simp add: TIMER_MAX_INTERVAL_MS_def WORK_WHEEL_SIZE_def ASSISTANT_WHEEL_SIZE_def TIMER_RESOLUTION_MS_def word_le_nat_alt\<close>)
  then have start: "ti_Start True t ti w = (ti\<lparr>ti_started := True\<rparr>, w)"
    using assms(1) by (auto simp: ti_Start_def ti_InitTimerTask_def Let_def)
  then show "snd (ti_Start True t ti w) = w" by simp
  show "ti_Start True t' ti' w' = (ti', w')" unfolding ti'_def start by (simp add: ti_SetTimerOption_def ti_Start_def)
qed

end
