(* ===== verification/Base_ReentrantLock.thy ===== *)
theory Base_ReentrantLock
  imports Base_Locks
begin

text \<open>
  \<^verbatim>\<open>ReentrantRWLock\<close> (\<^verbatim>\<open>cyber/base/reentrant_rw_lock.h\<close>): a reader/writer spin lock whose writer may lock again.
  Any number of threads interleave, one step per access to the lock; the locks of a thread are taken
  and released through scoped guards, so each thread has a stack of guards.

  The lock is exclusive in every interleaving. But the release of the write lock frees the lock word
  before it resets the id of the writer, and the late reset can hit the next writer.
\<close>

section \<open>ReentrantRWLock\<close>

record reentrant_rw_lock =
  rl_write_thread_id :: "nat option"
  rl_write_lock_wait_num :: nat
  rl_lock_num :: int
  rl_write_first :: bool

definition ReentrantRWLock :: "bool \<Rightarrow> reentrant_rw_lock" where
  "ReentrantRWLock first = \<lparr>rl_write_thread_id = None, rl_write_lock_wait_num = 0, rl_lock_num = 0, rl_write_first = first\<rparr>"

definition rl_read_blocked :: "int \<Rightarrow> reentrant_rw_lock \<Rightarrow> bool" where
  "rl_read_blocked n l = (n < 0 \<or> rl_write_first l \<and> 0 < rl_write_lock_wait_num l)"

definition rl_cas :: "int \<Rightarrow> int \<Rightarrow> reentrant_rw_lock \<Rightarrow> reentrant_rw_lock option" where
  "rl_cas n n' l = (if rl_lock_num l = n then Some (l\<lparr>rl_lock_num := n'\<rparr>) else None)"

definition rl_add :: "int \<Rightarrow> reentrant_rw_lock \<Rightarrow> reentrant_rw_lock" where
  "rl_add k l = l\<lparr>rl_lock_num := rl_lock_num l + k\<rparr>"

text \<open>
  The guards of a thread, the latest first. A read guard remembers whether it was counted in the lock
  word or found its own thread to be the writer; the lock itself does not keep this.
\<close>

datatype rl_guard = CountedRead | FreeRead | Write

text \<open>
  Where a thread is. In \<open>RlReadSpin n\<close> and \<open>RlReadTry n\<close> the number is its copy of the lock word.
  \<open>RlWriteGot\<close> has taken the lock word, \<open>RlWriteMarked\<close> has also set the id. \<open>RlReenter\<close> has seen its
  own id, \<open>RlUncount\<close> releases a read guard by the lock word, and \<open>RlClear\<close> has released the word and will
  reset the id.
\<close>

datatype rl_pc = RlIdle | RlReadSpin int | RlReadTry int | RlReenter | RlWriteTry | RlWriteGot | RlWriteMarked | RlUncount | RlClear

record rl_thread =
  rt_pc :: rl_pc
  rt_guards :: "rl_guard list"

record rl_sys =
  rls_lock :: reentrant_rw_lock
  rls_threads :: "rl_thread list"

definition rls_init :: "bool \<Rightarrow> nat \<Rightarrow> rl_sys" where
  "rls_init first n = \<lparr>rls_lock = ReentrantRWLock first, rls_threads = replicate n \<lparr>rt_pc = RlIdle, rt_guards = []\<rparr>\<rparr>"

definition rl_goto :: "nat \<Rightarrow> rl_pc \<Rightarrow> rl_guard list \<Rightarrow> reentrant_rw_lock \<Rightarrow> rl_sys \<Rightarrow> rl_sys" where
  "rl_goto i pc gs l s = s\<lparr>rls_lock := l, rls_threads := (rls_threads s)[i := \<lparr>rt_pc = pc, rt_guards = gs\<rparr>]\<rparr>"

abbreviation rl_at :: "rl_sys \<Rightarrow> nat \<Rightarrow> rl_pc \<Rightarrow> rl_guard list \<Rightarrow> bool" where
  "rl_at s i pc gs \<equiv> i < length (rls_threads s) \<and> rls_threads s ! i = \<lparr>rt_pc = pc, rt_guards = gs\<rparr>"

inductive rl_step :: "rl_sys \<Rightarrow> rl_sys \<Rightarrow> bool" where
  read_own: "rl_at s i RlIdle gs \<Longrightarrow> rl_write_thread_id (rls_lock s) = Some i \<Longrightarrow>
    rl_step s (rl_goto i RlIdle (FreeRead # gs) (rls_lock s) s)"
| read_call: "rl_at s i RlIdle gs \<Longrightarrow> rl_write_thread_id (rls_lock s) \<noteq> Some i \<Longrightarrow>
    rl_step s (rl_goto i (RlReadSpin (rl_lock_num (rls_lock s))) gs (rls_lock s) s)"
| read_spin: "rl_at s i (RlReadSpin n) gs \<Longrightarrow> rl_read_blocked n (rls_lock s) \<Longrightarrow>
    rl_step s (rl_goto i (RlReadSpin (rl_lock_num (rls_lock s))) gs (rls_lock s) s)"
| read_pass: "rl_at s i (RlReadSpin n) gs \<Longrightarrow> \<not> rl_read_blocked n (rls_lock s) \<Longrightarrow>
    rl_step s (rl_goto i (RlReadTry n) gs (rls_lock s) s)"
| read_fail: "rl_at s i (RlReadTry n) gs \<Longrightarrow>
    rl_step s (rl_goto i (RlReadSpin (rl_lock_num (rls_lock s))) gs (rls_lock s) s)"
| read_lock: "rl_at s i (RlReadTry n) gs \<Longrightarrow> rl_cas n (n + 1) (rls_lock s) = Some l \<Longrightarrow>
    rl_step s (rl_goto i RlIdle (CountedRead # gs) l s)"
| write_own: "rl_at s i RlIdle gs \<Longrightarrow> rl_write_thread_id (rls_lock s) = Some i \<Longrightarrow>
    rl_step s (rl_goto i RlReenter gs (rls_lock s) s)"
| write_reenter: "rl_at s i RlReenter gs \<Longrightarrow>
    rl_step s (rl_goto i RlIdle (Write # gs) (rl_add (- 1) (rls_lock s)) s)"
| write_call: "rl_at s i RlIdle gs \<Longrightarrow> rl_write_thread_id (rls_lock s) \<noteq> Some i \<Longrightarrow>
    rl_step s (rl_goto i RlWriteTry gs ((rls_lock s)\<lparr>rl_write_lock_wait_num := rl_write_lock_wait_num (rls_lock s) + 1\<rparr>) s)"
| write_fail: "rl_at s i RlWriteTry gs \<Longrightarrow> rl_step s s"
| write_lock: "rl_at s i RlWriteTry gs \<Longrightarrow> rl_cas 0 (- 1) (rls_lock s) = Some l \<Longrightarrow>
    rl_step s (rl_goto i RlWriteGot gs l s)"
| write_mark: "rl_at s i RlWriteGot gs \<Longrightarrow>
    rl_step s (rl_goto i RlWriteMarked gs ((rls_lock s)\<lparr>rl_write_thread_id := Some i\<rparr>) s)"
| write_done: "rl_at s i RlWriteMarked gs \<Longrightarrow>
    rl_step s (rl_goto i RlIdle (Write # gs) ((rls_lock s)\<lparr>rl_write_lock_wait_num := rl_write_lock_wait_num (rls_lock s) - 1\<rparr>) s)"
| unread_own: "rl_at s i RlIdle (g # gs) \<Longrightarrow> g \<noteq> Write \<Longrightarrow> rl_write_thread_id (rls_lock s) = Some i \<Longrightarrow>
    rl_step s (rl_goto i RlIdle gs (rls_lock s) s)"
| unread_call: "rl_at s i RlIdle (g # gs) \<Longrightarrow> g \<noteq> Write \<Longrightarrow> rl_write_thread_id (rls_lock s) \<noteq> Some i \<Longrightarrow>
    rl_step s (rl_goto i RlUncount (g # gs) (rls_lock s) s)"
| unread: "rl_at s i RlUncount (g # gs) \<Longrightarrow>
    rl_step s (rl_goto i RlIdle gs (rl_add (- 1) (rls_lock s)) s)"
| unwrite_last: "rl_at s i RlIdle (Write # gs) \<Longrightarrow> rl_lock_num (rls_lock s) = - 1 \<Longrightarrow>
    rl_step s (rl_goto i RlClear gs (rl_add 1 (rls_lock s)) s)"
| unwrite_nested: "rl_at s i RlIdle (Write # gs) \<Longrightarrow> rl_lock_num (rls_lock s) \<noteq> - 1 \<Longrightarrow>
    rl_step s (rl_goto i RlIdle gs (rl_add 1 (rls_lock s)) s)"
| clear: "rl_at s i RlClear gs \<Longrightarrow>
    rl_step s (rl_goto i RlIdle gs ((rls_lock s)\<lparr>rl_write_thread_id := None\<rparr>) s)"

section \<open>Exclusion\<close>

definition owns :: "rl_thread \<Rightarrow> bool" where
  "owns t \<longleftrightarrow> Write \<in> set (rt_guards t) \<or> rt_pc t \<in> {RlWriteGot, RlWriteMarked}"

text \<open>How often a thread has taken the lock word for writing, and for reading.\<close>

definition write_depth :: "rl_thread \<Rightarrow> nat" where
  "write_depth t = count_list (rt_guards t) Write + (if rt_pc t \<in> {RlWriteGot, RlWriteMarked} then 1 else 0)"

definition counted :: "rl_thread \<Rightarrow> nat" where
  "counted t = count_list (rt_guards t) CountedRead"

text \<open>
  A thread by itself: it has free reads only above a write, no counted read while it owns the lock, and
  the lock bears its id only while it owns the lock or is about to reset the id.
\<close>

fun stacked :: "rl_guard list \<Rightarrow> bool" where
  "stacked [] = True"
| "stacked (FreeRead # gs) = (Write \<in> set gs \<and> stacked gs)"
| "stacked (g # gs) = stacked gs"

definition thread_ok :: "nat option \<Rightarrow> nat \<Rightarrow> rl_thread \<Rightarrow> bool" where
  "thread_ok writer i t \<longleftrightarrow> stacked (rt_guards t) \<and> (owns t \<longrightarrow> CountedRead \<notin> set (rt_guards t))
     \<and> (writer = Some i \<longrightarrow> owns t \<or> rt_pc t = RlClear)
     \<and> (rt_pc t = RlReenter \<longrightarrow> Write \<in> set (rt_guards t)) \<and> (rt_pc t = RlClear \<longrightarrow> \<not> owns t)
     \<and> (rt_pc t = RlUncount \<longrightarrow> rt_guards t \<noteq> [] \<and> hd (rt_guards t) \<noteq> Write \<and> writer \<noteq> Some i)
     \<and> (rt_pc t \<in> {RlWriteGot, RlWriteMarked} \<longrightarrow> rt_guards t = [])
     \<and> (\<forall>n. rt_pc t = RlReadTry n \<longrightarrow> 0 \<le> n)"

definition total :: "rl_thread list \<Rightarrow> nat" where
  "total ts = sum_list (map counted ts)"

definition word_ok :: "int \<Rightarrow> rl_thread list \<Rightarrow> bool" where
  "word_ok n ts \<longleftrightarrow>
     (\<forall>i<length ts. owns (ts ! i) \<longrightarrow> n \<le> - int (write_depth (ts ! i)) \<and> total ts = 0 \<and> (\<forall>j<length ts. owns (ts ! j) \<longrightarrow> j = i))
     \<and> ((\<forall>i<length ts. \<not> owns (ts ! i)) \<longrightarrow> n = int (total ts) \<or> (n < 0 \<and> total ts = 0))"

text \<open>While the lock bears the id of its owner, or the owner is about to set it, the word is exact.\<close>

definition exact :: "nat option \<Rightarrow> int \<Rightarrow> rl_thread list \<Rightarrow> bool" where
  "exact writer n ts \<longleftrightarrow> (\<forall>i<length ts. (writer = Some i \<or> rt_pc (ts ! i) = RlWriteGot) \<and> owns (ts ! i) \<longrightarrow> n = - int (write_depth (ts ! i)))"

definition rl_inv :: "rl_sys \<Rightarrow> bool" where
  "rl_inv s \<longleftrightarrow> (\<forall>i<length (rls_threads s). thread_ok (rl_write_thread_id (rls_lock s)) i (rls_threads s ! i))
     \<and> word_ok (rl_lock_num (rls_lock s)) (rls_threads s)
     \<and> exact (rl_write_thread_id (rls_lock s)) (rl_lock_num (rls_lock s)) (rls_threads s)"

lemma stacked_free: "stacked gs \<Longrightarrow> Write \<notin> set gs \<Longrightarrow> FreeRead \<notin> set gs"
  by (induction gs rule: stacked.induct) auto

lemma owns_depth: "owns t \<longleftrightarrow> 0 < write_depth t"
  using count_list_0_iff [of "rt_guards t" Write] by (auto simp: owns_def write_depth_def)

lemma total_update: "i < length ts \<Longrightarrow> total (ts[i := t]) + counted (ts ! i) = total ts + counted t"
  by (induction ts arbitrary: i) (auto simp: total_def less_Suc_eq_0_disj)

lemma counted_le_total: "i < length ts \<Longrightarrow> counted (ts ! i) \<le> total ts"
  unfolding total_def by (rule member_le_sum_list) simp_all

text \<open>What the steps do to the lock word and the changed thread.\<close>

lemma word_ok_same:
  assumes "word_ok n ts" "i < length ts" "write_depth t = write_depth (ts ! i)" "counted t = counted (ts ! i)"
  shows "word_ok n (ts[i := t])"
proof -
  have "total (ts[i := t]) = total ts" using total_update [of i ts t] assms(2,4) by simp
  moreover have "owns (ts[i := t] ! j) = owns (ts ! j) \<and> write_depth (ts[i := t] ! j) = write_depth (ts ! j)" if "j < length ts" for j
    using that assms(3) by (cases "j = i") (auto simp: owns_depth)
  ultimately show ?thesis using assms(1) by (simp add: word_ok_def)
qed

lemma word_ok_read:
  assumes "word_ok n ts" "i < length ts" "0 \<le> n" "write_depth t = write_depth (ts ! i)" "counted t = counted (ts ! i) + 1"
  shows "word_ok (n + 1) (ts[i := t])"
proof -
  have "\<not> owns (ts ! j)" if "j < length ts" for j
    using that assms(1,3) by (fastforce simp: word_ok_def owns_depth)
  then have "\<not> owns (ts[i := t] ! j)" if "j < length ts" for j
    using that assms(2,4) by (cases "j = i") (auto simp: owns_depth)
  moreover have "n = int (total ts)" using assms(1,3) \<open>\<And>j. j < length ts \<Longrightarrow> \<not> owns (ts ! j)\<close> by (auto simp: word_ok_def)
  moreover have "total (ts[i := t]) = total ts + 1" using total_update [of i ts t] assms(2,5) by simp
  ultimately show ?thesis by (auto simp: word_ok_def)
qed

lemma word_ok_write:
  assumes "word_ok 0 ts" "i < length ts" "write_depth t = 1" "counted t = counted (ts ! i)"
  shows "word_ok (- 1) (ts[i := t])"
proof -
  have no: "\<not> owns (ts ! j)" if "j < length ts" for j
    using that assms(1) by (fastforce simp: word_ok_def owns_depth)
  then have "total ts = 0" using assms(1) by (auto simp: word_ok_def)
  then have "total (ts[i := t]) = 0" using total_update [of i ts t] assms(2,4) by simp
  then show ?thesis using no assms(2,3) by (auto simp: word_ok_def nth_list_update owns_depth split: if_splits)
qed

lemma word_ok_owner:
  assumes "word_ok n ts" "i < length ts" "owns (ts ! i)" "counted t = counted (ts ! i)"
    and "write_depth t + k = write_depth (ts ! i) + m" "n' \<le> n + int k - int m"
  shows "word_ok n' (ts[i := t])"
proof -
  have n: "n \<le> - int (write_depth (ts ! i))" "total ts = 0" and u: "j < length ts \<Longrightarrow> owns (ts ! j) \<Longrightarrow> j = i" for j
    using assms(1-3) by (auto simp: word_ok_def)
  have "total (ts[i := t]) = 0" using total_update [of i ts t] n(2) assms(2,4) by simp
  moreover have "n' \<le> - int (write_depth t)" using n(1) assms(5,6) by linarith
  moreover have "j < length ts \<Longrightarrow> j \<noteq> i \<Longrightarrow> write_depth (ts ! j) = 0" for j using u [of j] by (auto simp: owns_depth)
  ultimately show ?thesis using assms(2) by (auto simp: word_ok_def nth_list_update owns_depth split: if_splits)
qed

lemma word_ok_unread:
  assumes "word_ok n ts" "i < length ts" "counted (ts ! i) = counted t + 1" "write_depth t = write_depth (ts ! i)"
  shows "word_ok (n - 1) (ts[i := t])"
proof -
  have "0 < total ts" using counted_le_total [OF assms(2)] assms(3) by linarith
  then have no: "\<not> owns (ts ! j)" if "j < length ts" for j using that assms(1) by (auto simp: word_ok_def)
  then have "n = int (total ts)" using assms(1) \<open>0 < total ts\<close> by (auto simp: word_ok_def)
  moreover have "total (ts[i := t]) = total ts - 1" using total_update [of i ts t] assms(2,3) by simp
  moreover have "\<not> owns (ts[i := t] ! j)" if "j < length ts" for j
    using that no assms(4) by (cases "j = i") (auto simp: owns_depth)
  ultimately show ?thesis by (auto simp: word_ok_def)
qed

lemma exact_same:
  assumes "exact writer n ts" "i < length ts" "writer' \<in> {writer, None}" "write_depth t = write_depth (ts ! i)"
    and "rt_pc t \<noteq> RlWriteGot"
  shows "exact writer' n (ts[i := t])"
  unfolding exact_def
proof (intro allI impI)
  fix j assume j: "j < length (ts[i := t])" and a: "(writer' = Some j \<or> rt_pc (ts[i := t] ! j) = RlWriteGot) \<and> owns (ts[i := t] ! j)"
  show "n = - int (write_depth (ts[i := t] ! j))"
    using assms j a by (cases "j = i") (auto simp: exact_def owns_depth)
qed

lemma exact_alone:
  assumes "\<And>j. j < length ts \<Longrightarrow> j \<noteq> i \<Longrightarrow> \<not> owns (ts ! j)"
    and "writer = Some i \<or> rt_pc t = RlWriteGot \<Longrightarrow> owns t \<Longrightarrow> n = - int (write_depth t)"
  shows "exact writer n (ts[i := t])"
  unfolding exact_def
proof (intro allI impI)
  fix j assume j: "j < length (ts[i := t])" and a: "(writer = Some j \<or> rt_pc (ts[i := t] ! j) = RlWriteGot) \<and> owns (ts[i := t] ! j)"
  show "n = - int (write_depth (ts[i := t] ! j))"
    using assms j a by (cases "j = i") auto
qed

lemma inv_goto:
  assumes "rl_inv s" "rl_at s i pc gs"
    and "rl_write_thread_id l \<in> {rl_write_thread_id (rls_lock s), None, Some i}"
    and "thread_ok (rl_write_thread_id l) i \<lparr>rt_pc = pc', rt_guards = gs'\<rparr>"
    and "word_ok (rl_lock_num l) ((rls_threads s)[i := \<lparr>rt_pc = pc', rt_guards = gs'\<rparr>])"
    and "exact (rl_write_thread_id l) (rl_lock_num l) ((rls_threads s)[i := \<lparr>rt_pc = pc', rt_guards = gs'\<rparr>])"
  shows "rl_inv (rl_goto i pc' gs' l s)"
proof -
  have "thread_ok (rl_write_thread_id l) j ((rls_threads s)[i := \<lparr>rt_pc = pc', rt_guards = gs'\<rparr>] ! j)" if "j < length (rls_threads s)" for j
  proof (cases "j = i")
    case False
    then show ?thesis using assms(1,3) that by (auto simp: rl_inv_def thread_ok_def)
  qed (use that assms(4) in simp)
  then show ?thesis using assms(5,6) by (simp add: rl_inv_def rl_goto_def)
qed

text \<open>A step that leaves the lock word and the counts of its thread as they are.\<close>

lemma inv_goto_same:
  assumes inv: "rl_inv s" and at: "rl_at s i pc gs"
    and l: "rl_write_thread_id l \<in> {rl_write_thread_id (rls_lock s), None}" "rl_lock_num l = rl_lock_num (rls_lock s)"
    and t: "thread_ok (rl_write_thread_id l) i \<lparr>rt_pc = pc', rt_guards = gs'\<rparr>" "pc' \<noteq> RlWriteGot"
    and "write_depth \<lparr>rt_pc = pc', rt_guards = gs'\<rparr> = write_depth \<lparr>rt_pc = pc, rt_guards = gs\<rparr>"
    and "counted \<lparr>rt_pc = pc', rt_guards = gs'\<rparr> = counted \<lparr>rt_pc = pc, rt_guards = gs\<rparr>"
  shows "rl_inv (rl_goto i pc' gs' l s)"
proof (rule inv_goto [OF inv at])
  show "word_ok (rl_lock_num l) ((rls_threads s)[i := \<lparr>rt_pc = pc', rt_guards = gs'\<rparr>])"
    using inv at assms by (intro word_ok_same) (auto simp: rl_inv_def)
  show "exact (rl_write_thread_id l) (rl_lock_num l) ((rls_threads s)[i := \<lparr>rt_pc = pc', rt_guards = gs'\<rparr>])"
    using inv at assms by (intro exact_same [where writer = "rl_write_thread_id (rls_lock s)"]) (auto simp: rl_inv_def)
qed (use l t in auto)

lemma thread_facts:
  assumes "rl_inv s" "rl_at s i pc gs"
  shows "thread_ok (rl_write_thread_id (rls_lock s)) i \<lparr>rt_pc = pc, rt_guards = gs\<rparr>"
    and "word_ok (rl_lock_num (rls_lock s)) (rls_threads s)"
    and "exact (rl_write_thread_id (rls_lock s)) (rl_lock_num (rls_lock s)) (rls_threads s)"
  using assms by (auto simp: rl_inv_def)

lemma nobody_owns:
  assumes "word_ok n ts" "0 \<le> n" "j < length ts"
  shows "\<not> owns (ts ! j)"
  using assms by (fastforce simp: word_ok_def owns_depth)

lemma others_own_not:
  assumes "word_ok n ts" "i < length ts" "owns (ts ! i)" "j < length ts" "j \<noteq> i"
  shows "\<not> owns (ts ! j)"
  using assms by (auto simp: word_ok_def)

lemmas thread_simps = thread_ok_def owns_def write_depth_def counted_def

text \<open>The steps that change the lock word.\<close>

lemma inv_read_lock:
  assumes inv: "rl_inv s" and at: "rl_at s i (RlReadTry n) gs" and cas: "rl_cas n (n + 1) (rls_lock s) = Some l"
  shows "rl_inv (rl_goto i RlIdle (CountedRead # gs) l s)"
proof -
  note f = thread_facts [OF inv at]
  have n: "rl_lock_num (rls_lock s) = n" and l: "l = (rls_lock s)\<lparr>rl_lock_num := n + 1\<rparr>"
    using cas by (auto simp: rl_cas_def split: if_splits)
  have "0 \<le> n" using f(1) by (simp add: thread_ok_def)
  then have no: "j < length (rls_threads s) \<Longrightarrow> \<not> owns (rls_threads s ! j)" for j using nobody_owns f(2) n by blast
  then have i: "\<not> owns \<lparr>rt_pc = RlReadTry n, rt_guards = gs\<rparr>" using at by metis
  show ?thesis
  proof (rule inv_goto [OF inv at])
    show "word_ok (rl_lock_num l) ((rls_threads s)[i := \<lparr>rt_pc = RlIdle, rt_guards = CountedRead # gs\<rparr>])"
      using word_ok_read [OF f(2)] at n l \<open>0 \<le> n\<close> by (simp add: thread_simps)
    show "exact (rl_write_thread_id l) (rl_lock_num l) ((rls_threads s)[i := \<lparr>rt_pc = RlIdle, rt_guards = CountedRead # gs\<rparr>])"
      by (rule exact_alone) (use no i in \<open>auto simp: owns_def\<close>)
  qed (use f(1) i l in \<open>auto simp: thread_simps\<close>)
qed

lemma inv_write_lock:
  assumes inv: "rl_inv s" and at: "rl_at s i RlWriteTry gs" and cas: "rl_cas 0 (- 1) (rls_lock s) = Some l"
  shows "rl_inv (rl_goto i RlWriteGot gs l s)"
proof -
  note f = thread_facts [OF inv at]
  have n: "rl_lock_num (rls_lock s) = 0" and l: "l = (rls_lock s)\<lparr>rl_lock_num := - 1\<rparr>"
    using cas by (auto simp: rl_cas_def split: if_splits)
  have no: "j < length (rls_threads s) \<Longrightarrow> \<not> owns (rls_threads s ! j)" for j using nobody_owns f(2) n by (metis order_refl)
  then have i: "Write \<notin> set gs" using no [of i] at by (auto simp: owns_def)
  have "total (rls_threads s) = 0" using f(2) no n by (auto simp: word_ok_def)
  then have "counted (rls_threads s ! i) = 0" using counted_le_total [of i "rls_threads s"] at by simp
  then have "CountedRead \<notin> set gs" using at by (simp add: counted_def count_list_0_iff)
  moreover have "FreeRead \<notin> set gs" using stacked_free i f(1) by (simp add: thread_ok_def)
  ultimately have "g \<notin> set gs" for g using i by (cases g) auto
  then have gs: "gs = []" by (metis last_in_set)
  show ?thesis
  proof (rule inv_goto [OF inv at])
    show "word_ok (rl_lock_num l) ((rls_threads s)[i := \<lparr>rt_pc = RlWriteGot, rt_guards = gs\<rparr>])"
      using word_ok_write [OF f(2) [unfolded n]] at l gs by (simp add: thread_simps)
    show "exact (rl_write_thread_id l) (rl_lock_num l) ((rls_threads s)[i := \<lparr>rt_pc = RlWriteGot, rt_guards = gs\<rparr>])"
      by (rule exact_alone) (use no l gs in \<open>auto simp: write_depth_def\<close>)
  qed (use f(1) l gs in \<open>auto simp: thread_simps\<close>)
qed

lemma inv_owner_step:
  assumes inv: "rl_inv s" and at: "rl_at s i pc gs" and own: "owns \<lparr>rt_pc = pc, rt_guards = gs\<rparr>"
    and id: "rl_write_thread_id l \<in> {rl_write_thread_id (rls_lock s), Some i}"
    and t: "thread_ok (rl_write_thread_id l) i \<lparr>rt_pc = pc', rt_guards = gs'\<rparr>"
    and c: "counted \<lparr>rt_pc = pc', rt_guards = gs'\<rparr> = counted \<lparr>rt_pc = pc, rt_guards = gs\<rparr>"
    and d: "write_depth \<lparr>rt_pc = pc', rt_guards = gs'\<rparr> + k = write_depth \<lparr>rt_pc = pc, rt_guards = gs\<rparr> + m"
      "rl_lock_num l \<le> rl_lock_num (rls_lock s) + int k - int m"
    and e: "rl_write_thread_id l = Some i \<or> pc' = RlWriteGot \<Longrightarrow> owns \<lparr>rt_pc = pc', rt_guards = gs'\<rparr>
      \<Longrightarrow> rl_lock_num l = - int (write_depth \<lparr>rt_pc = pc', rt_guards = gs'\<rparr>)"
  shows "rl_inv (rl_goto i pc' gs' l s)"
proof (rule inv_goto [OF inv at])
  note f = thread_facts [OF inv at]
  show "word_ok (rl_lock_num l) ((rls_threads s)[i := \<lparr>rt_pc = pc', rt_guards = gs'\<rparr>])"
    using word_ok_owner [OF f(2), of i _ k m] at own c d by simp
  show "exact (rl_write_thread_id l) (rl_lock_num l) ((rls_threads s)[i := \<lparr>rt_pc = pc', rt_guards = gs'\<rparr>])"
  proof (rule exact_alone)
    show "\<not> owns (rls_threads s ! j)" if "j < length (rls_threads s)" "j \<noteq> i" for j
      using others_own_not [OF f(2), of i j] at own that by simp
  qed (use e in simp)
qed (use id t in auto)

lemma owner_word:
  assumes inv: "rl_inv s" and at: "rl_at s i pc gs" and own: "owns \<lparr>rt_pc = pc, rt_guards = gs\<rparr>"
  shows "rl_lock_num (rls_lock s) \<le> - int (write_depth \<lparr>rt_pc = pc, rt_guards = gs\<rparr>)"
    and "rl_write_thread_id (rls_lock s) = Some i \<or> pc = RlWriteGot
      \<Longrightarrow> rl_lock_num (rls_lock s) = - int (write_depth \<lparr>rt_pc = pc, rt_guards = gs\<rparr>)"
proof -
  note f = thread_facts(2,3) [OF inv at]
  show "rl_lock_num (rls_lock s) \<le> - int (write_depth \<lparr>rt_pc = pc, rt_guards = gs\<rparr>)"
    using f(1) at own unfolding word_ok_def by metis
  show "rl_lock_num (rls_lock s) = - int (write_depth \<lparr>rt_pc = pc, rt_guards = gs\<rparr>)"
    if "rl_write_thread_id (rls_lock s) = Some i \<or> pc = RlWriteGot"
    using f(2) at own that unfolding exact_def by (metis rl_thread.select_convs(1))
qed

lemma inv_unread:
  assumes inv: "rl_inv s" and at: "rl_at s i RlUncount (g # gs)"
  shows "rl_inv (rl_goto i RlIdle gs (rl_add (- 1) (rls_lock s)) s)"
proof -
  note f = thread_facts [OF inv at]
  have g: "g \<noteq> Write" "rl_write_thread_id (rls_lock s) \<noteq> Some i" using f(1) by (simp_all add: thread_ok_def)
  show ?thesis
  proof (cases g)
    case CountedRead
    then have i: "\<not> owns \<lparr>rt_pc = RlUncount, rt_guards = g # gs\<rparr>" using f(1) by (auto simp: thread_ok_def)
    have "word_ok (rl_lock_num (rls_lock s) - 1) ((rls_threads s)[i := \<lparr>rt_pc = RlIdle, rt_guards = gs\<rparr>])"
      using at CountedRead by (intro word_ok_unread [OF f(2)]) (simp_all add: counted_def write_depth_def)
    moreover have "0 < total (rls_threads s)" using counted_le_total [of i "rls_threads s"] at CountedRead by (simp add: counted_def)
    then have no: "j < length (rls_threads s) \<Longrightarrow> \<not> owns (rls_threads s ! j)" for j using f(2) by (auto simp: word_ok_def)
    have "exact (rl_write_thread_id (rls_lock s)) (rl_lock_num (rls_lock s) - 1) ((rls_threads s)[i := \<lparr>rt_pc = RlIdle, rt_guards = gs\<rparr>])"
      by (rule exact_alone) (use no i in \<open>simp_all add: owns_def\<close>)
    moreover have "thread_ok (rl_write_thread_id (rls_lock s)) i \<lparr>rt_pc = RlIdle, rt_guards = gs\<rparr>"
      using f(1) g CountedRead by (auto simp: thread_ok_def owns_def)
    ultimately show ?thesis by (intro inv_goto [OF inv at]) (simp_all add: rl_add_def)
  next
    case FreeRead
    then have own: "owns \<lparr>rt_pc = RlUncount, rt_guards = g # gs\<rparr>" using f(1) by (simp add: thread_ok_def owns_def)
    have "thread_ok (rl_write_thread_id (rls_lock s)) i \<lparr>rt_pc = RlIdle, rt_guards = gs\<rparr>"
      using f(1) g FreeRead by (auto simp: thread_ok_def owns_def)
    then show ?thesis
      by (intro inv_owner_step [OF inv at own, where k = 0 and m = 0]) (use g FreeRead in \<open>simp_all add: thread_simps rl_add_def\<close>)
  qed (use g in simp)
qed

lemma inv_unwrite:
  assumes inv: "rl_inv s" and at: "rl_at s i RlIdle (Write # gs)"
    and pc: "pc = (if rl_lock_num (rls_lock s) = - 1 then RlClear else RlIdle)"
  shows "rl_inv (rl_goto i pc gs (rl_add 1 (rls_lock s)) s)"
proof -
  note f = thread_facts [OF inv at]
  have own: "owns \<lparr>rt_pc = RlIdle, rt_guards = Write # gs\<rparr>" by (simp add: owns_def)
  note w = owner_word [OF inv at own]
  have clear: "Write \<notin> set gs" if "rl_lock_num (rls_lock s) = - 1"
    using w(1) that by (simp add: write_depth_def count_list_0_iff)
  moreover have "Write \<in> set gs" if "rl_lock_num (rls_lock s) \<noteq> - 1" "rl_write_thread_id (rls_lock s) = Some i"
    using w(2) that count_list_0_iff [of gs Write] by (fastforce simp: write_depth_def)
  ultimately have "thread_ok (rl_write_thread_id (rls_lock s)) i \<lparr>rt_pc = pc, rt_guards = gs\<rparr>"
    using f(1) pc by (auto simp: thread_ok_def owns_def)
  moreover have "rl_lock_num (rls_lock s) + 1 = - int (write_depth \<lparr>rt_pc = pc, rt_guards = gs\<rparr>)"
    if "rl_write_thread_id (rls_lock s) = Some i \<or> pc = RlWriteGot" using w(2) that pc by (auto simp: write_depth_def split: if_splits)
  ultimately show ?thesis using pc
    by (intro inv_owner_step [OF inv at own, where k = 1 and m = 0]) (auto simp: write_depth_def counted_def rl_add_def)
qed

lemma inv_step:
  assumes inv: "rl_inv s" and step: "rl_step s s'"
  shows "rl_inv s'"
  using step
proof (cases rule: rl_step.cases)
  case (read_own i gs)
  then show ?thesis using thread_facts [OF inv read_own(2)] by (auto intro!: inv_goto_same [OF inv] simp: thread_simps)
next
  case (read_call i gs)
  then show ?thesis using thread_facts [OF inv read_call(2)] by (auto intro!: inv_goto_same [OF inv] simp: thread_simps)
next
  case (read_spin i n gs)
  then show ?thesis using thread_facts [OF inv read_spin(2)] by (auto intro!: inv_goto_same [OF inv] simp: thread_simps)
next
  case (read_pass i n gs)
  then show ?thesis using thread_facts [OF inv read_pass(2)]
    by (auto intro!: inv_goto_same [OF inv] simp: thread_simps rl_read_blocked_def)
next
  case (read_fail i n gs)
  then show ?thesis using thread_facts [OF inv read_fail(2)] by (auto intro!: inv_goto_same [OF inv] simp: thread_simps)
next
  case (read_lock i n gs l)
  then show ?thesis using inv_read_lock [OF inv] by blast
next
  case (write_own i gs)
  then show ?thesis using thread_facts [OF inv write_own(2)] by (auto intro!: inv_goto_same [OF inv] simp: thread_simps)
next
  case (write_reenter i gs)
  then show ?thesis using thread_facts [OF inv write_reenter(2)] owner_word(2) [OF inv write_reenter(2)]
    by (auto intro!: inv_owner_step [OF inv write_reenter(2), where k = 0 and m = 1] simp: thread_simps rl_add_def)
next
  case (write_call i gs)
  then show ?thesis using thread_facts [OF inv write_call(2)] by (auto intro!: inv_goto_same [OF inv] simp: thread_simps)
next
  case (write_lock i gs l)
  then show ?thesis using inv_write_lock [OF inv] by blast
next
  case (write_mark i gs)
  then show ?thesis using thread_facts [OF inv write_mark(2)] owner_word(2) [OF inv write_mark(2)]
    by (auto intro!: inv_owner_step [OF inv write_mark(2), where k = 0 and m = 0] simp: thread_simps)
next
  case (write_done i gs)
  then show ?thesis using thread_facts [OF inv write_done(2)] by (auto intro!: inv_goto_same [OF inv] simp: thread_simps)
next
  case (unread_own i g gs)
  then show ?thesis using thread_facts [OF inv unread_own(2)]
    by (cases g) (auto intro!: inv_goto_same [OF inv] simp: thread_simps)
next
  case (unread_call i g gs)
  then show ?thesis using thread_facts [OF inv unread_call(2)] by (auto intro!: inv_goto_same [OF inv] simp: thread_simps)
next
  case (unread i g gs)
  then show ?thesis using inv_unread [OF inv] by blast
next
  case (unwrite_last i gs)
  then show ?thesis using inv_unwrite [OF inv] by simp
next
  case (unwrite_nested i gs)
  then show ?thesis using inv_unwrite [OF inv] by simp
next
  case (clear i gs)
  then show ?thesis using thread_facts [OF inv clear(2)] by (auto intro!: inv_goto_same [OF inv] simp: thread_simps)
qed (use inv in simp)

lemma inv_runs: "runs rl_step (rls_init first n) s \<Longrightarrow> rl_inv s \<and> length (rls_threads s) = n"
proof (induction rule: runs.induct)
  case runs_refl
  have "total (replicate n \<lparr>rt_pc = RlIdle, rt_guards = []\<rparr>) = 0" by (simp add: total_def counted_def sum_list_replicate)
  then show ?case by (auto simp: rl_inv_def rls_init_def ReentrantRWLock_def thread_simps word_ok_def exact_def)
next
  case (runs_step s s')
  have "length (rls_threads s') = length (rls_threads s)" using runs_step(2) by cases (simp_all add: rl_goto_def)
  then show ?case using runs_step inv_step by auto
qed

text \<open>
  Claim C32. A thread that holds a \<^verbatim>\<open>ReentrantRWLock\<close> for writing, once or several times, is alone: in every
  interleaving of any number of threads with nested guards, no other thread holds a guard of the lock.
\<close>

theorem reentrant_rw_lock_exclusive:
  assumes "runs rl_step (rls_init first n) s" "i < n" "j < n" "j \<noteq> i" "Write \<in> set (rt_guards (rls_threads s ! i))"
  shows "rt_guards (rls_threads s ! j) = []"
proof -
  have inv: "rl_inv s" and n: "length (rls_threads s) = n" using inv_runs [OF assms(1)] by auto
  have w: "word_ok (rl_lock_num (rls_lock s)) (rls_threads s)" using inv by (simp add: rl_inv_def)
  have own: "owns (rls_threads s ! i)" using assms(5) by (simp add: owns_def)
  have "\<not> owns (rls_threads s ! j)" using others_own_not [OF w _ own] assms n by simp
  then have nw: "Write \<notin> set (rt_guards (rls_threads s ! j))" by (simp add: owns_def)
  have "total (rls_threads s) = 0" using w own assms(2) n unfolding word_ok_def by metis
  then have "counted (rls_threads s ! j) = 0" using counted_le_total [of j "rls_threads s"] assms(3) n by simp
  then have "CountedRead \<notin> set (rt_guards (rls_threads s ! j))" by (simp add: counted_def count_list_0_iff)
  moreover have "FreeRead \<notin> set (rt_guards (rls_threads s ! j))"
    using inv assms(3) n by (intro stacked_free [OF _ nw]) (simp add: rl_inv_def thread_ok_def)
  ultimately have "g \<notin> set (rt_guards (rls_threads s ! j))" for g using nw by (cases g) auto
  then show ?thesis by (metis last_in_set)
qed

section \<open>The late reset of the writer\<close>

definition two_threads :: "nat option \<Rightarrow> nat \<Rightarrow> int \<Rightarrow> rl_pc \<Rightarrow> rl_guard list \<Rightarrow> rl_pc \<Rightarrow> rl_guard list \<Rightarrow> rl_sys" where
  "two_threads writer waiting n pc gs pc' gs' =
     \<lparr>rls_lock = \<lparr>rl_write_thread_id = writer, rl_write_lock_wait_num = waiting, rl_lock_num = n, rl_write_first = True\<rparr>,
      rls_threads = [\<lparr>rt_pc = pc, rt_guards = gs\<rparr>, \<lparr>rt_pc = pc', rt_guards = gs'\<rparr>]\<rparr>"

lemmas two_simps = two_threads_def rl_goto_def rl_add_def rl_cas_def

lemma first_releases_word: "runs rl_step (rls_init True 2) (two_threads (Some 0) 0 0 RlClear [] RlIdle [])"
proof -
  have "rls_init True 2 = two_threads None 0 0 RlIdle [] RlIdle []"
    by (simp add: rls_init_def ReentrantRWLock_def two_threads_def numeral_2_eq_2)
  then have r0: "runs rl_step (rls_init True 2) (two_threads None 0 0 RlIdle [] RlIdle [])" by (simp add: runs_refl)
  have "rl_step (two_threads None 0 0 RlIdle [] RlIdle []) (two_threads None 1 0 RlWriteTry [] RlIdle [])"
    using rl_step.write_call [where s = "two_threads None 0 0 RlIdle [] RlIdle []" and i = 0 and gs = "[]"] by (simp add: two_simps)
  note r1 = runs_step [OF r0 this]
  have "rl_step (two_threads None 1 0 RlWriteTry [] RlIdle []) (two_threads None 1 (- 1) RlWriteGot [] RlIdle [])"
    using rl_step.write_lock [where s = "two_threads None 1 0 RlWriteTry [] RlIdle []" and i = 0 and gs = "[]"] by (simp add: two_simps)
  note r2 = runs_step [OF r1 this]
  have "rl_step (two_threads None 1 (- 1) RlWriteGot [] RlIdle []) (two_threads (Some 0) 1 (- 1) RlWriteMarked [] RlIdle [])"
    using rl_step.write_mark [where s = "two_threads None 1 (- 1) RlWriteGot [] RlIdle []" and i = 0 and gs = "[]"] by (simp add: two_simps)
  note r3 = runs_step [OF r2 this]
  have "rl_step (two_threads (Some 0) 1 (- 1) RlWriteMarked [] RlIdle []) (two_threads (Some 0) 0 (- 1) RlIdle [Write] RlIdle [])"
    using rl_step.write_done [where s = "two_threads (Some 0) 1 (- 1) RlWriteMarked [] RlIdle []" and i = 0 and gs = "[]"] by (simp add: two_simps)
  note r4 = runs_step [OF r3 this]
  have "rl_step (two_threads (Some 0) 0 (- 1) RlIdle [Write] RlIdle []) (two_threads (Some 0) 0 0 RlClear [] RlIdle [])"
    using rl_step.unwrite_last [where s = "two_threads (Some 0) 0 (- 1) RlIdle [Write] RlIdle []" and i = 0 and gs = "[]"] by (simp add: two_simps)
  then show ?thesis by (rule runs_step [OF r4])
qed

lemma second_writes_and_reads: "runs rl_step (rls_init True 2) (two_threads (Some 1) 0 (- 1) RlClear [] RlIdle [FreeRead, Write])"
proof -
  note r5 = first_releases_word
  have "rl_step (two_threads (Some 0) 0 0 RlClear [] RlIdle []) (two_threads (Some 0) 1 0 RlClear [] RlWriteTry [])"
    using rl_step.write_call [where s = "two_threads (Some 0) 0 0 RlClear [] RlIdle []" and i = 1 and gs = "[]"] by (simp add: two_simps)
  note r6 = runs_step [OF r5 this]
  have "rl_step (two_threads (Some 0) 1 0 RlClear [] RlWriteTry []) (two_threads (Some 0) 1 (- 1) RlClear [] RlWriteGot [])"
    using rl_step.write_lock [where s = "two_threads (Some 0) 1 0 RlClear [] RlWriteTry []" and i = 1 and gs = "[]"] by (simp add: two_simps)
  note r7 = runs_step [OF r6 this]
  have "rl_step (two_threads (Some 0) 1 (- 1) RlClear [] RlWriteGot []) (two_threads (Some 1) 1 (- 1) RlClear [] RlWriteMarked [])"
    using rl_step.write_mark [where s = "two_threads (Some 0) 1 (- 1) RlClear [] RlWriteGot []" and i = 1 and gs = "[]"] by (simp add: two_simps)
  note r8 = runs_step [OF r7 this]
  have "rl_step (two_threads (Some 1) 1 (- 1) RlClear [] RlWriteMarked []) (two_threads (Some 1) 0 (- 1) RlClear [] RlIdle [Write])"
    using rl_step.write_done [where s = "two_threads (Some 1) 1 (- 1) RlClear [] RlWriteMarked []" and i = 1 and gs = "[]"] by (simp add: two_simps)
  note r9 = runs_step [OF r8 this]
  have "rl_step (two_threads (Some 1) 0 (- 1) RlClear [] RlIdle [Write]) (two_threads (Some 1) 0 (- 1) RlClear [] RlIdle [FreeRead, Write])"
    using rl_step.read_own [where s = "two_threads (Some 1) 0 (- 1) RlClear [] RlIdle [Write]" and i = 1 and gs = "[Write]"] by (simp add: two_simps)
  then show ?thesis by (rule runs_step [OF r9])
qed

theorem reentrant_rw_lock_exclusive_witness:
  "rt_guards (rls_threads (two_threads (Some 1) 0 (- 1) RlClear [] RlIdle [FreeRead, Write]) ! 0) = []"
  by (rule reentrant_rw_lock_exclusive [OF second_writes_and_reads, of 1]) (simp_all add: two_threads_def)

lemma late_reset_spoils_word: "runs rl_step (rls_init True 2) (two_threads None 0 (- 1) RlIdle [] RlIdle [])"
proof -
  note r10 = second_writes_and_reads
  have "rl_step (two_threads (Some 1) 0 (- 1) RlClear [] RlIdle [FreeRead, Write]) (two_threads None 0 (- 1) RlIdle [] RlIdle [FreeRead, Write])"
    using rl_step.clear [where s = "two_threads (Some 1) 0 (- 1) RlClear [] RlIdle [FreeRead, Write]" and i = 0 and gs = "[]"] by (simp add: two_simps)
  note r11 = runs_step [OF r10 this]
  have "rl_step (two_threads None 0 (- 1) RlIdle [] RlIdle [FreeRead, Write]) (two_threads None 0 (- 1) RlIdle [] RlUncount [FreeRead, Write])"
    using rl_step.unread_call [where s = "two_threads None 0 (- 1) RlIdle [] RlIdle [FreeRead, Write]" and i = 1 and g = FreeRead and gs = "[Write]"] by (simp add: two_simps)
  note r12 = runs_step [OF r11 this]
  have "rl_step (two_threads None 0 (- 1) RlIdle [] RlUncount [FreeRead, Write]) (two_threads None 0 (- 2) RlIdle [] RlIdle [Write])"
    using rl_step.unread [where s = "two_threads None 0 (- 1) RlIdle [] RlUncount [FreeRead, Write]" and i = 1 and g = FreeRead and gs = "[Write]"] by (simp add: two_simps)
  note r13 = runs_step [OF r12 this]
  have "rl_step (two_threads None 0 (- 2) RlIdle [] RlIdle [Write]) (two_threads None 0 (- 1) RlIdle [] RlIdle [])"
    using rl_step.unwrite_nested [where s = "two_threads None 0 (- 2) RlIdle [] RlIdle [Write]" and i = 1 and gs = "[]"] by (simp add: two_simps)
  then show ?thesis by (rule runs_step [OF r13])
qed

text \<open>A lock whose word is left at \<open>-1\<close> with no holder: nobody ever gets it.\<close>

definition lost :: "rl_sys \<Rightarrow> bool" where
  "lost s \<longleftrightarrow> rl_lock_num (rls_lock s) = - 1 \<and> rl_write_thread_id (rls_lock s) = None
     \<and> (\<forall>t\<in>set (rls_threads s). rt_guards t = [] \<and> rt_pc t \<in> {RlIdle, RlReadSpin (- 1), RlWriteTry})"

lemma lost_step:
  assumes "lost s" "rl_step s s'"
  shows "lost s'"
proof -
  have at: "gs = [] \<and> pc \<in> {RlIdle, RlReadSpin (- 1), RlWriteTry}" if "rl_at s i pc gs" for i pc gs
    using that assms(1) nth_mem [of i "rls_threads s"] by (fastforce simp: lost_def)
  have goto: "lost (rl_goto i pc [] l s)"
    if "pc \<in> {RlIdle, RlReadSpin (- 1), RlWriteTry}" "rl_lock_num l = - 1" "rl_write_thread_id l = None" for i pc l
    using that assms(1) by (auto simp: lost_def rl_goto_def dest!: subsetD [OF set_update_subset_insert])
  have n: "rl_lock_num (rls_lock s) = - 1" "rl_write_thread_id (rls_lock s) = None" using assms(1) by (simp_all add: lost_def)
  from assms(2) show ?thesis
  proof cases
    case (read_call i gs)
    then show ?thesis using at [OF read_call(2)] goto n by simp
  next
    case (read_spin i m gs)
    then show ?thesis using at [OF read_spin(2)] goto n by simp
  next
    case (read_pass i m gs)
    then show ?thesis using at [OF read_pass(2)] by (simp add: rl_read_blocked_def)
  next
    case (write_call i gs)
    then show ?thesis using at [OF write_call(2)] goto n by simp
  next
    case (write_lock i gs l)
    then show ?thesis using n by (simp add: rl_cas_def)
  qed (use assms(1) n in \<open>auto dest: at [OF conjI]\<close>)
qed

text \<open>
  Claim C33. The release of the write lock first frees the word and then resets the id of the writer. When
  another thread becomes the writer in between and reads inside its write, the reset takes away its id,
  its release of the read is counted, and the word stays at \<open>-1\<close> when all threads have released everything:
  from then on, whatever the threads do, none of them ever holds the lock again.
\<close>

theorem late_reset_loses_lock:
  "\<exists>s. runs rl_step (rls_init True 2) s \<and> rls_threads s = replicate 2 \<lparr>rt_pc = RlIdle, rt_guards = []\<rparr>
     \<and> \<not> (\<exists>s' t. runs rl_step s s' \<and> t \<in> set (rls_threads s') \<and> rt_guards t \<noteq> [])"
proof (intro exI conjI notI)
  let ?s = "two_threads None 0 (- 1) RlIdle [] RlIdle []"
  show "runs rl_step (rls_init True 2) ?s" by (rule late_reset_spoils_word)
  show "rls_threads ?s = replicate 2 \<lparr>rt_pc = RlIdle, rt_guards = []\<rparr>" by (simp add: two_threads_def numeral_2_eq_2)
  assume "\<exists>s' t. runs rl_step ?s s' \<and> t \<in> set (rls_threads s') \<and> rt_guards t \<noteq> []"
  then obtain s' t where "runs rl_step ?s s'" and t: "t \<in> set (rls_threads s')" "rt_guards t \<noteq> []" by blast
  from this(1) have "lost s'"
  proof (induction rule: runs.induct)
    case runs_refl
    then show ?case by (simp add: lost_def two_threads_def)
  qed (rule lost_step)
  then show False using t by (simp add: lost_def)
qed

end
