(* ===== verification/Data_Buffer.thy ===== *)
theory Data_Buffer
  imports Cyber_Prelude "HOL-Library.Sublist"
begin

text \<open>
  The message cache of a reader: \<^verbatim>\<open>cyber/data/cache_buffer.h\<close> and
  \<^verbatim>\<open>cyber/data/channel_buffer.h\<close>.

  \<open>cache_buffer\<close> is the ring buffer with its 64-bit positions; \<open>Fetch\<close>, \<open>Latest\<close> and
  \<open>FetchMulti\<close> are the reads of \<^verbatim>\<open>ChannelBuffer\<close>. The mutexes make every operation
  atomic, so an operation is a function on the buffer. The fusion callback, a closure over
  the fusion object that installed it, is represented by the identity of that object; what it
  does is in theory \<^verbatim>\<open>Data_Dispatch\<close>.

  The abstract view is the list of all values ever filled (\<open>cb_rep\<close>). The lemmas show that
  the ring keeps exactly the last ones, and what each read returns in terms of that list.
\<close>

section \<open>CacheBuffer\<close>

record 'a cache_buffer =
  cb_head :: u64
  cb_tail :: u64
  cb_capacity :: u64
  cb_buffer :: "'a list"
  cb_callback :: "nat option"

text \<open>The constructor; \<open>dflt\<close> is the value-initialised element that \<^verbatim>\<open>resize\<close> stores.\<close>

definition CacheBuffer :: "'a \<Rightarrow> u64 \<Rightarrow> 'a cache_buffer" where
  "CacheBuffer dflt sz =
     \<lparr>cb_head = 0, cb_tail = 0, cb_capacity = sz + 1,
      cb_buffer = replicate (unat (sz + 1)) dflt, cb_callback = None\<rparr>"

definition cb_GetIndex :: "'a cache_buffer \<Rightarrow> u64 \<Rightarrow> nat" where
  "cb_GetIndex cb pos = unat (pos mod cb_capacity cb)"

definition cb_at :: "'a cache_buffer \<Rightarrow> u64 \<Rightarrow> 'a" where
  "cb_at cb pos = cb_buffer cb ! cb_GetIndex cb pos"

definition cb_Head :: "'a cache_buffer \<Rightarrow> u64" where
  "cb_Head cb = cb_head cb + 1"

definition cb_Tail :: "'a cache_buffer \<Rightarrow> u64" where
  "cb_Tail cb = cb_tail cb"

definition cb_Size :: "'a cache_buffer \<Rightarrow> u64" where
  "cb_Size cb = cb_tail cb - cb_head cb"

definition cb_Front :: "'a cache_buffer \<Rightarrow> 'a" where
  "cb_Front cb = cb_buffer cb ! cb_GetIndex cb (cb_head cb + 1)"

definition cb_Back :: "'a cache_buffer \<Rightarrow> 'a" where
  "cb_Back cb = cb_buffer cb ! cb_GetIndex cb (cb_tail cb)"

definition cb_Empty :: "'a cache_buffer \<Rightarrow> bool" where
  "cb_Empty cb = (cb_tail cb = 0)"

definition cb_Full :: "'a cache_buffer \<Rightarrow> bool" where
  "cb_Full cb = (cb_capacity cb - 1 = cb_tail cb - cb_head cb)"

definition cb_SetFusionCallback :: "nat \<Rightarrow> 'a cache_buffer \<Rightarrow> 'a cache_buffer" where
  "cb_SetFusionCallback f cb = cb\<lparr>cb_callback := Some f\<rparr>"

text \<open>\<^verbatim>\<open>Fill\<close> of a buffer that has no fusion callback.\<close>

definition cb_fill_ring :: "'a \<Rightarrow> 'a cache_buffer \<Rightarrow> 'a cache_buffer" where
  "cb_fill_ring v cb =
     (if cb_Full cb
      then cb\<lparr>cb_buffer := (cb_buffer cb)[cb_GetIndex cb (cb_head cb) := v],
              cb_head := cb_head cb + 1, cb_tail := cb_tail cb + 1\<rparr>
      else cb\<lparr>cb_buffer := (cb_buffer cb)[cb_GetIndex cb (cb_tail cb + 1) := v],
              cb_tail := cb_tail cb + 1\<rparr>)"

section \<open>ChannelBuffer\<close>

text \<open>
  \<^verbatim>\<open>Fetch(index, m)\<close>: \<open>None\<close> is the result false, which leaves \<^verbatim>\<open>*index\<close> as it was;
  \<open>Some (i, m)\<close> is true with the new \<^verbatim>\<open>*index\<close> and the message.
\<close>

definition Fetch :: "u64 \<Rightarrow> 'a cache_buffer \<Rightarrow> (u64 \<times> 'a) option" where
  "Fetch index cb =
     (if cb_Empty cb then None
      else if index = 0 then Some (cb_Tail cb, cb_at cb (cb_Tail cb))
      else if index = cb_Tail cb + 1 then None
      else if index < cb_Head cb then Some (cb_Tail cb, cb_at cb (cb_Tail cb))
      else Some (index, cb_at cb index))"

definition Latest :: "'a cache_buffer \<Rightarrow> 'a option" where
  "Latest cb = (if cb_Empty cb then None else Some (cb_Back cb))"

text \<open>The loop of \<^verbatim>\<open>FetchMulti\<close>; \<open>None\<close> is a loop that does not end.\<close>

partial_function (option) fetch_loop :: "'a cache_buffer \<Rightarrow> u64 \<Rightarrow> 'a list \<Rightarrow> 'a list option" where
  "fetch_loop cb index vec =
     (if index \<le> cb_Tail cb then fetch_loop cb (index + 1) (vec @ [cb_at cb index])
      else Some vec)"

definition FetchMulti :: "u64 \<Rightarrow> 'a list \<Rightarrow> 'a cache_buffer \<Rightarrow> (bool \<times> 'a list) option" where
  "FetchMulti fetch_size vec cb =
     (if cb_Empty cb then Some (False, vec)
      else let num = min (cb_Size cb) fetch_size in
        map_option (Pair True) (fetch_loop cb (cb_Tail cb - num + 1) vec))"

lemmas cb_op_defs = cb_GetIndex_def cb_at_def cb_Head_def cb_Tail_def cb_Size_def cb_Front_def
  cb_Back_def cb_Empty_def cb_Full_def

section \<open>The history a buffer represents\<close>

text \<open>
  \<open>cb_rep cb hist\<close>: \<open>hist\<close> is everything filled into the ring so far. The positions
  \<^verbatim>\<open>head_ + 1\<close> to \<^verbatim>\<open>tail_\<close> are the last \<^verbatim>\<open>capacity_ - 1\<close> values, and position \<open>k\<close> holds
  the \<open>k\<close>-th value (counting from 1) as long as it is among the last \<^verbatim>\<open>capacity_\<close> ones.
\<close>

definition cb_rep :: "'a cache_buffer \<Rightarrow> 'a list \<Rightarrow> bool" where
  "cb_rep cb hist =
     (0 < unat (cb_capacity cb) \<and>
      length (cb_buffer cb) = unat (cb_capacity cb) \<and>
      unat (cb_tail cb) = length hist \<and>
      unat (cb_head cb) = length hist - (unat (cb_capacity cb) - 1) \<and>
      (\<forall>k. 0 < k \<and> k \<le> length hist \<and> length hist < k + unat (cb_capacity cb) \<longrightarrow>
         cb_buffer cb ! (k mod unat (cb_capacity cb)) = hist ! (k - 1)))"

declare cb_rep_def [inv_defs]

lemma cb_rep_facts:
  assumes "cb_rep cb hist"
  shows "0 < unat (cb_capacity cb)"
    and "length (cb_buffer cb) = unat (cb_capacity cb)"
    and "unat (cb_tail cb) = length hist"
    and "unat (cb_head cb) = length hist - (unat (cb_capacity cb) - 1)"
    and "unat (cb_head cb) \<le> length hist"
  using assms unfolding cb_rep_def by linarith+

lemma cb_rep_slot:
  "cb_rep cb hist \<Longrightarrow> 0 < k \<Longrightarrow> k \<le> length hist \<Longrightarrow> length hist < k + unat (cb_capacity cb) \<Longrightarrow>
   cb_buffer cb ! (k mod unat (cb_capacity cb)) = hist ! (k - 1)"
  unfolding cb_rep_def by blast

lemma cb_rep_new:
  assumes "unat sz + 1 < 2 ^ 64"
  shows "cb_rep (CacheBuffer d sz) []"
  using assms unat_plus_one [of sz] by (simp add: cb_rep_def CacheBuffer_def)

lemma cb_rep_callback [simp]: "cb_rep (cb\<lparr>cb_callback := c\<rparr>) hist = cb_rep cb hist"
  by (simp add: cb_rep_def)

lemma cb_Full_iff:
  assumes "cb_rep cb hist"
  shows "cb_Full cb \<longleftrightarrow> unat (cb_capacity cb) - 1 \<le> length hist"
proof -
  note facts = cb_rep_facts [OF assms]
  have "unat (cb_capacity cb - 1) = unat (cb_capacity cb) - 1"
    using facts(1) by (subst unat_diff_le) simp_all
  moreover have "unat (cb_tail cb - cb_head cb) = length hist - unat (cb_head cb)"
    using facts(3,5) by (subst unat_diff_le) simp_all
  ultimately show ?thesis
    using facts(4) by (auto simp: cb_Full_def word_unat_eq_iff)
qed

lemma mod_neq_near:
  fixes k n c :: nat
  assumes "k < n" "n < k + c"
  shows "k mod c \<noteq> n mod c"
proof
  assume "k mod c = n mod c"
  then have "c dvd n - k" using assms mod_eq_dvd_iff_nat [of k n c] by simp
  with assms show False by (auto dest: dvd_imp_le)
qed

lemma cb_fill_ring_slot:
  assumes rep: "cb_rep cb hist" and room: "length hist + 1 < 2 ^ 64"
  shows "cb_buffer (cb_fill_ring v cb) =
      (cb_buffer cb)[(length hist + 1) mod unat (cb_capacity cb) := v]"
    and "unat (cb_tail (cb_fill_ring v cb)) = length hist + 1"
    and "unat (cb_head (cb_fill_ring v cb)) = length hist + 1 - (unat (cb_capacity cb) - 1)"
    and "cb_capacity (cb_fill_ring v cb) = cb_capacity cb"
proof -
  let ?c = "unat (cb_capacity cb)" and ?n = "length hist"
  have t: "unat (cb_tail cb) = ?n" and h: "unat (cb_head cb) = ?n - (?c - 1)" and c: "0 < ?c"
    using cb_rep_facts [OF rep] by simp_all
  have t1: "unat (cb_tail cb + 1) = ?n + 1"
    using room t by (subst unat_plus_one) auto
  have h1: "unat (cb_head cb + 1) = ?n - (?c - 1) + 1"
    using room h by (subst unat_plus_one) auto
  have full: "(?n - (?c - 1)) mod ?c = (?n + 1) mod ?c" if "?c - 1 \<le> ?n"
  proof -
    have "?n + 1 = (?n - (?c - 1)) + ?c" using that c by arith
    then show ?thesis by (simp only: mod_add_self2)
  qed
  show "cb_buffer (cb_fill_ring v cb) = (cb_buffer cb)[(?n + 1) mod ?c := v]"
  proof (cases "cb_Full cb")
    case True
    then have "(?n - (?c - 1)) mod ?c = (?n + 1) mod ?c"
      using full cb_Full_iff [OF rep] by blast
    with True h show ?thesis by (simp add: cb_fill_ring_def cb_GetIndex_def unat_mod)
  next
    case False
    with t1 show ?thesis by (simp add: cb_fill_ring_def cb_GetIndex_def unat_mod)
  qed
  show "unat (cb_tail (cb_fill_ring v cb)) = ?n + 1"
    using t1 by (simp add: cb_fill_ring_def)
  show "unat (cb_head (cb_fill_ring v cb)) = ?n + 1 - (?c - 1)"
    using h h1 c cb_Full_iff [OF rep] unfolding cb_fill_ring_def by (cases "cb_Full cb") auto
  show "cb_capacity (cb_fill_ring v cb) = cb_capacity cb"
    by (simp add: cb_fill_ring_def)
qed

lemma cb_rep_fill:
  assumes rep: "cb_rep cb hist" and room: "length hist + 1 < 2 ^ 64"
  shows "cb_rep (cb_fill_ring v cb) (hist @ [v])"
proof -
  let ?c = "unat (cb_capacity cb)" and ?n = "length hist"
  note slot = cb_fill_ring_slot [OF rep room, of v]
  have c: "0 < ?c" and len: "length (cb_buffer cb) = ?c"
    using cb_rep_facts [OF rep] by simp_all
  have "cb_buffer (cb_fill_ring v cb) ! (k mod ?c) = (hist @ [v]) ! (k - 1)"
    if k: "0 < k" "k \<le> ?n + 1" "?n + 1 < k + ?c" for k
  proof (cases "k = ?n + 1")
    case True
    with c len show ?thesis by (simp add: slot(1))
  next
    case False
    with k have "(?n + 1) mod ?c \<noteq> k mod ?c" using mod_neq_near [of k "?n + 1" ?c] by simp
    moreover have "k - 1 < ?n" using False k by arith
    ultimately show ?thesis using cb_rep_slot [OF rep, of k] k by (simp add: slot(1) nth_append)
  qed
  then show ?thesis using c len slot by (simp add: cb_rep_def)
qed

text \<open>A ring filled with a list of values from its construction represents that list.\<close>

lemma cb_rep_fills:
  assumes "unat sz + 1 < 2 ^ 64" and "length vs < 2 ^ 64"
  shows "cb_rep (fold cb_fill_ring vs (CacheBuffer d sz)) vs"
  using assms(2)
proof (induction vs rule: rev_induct)
  case Nil
  show ?case using cb_rep_new [OF assms(1)] by simp
next
  case (snoc v vs)
  then show ?case using cb_rep_fill [of "fold cb_fill_ring vs (CacheBuffer d sz)" vs v] by simp
qed

section \<open>What the reads return\<close>

lemma cb_at_rep:
  assumes "cb_rep cb hist" "0 < unat i" "unat i \<le> length hist"
    "length hist < unat i + unat (cb_capacity cb)"
  shows "cb_at cb i = hist ! (unat i - 1)"
  using cb_rep_slot [OF assms] by (simp add: cb_at_def cb_GetIndex_def unat_mod)

lemma cb_Tail_rep: "cb_rep cb hist \<Longrightarrow> unat (cb_Tail cb) = length hist"
  by (simp add: cb_rep_facts(3) cb_Tail_def)

lemma cb_Empty_rep: "cb_rep cb hist \<Longrightarrow> cb_Empty cb \<longleftrightarrow> hist = []"
  by (simp add: cb_Empty_def word_unat_eq_iff cb_rep_facts(3))

lemma cb_at_Tail_rep: "cb_rep cb hist \<Longrightarrow> hist \<noteq> [] \<Longrightarrow> cb_at cb (cb_Tail cb) = last hist"
  using cb_at_rep [of cb hist "cb_Tail cb"] cb_Tail_rep [of cb hist] cb_rep_facts(1) [of cb hist]
  by (simp add: last_conv_nth)

lemma cb_Back_at: "cb_Back cb = cb_at cb (cb_Tail cb)"
  by (simp add: cb_op_defs)

lemma Latest_rep:
  "cb_rep cb hist \<Longrightarrow> Latest cb = (if hist = [] then None else Some (last hist))"
  by (simp add: Latest_def cb_Empty_rep cb_Back_at cb_at_Tail_rep)

text \<open>The specification of \<^verbatim>\<open>Fetch\<close> on the history, with natural numbers for positions.\<close>

definition fetch_spec :: "nat \<Rightarrow> 'a list \<Rightarrow> nat \<Rightarrow> (nat \<times> 'a) option" where
  "fetch_spec sz hist i =
     (if hist = [] \<or> i = length hist + 1 then None
      else if i = 0 \<or> i \<le> length hist - sz then Some (length hist, last hist)
      else Some (i, hist ! (i - 1)))"

lemma Fetch_refines:
  assumes rep: "cb_rep cb hist" and room: "length hist + 1 < 2 ^ 64"
    and i: "unat i \<le> length hist + 1"
  shows "map_option (\<lambda>(j, m). (unat j, m)) (Fetch i cb) =
    fetch_spec (unat (cb_capacity cb) - 1) hist (unat i)"
proof -
  let ?c = "unat (cb_capacity cb)"
  have c: "0 < ?c" using rep by (rule cb_rep_facts)
  have t: "unat (cb_Tail cb) = length hist" using rep by (rule cb_Tail_rep)
  have t1: "i = cb_Tail cb + 1 \<longleftrightarrow> unat i = length hist + 1"
    using t room unat_plus_one [of "cb_Tail cb"] by (auto simp: word_unat_eq_iff)
  have "unat (cb_Head cb) = length hist - (?c - 1) + 1"
    using room cb_rep_facts(4,5) [OF rep] unat_plus_one [of "cb_head cb"] by (simp add: cb_Head_def)
  then have h: "i < cb_Head cb \<longleftrightarrow> unat i \<le> length hist - (?c - 1)"
    by (auto simp: word_less_nat_alt)
  have i0: "i = 0 \<longleftrightarrow> unat i = 0" by (auto simp: word_unat_eq_iff)
  show ?thesis
  proof (cases "hist = [] \<or> unat i = length hist + 1 \<or> unat i = 0 \<or> unat i \<le> length hist - (?c - 1)")
    case True
    then show ?thesis
      by (auto simp: Fetch_def fetch_spec_def cb_Empty_rep [OF rep] t1 h i0 t
          cb_at_Tail_rep [OF rep])
  next
    case False
    then have "cb_at cb i = hist ! (unat i - 1)"
      using c i by (intro cb_at_rep [OF rep]) auto
    with False show ?thesis
      by (simp add: Fetch_def fetch_spec_def cb_Empty_rep [OF rep] t1 h i0)
  qed
qed

lemma fetch_loop_returns:
  assumes "unat (cb_Tail cb) + 1 < 2 ^ 64" "unat i \<le> unat (cb_Tail cb) + 1"
  shows "fetch_loop cb i vec =
    Some (vec @ map (\<lambda>k. cb_at cb (of_nat k)) [unat i ..< unat (cb_Tail cb) + 1])"
  using assms(2)
proof (induction "unat (cb_Tail cb) + 1 - unat i" arbitrary: i vec)
  case 0
  then have "\<not> i \<le> cb_Tail cb" by (simp add: word_le_nat_alt)
  with 0 show ?case by (simp add: fetch_loop.simps [of cb i])
next
  case (Suc n)
  then have le: "i \<le> cb_Tail cb" by (simp add: word_le_nat_alt)
  have i1: "unat (i + 1) = unat i + 1"
    using Suc assms(1) by (subst unat_plus_one) auto
  have "fetch_loop cb (i + 1) (vec @ [cb_at cb i]) =
      Some ((vec @ [cb_at cb i]) @
        map (\<lambda>k. cb_at cb (of_nat k)) [unat (i + 1) ..< unat (cb_Tail cb) + 1])"
    using Suc.hyps(2) Suc.prems i1 by (intro Suc.hyps(1)) arith+
  moreover have "[unat i ..< unat (cb_Tail cb) + 1] = unat i # [unat i + 1 ..< unat (cb_Tail cb) + 1]"
    using Suc.hyps(2) by (simp add: upt_conv_Cons del: upt_Suc)
  ultimately show ?case using le i1
    by (simp add: fetch_loop.simps [of cb i] del: upt_Suc)
qed

lemma drop_as_map_nth: "m \<le> length xs \<Longrightarrow> map (\<lambda>k. xs ! (k - 1)) [m + 1 ..< length xs + 1] = drop m xs"
proof (rule nth_equalityI)
  fix i assume "i < length (map (\<lambda>k. xs ! (k - 1)) [m + 1 ..< length xs + 1])"
  then have i: "i < length xs + 1 - (m + 1)" by (simp only: length_map length_upt)
  assume "m \<le> length xs"
  then show "map (\<lambda>k. xs ! (k - 1)) [m + 1 ..< length xs + 1] ! i = drop m xs ! i"
    using i nth_map_upt [OF i, of "\<lambda>k. xs ! (k - 1)"] by (simp del: upt_Suc)
qed (simp del: upt_Suc)

text \<open>\<^verbatim>\<open>FetchMulti\<close> ends and appends the last \<open>min(Size, n)\<close> values in order.\<close>

lemma FetchMulti_rep:
  assumes rep: "cb_rep cb hist" and room: "length hist + 1 < 2 ^ 64"
  shows "FetchMulti n vec cb =
    Some (hist \<noteq> [],
      vec @ drop (length hist - min (unat n) (min (length hist) (unat (cb_capacity cb) - 1))) hist)"
proof (cases "hist = []")
  case True
  then show ?thesis using rep by (simp add: FetchMulti_def cb_Empty_rep)
next
  case False
  let ?c = "unat (cb_capacity cb)"
  let ?s = "min (length hist) (?c - 1)"
  let ?num = "min (cb_Size cb) n"
  have t: "unat (cb_Tail cb) = length hist" using rep by (rule cb_Tail_rep)
  have "unat (cb_Size cb) = unat (cb_tail cb) - unat (cb_head cb)"
    unfolding cb_Size_def using cb_rep_facts(3,5) [OF rep] by (intro unat_diff_le) simp
  then have s: "unat (cb_Size cb) = ?s" using cb_rep_facts(3,4) [OF rep] by linarith
  then have num: "unat ?num = min (unat n) ?s"
    by (auto simp: min_def word_le_nat_alt)
  let ?m = "length hist - unat ?num"
  have "unat (cb_Tail cb - ?num) = ?m"
    using t num by (subst unat_diff_le) auto
  then have first: "unat (cb_Tail cb - ?num + 1) = ?m + 1"
    using room by (subst unat_plus_one) auto
  have "fetch_loop cb (cb_Tail cb - ?num + 1) vec =
      Some (vec @ map (\<lambda>k. cb_at cb (of_nat k)) [?m + 1 ..< length hist + 1])"
    using fetch_loop_returns [of cb "cb_Tail cb - ?num + 1" vec] room t first by simp
  also have "map (\<lambda>k. cb_at cb (of_nat k)) [?m + 1 ..< length hist + 1] =
      map (\<lambda>k. hist ! (k - 1)) [?m + 1 ..< length hist + 1]"
  proof (rule map_cong [OF refl])
    fix k assume "k \<in> set [?m + 1 ..< length hist + 1]"
    then have k: "?m < k" "k \<le> length hist" by auto
    then have u: "unat (of_nat k :: u64) = k" using room by (simp add: unat_of_nat)
    have "length hist < k + ?c" using k num cb_rep_facts(1) [OF rep] by arith
    then show "cb_at cb (of_nat k) = hist ! (k - 1)"
      using cb_at_rep [OF rep, of "of_nat k"] k u by simp
  qed
  also have "\<dots> = drop ?m hist" by (rule drop_as_map_nth) simp
  finally show ?thesis
    using False num by (simp add: FetchMulti_def cb_Empty_rep [OF rep] Let_def)
qed

section \<open>Properties\<close>

lemma capacity_fills:
  assumes "unat q + 1 < 2 ^ 64"
  shows "unat (cb_capacity (fold cb_fill_ring msgs (CacheBuffer null q))) - 1 = unat q"
proof -
  have "cb_capacity (fold cb_fill_ring msgs (CacheBuffer null q)) = q + 1"
    by (induction msgs rule: rev_induct) (simp_all add: CacheBuffer_def cb_fill_ring_def)
  then show ?thesis using assms unat_plus_one [of q] by simp
qed

text \<open>
  \<^verbatim>\<open>FetchMulti\<close> returns, and appends to the vector the most recent messages in publication
  order: as many as asked for, as were published, and as the queue holds, whichever is least. It
  reports failure exactly when nothing was published.
\<close>

lemma fetch_multi_latest:
  assumes "unat q + 1 < 2 ^ 64" and "length msgs + 1 < 2 ^ 64"
  shows "FetchMulti n vec (fold cb_fill_ring msgs (CacheBuffer null q)) =
    Some (msgs \<noteq> [], vec @ drop (length msgs - min (unat n) (min (length msgs) (unat q))) msgs)"
proof -
  let ?cb = "fold cb_fill_ring msgs (CacheBuffer null q)"
  have rep: "cb_rep ?cb msgs"
    using assms(2) by (intro cb_rep_fills [OF assms(1)]) simp
  note cap = capacity_fills [OF assms(1), of msgs null]
  from cap FetchMulti_rep [OF rep assms(2), of n vec] show ?thesis by simp
qed

theorem fetch_multi_latest_witness:
  "FetchMulti 2 [] (fold cb_fill_ring [1, 2, 3, 4, 5] (CacheBuffer (0 :: nat) 3)) = Some (True, [4, 5])"
  using fetch_multi_latest [of 3 "[1, 2, 3, 4, 5]" 2 "[]" "0 :: nat"] by simp

text \<open>
  Claim C5. A fetch at any position returns what the specification on the history says: nothing when
  there is nothing new; the latest message for a new reader and for one that was overrun; the message
  at exactly the reader's position otherwise.
\<close>

theorem fetch_refines_history:
  assumes "unat q + 1 < 2 ^ 64" and "length msgs + 1 < 2 ^ 64" and "unat i \<le> length msgs + 1"
  shows "map_option (\<lambda>(j, m). (unat j, m)) (Fetch i (fold cb_fill_ring msgs (CacheBuffer null q))) =
    fetch_spec (unat q) msgs (unat i)"
proof -
  let ?cb = "fold cb_fill_ring msgs (CacheBuffer null q)"
  have rep: "cb_rep ?cb msgs"
    using assms(2) by (intro cb_rep_fills [OF assms(1)]) simp
  note cap = capacity_fills [OF assms(1), of msgs null]
  from cap Fetch_refines [OF rep assms(2,3)] show ?thesis by simp
qed

theorem fetch_refines_history_witness:
  "map_option (\<lambda>(j, m). (unat j, m)) (Fetch 3 (fold cb_fill_ring [1, 2, 3, 4] (CacheBuffer (0 :: nat) 3))) =
     Some (3, 3) \<and>
   map_option (\<lambda>(j, m). (unat j, m)) (Fetch 1 (fold cb_fill_ring [1, 2, 3, 4] (CacheBuffer (0 :: nat) 3))) =
     Some (4, 4)"
proof -
  have "fetch_spec (unat (3 :: u64)) [1, 2, 3, 4 :: nat] (unat (3 :: u64)) = Some (3, 3)"
    "fetch_spec (unat (3 :: u64)) [1, 2, 3, 4 :: nat] (unat (1 :: u64)) = Some (4, 4)"
    by (simp_all add: fetch_spec_def)
  then show ?thesis
    using fetch_refines_history [of 3 "[1, 2, 3, 4]" 3 "0 :: nat"]
      fetch_refines_history [of 3 "[1, 2, 3, 4]" 1 "0 :: nat"]
    by (simp del: One_nat_def fold_simps fold.simps)
qed

end
