(* ===== verification/Data_Dispatch.thy ===== *)
theory Data_Dispatch
  imports Base_HashMap Data_Buffer
begin

text \<open>
  From a dispatched message to the reader that fetches it: \<^verbatim>\<open>data_dispatcher.h\<close>,
  \<^verbatim>\<open>data_notifier.h\<close>, \<^verbatim>\<open>fusion/all_latest.h\<close>, \<^verbatim>\<open>data_visitor.h\<close> and
  \<^verbatim>\<open>data_visitor_base.h\<close> under \<^verbatim>\<open>cyber/data\<close>.

  The objects are shared by pointer (a visitor and the dispatcher hold the same ring, a fusion
  object is reached from the callback of a ring), so they live in an explicit store,
  \<open>data_state\<close>, and pointers are natural numbers. A pointer that maps to \<open>None\<close> is an
  expired \<^verbatim>\<open>weak_ptr\<close>. There is one \<^verbatim>\<open>DataDispatcher<T>\<close> per message type; the
  first argument of \<open>Dispatch\<close> is the type. Messages of all types are values of \<open>'m\<close>.
  A fused tuple is a list whose head is the message of the first channel; the classes
  \<^verbatim>\<open>AllLatest\<close> and \<^verbatim>\<open>DataVisitor\<close> for two, three and four channels are its lengths two,
  three and four.

  Running the notifier callbacks is the scheduler's affair: \<open>Notify\<close> returns the callbacks it
  invoked, in order.
\<close>

section \<open>Objects\<close>

record 'm all_latest =
  al_m0 :: nat
  al_others :: "nat list"
  al_fusion :: "'m list cache_buffer"

record 'm data_state =
  dst_bufs :: "nat \<Rightarrow> 'm cache_buffer option"
  dst_fusions :: "nat \<Rightarrow> 'm all_latest option"
  dst_dispatchers :: "nat \<Rightarrow> nat list atomic_hash_map"
  dst_notifies_map :: "nat list atomic_hash_map"
  dst_notifiers :: "nat \<Rightarrow> nat option option"
  dst_shutdown :: bool

definition data_init :: "'m data_state" where
  "data_init =
     \<lparr>dst_bufs = (\<lambda>_. None), dst_fusions = (\<lambda>_. None),
      dst_dispatchers = (\<lambda>_. AtomicHashMap 128), dst_notifies_map = AtomicHashMap 128,
      dst_notifiers = (\<lambda>_. None), dst_shutdown = False\<rparr>"

section \<open>DataNotifier\<close>

definition AddNotifier :: "u64 \<Rightarrow> nat \<Rightarrow> 'm data_state \<Rightarrow> 'm data_state" where
  "AddNotifier channel_id notifier st =
     st\<lparr>dst_notifies_map :=
          registry_add ahm_Get ahm_Set channel_id notifier (dst_notifies_map st)\<rparr>"

definition RegisterNotifyCallback :: "nat \<Rightarrow> nat \<Rightarrow> 'm data_state \<Rightarrow> 'm data_state" where
  "RegisterNotifyCallback notifier callback st =
     st\<lparr>dst_notifiers := (dst_notifiers st)(notifier \<mapsto> Some callback)\<rparr>"

fun run_notifiers :: "'m data_state \<Rightarrow> nat list \<Rightarrow> nat list" where
  "run_notifiers st [] = []"
| "run_notifiers st (n # ns) =
     (case dst_notifiers st n of
        Some (Some callback) \<Rightarrow> callback # run_notifiers st ns
      | _ \<Rightarrow> run_notifiers st ns)"

definition Notify :: "u64 \<Rightarrow> 'm data_state \<Rightarrow> bool \<times> nat list" where
  "Notify channel_id st =
     (case ahm_Get (dst_notifies_map st) channel_id of
        Some notifies \<Rightarrow> (True, run_notifiers st notifies)
      | None \<Rightarrow> (False, []))"

section \<open>AllLatest\<close>

text \<open>The \<^verbatim>\<open>Latest\<close> calls of the callback, in order, up to the first that fails.\<close>

fun latest_all :: "'m data_state \<Rightarrow> nat list \<Rightarrow> 'm list option" where
  "latest_all st [] = Some []"
| "latest_all st (b # bs) =
     (case dst_bufs st b of
        None \<Rightarrow> None
      | Some cb \<Rightarrow>
          (case Latest cb of
             None \<Rightarrow> None
           | Some m \<Rightarrow> map_option (Cons m) (latest_all st bs)))"

definition fusion_callback :: "nat \<Rightarrow> 'm \<Rightarrow> 'm data_state \<Rightarrow> 'm data_state" where
  "fusion_callback f m0 st =
     (case dst_fusions st f of
        None \<Rightarrow> st
      | Some al \<Rightarrow>
          (case latest_all st (al_others al) of
             None \<Rightarrow> st
           | Some ms \<Rightarrow>
               st\<lparr>dst_fusions := (dst_fusions st)
                    (f \<mapsto> al\<lparr>al_fusion := cb_fill_ring (m0 # ms) (al_fusion al)\<rparr>)\<rparr>))"

text \<open>The constructor, with \<open>f\<close> the address of the new object.\<close>

definition AllLatest :: "nat \<Rightarrow> nat \<Rightarrow> nat list \<Rightarrow> 'm data_state \<Rightarrow> 'm data_state" where
  "AllLatest f b0 others st =
     (case dst_bufs st b0 of
        None \<Rightarrow> st
      | Some cb0 \<Rightarrow>
          st\<lparr>dst_fusions := (dst_fusions st)
               (f \<mapsto> \<lparr>al_m0 = b0, al_others = others,
                      al_fusion = CacheBuffer [] (cb_capacity cb0 - 1)\<rparr>),
             dst_bufs := (dst_bufs st)(b0 \<mapsto> cb_SetFusionCallback f cb0)\<rparr>)"

definition Fusion :: "u64 \<Rightarrow> 'm all_latest \<Rightarrow> (u64 \<times> 'm list) option" where
  "Fusion index al = Fetch index (al_fusion al)"

section \<open>DataDispatcher\<close>

text \<open>\<^verbatim>\<open>CacheBuffer::Fill\<close> through a pointer: the fusion callback when there is one.\<close>

definition Fill :: "nat \<Rightarrow> 'm \<Rightarrow> 'm data_state \<Rightarrow> 'm data_state" where
  "Fill b m st =
     (case dst_bufs st b of
        None \<Rightarrow> st
      | Some cb \<Rightarrow>
          (case cb_callback cb of
             Some f \<Rightarrow> fusion_callback f m st
           | None \<Rightarrow> st\<lparr>dst_bufs := (dst_bufs st)(b \<mapsto> cb_fill_ring m cb)\<rparr>))"

definition AddBuffer :: "nat \<Rightarrow> u64 \<Rightarrow> nat \<Rightarrow> 'm data_state \<Rightarrow> 'm data_state" where
  "AddBuffer ty channel_id b st =
     st\<lparr>dst_dispatchers := (dst_dispatchers st)
          (ty := registry_add ahm_Get ahm_Set channel_id b (dst_dispatchers st ty))\<rparr>"

fun fill_all :: "nat list \<Rightarrow> 'm \<Rightarrow> 'm data_state \<Rightarrow> 'm data_state" where
  "fill_all [] m st = st"
| "fill_all (b # bs) m st = fill_all bs m (Fill b m st)"

definition Dispatch ::
  "nat \<Rightarrow> u64 \<Rightarrow> 'm \<Rightarrow> 'm data_state \<Rightarrow> bool \<times> nat list \<times> 'm data_state" where
  "Dispatch ty channel_id m st =
     (if dst_shutdown st then (False, [], st)
      else case ahm_Get (dst_dispatchers st ty) channel_id of
        None \<Rightarrow> (False, [], st)
      | Some buffers \<Rightarrow>
          (let st' = fill_all buffers m st; (ok, calls) = Notify channel_id st'
           in (ok, calls, st')))"

section \<open>DataVisitor\<close>

record data_visitor =
  dv_channel_id :: u64
  dv_buffer :: nat
  dv_next_msg_index :: u64
  dv_notifier :: nat

text \<open>
  The constructor for one channel. \<open>b\<close> and \<open>n\<close> are the addresses of the new ring and the new
  \<^verbatim>\<open>Notifier\<close>, \<open>null\<close> the empty \<^verbatim>\<open>shared_ptr\<close>.
\<close>

definition DataVisitor ::
  "'m \<Rightarrow> nat \<Rightarrow> u64 \<Rightarrow> u32 \<Rightarrow> nat \<Rightarrow> nat \<Rightarrow> 'm data_state \<Rightarrow> data_visitor \<times> 'm data_state" where
  "DataVisitor null ty channel_id queue_size b n st =
     (let st1 = st\<lparr>dst_bufs := (dst_bufs st)(b \<mapsto> CacheBuffer null (ucast queue_size)),
                   dst_notifiers := (dst_notifiers st)(n \<mapsto> None)\<rparr>;
          st2 = AddBuffer ty channel_id b st1;
          st3 = AddNotifier channel_id n st2
      in (\<lparr>dv_channel_id = channel_id, dv_buffer = b, dv_next_msg_index = 0, dv_notifier = n\<rparr>, st3))"

definition TryFetch :: "data_visitor \<Rightarrow> 'm data_state \<Rightarrow> ('m \<times> data_visitor) option" where
  "TryFetch dv st =
     (case dst_bufs st (dv_buffer dv) of
        None \<Rightarrow> None
      | Some cb \<Rightarrow>
          (case Fetch (dv_next_msg_index dv) cb of
             None \<Rightarrow> None
           | Some (i, m) \<Rightarrow> Some (m, dv\<lparr>dv_next_msg_index := i + 1\<rparr>)))"

text \<open>
  The constructor for several channels: each configuration is the type, the channel, the queue
  size and the address of its ring.
\<close>

fun add_configs :: "'m \<Rightarrow> (nat \<times> u64 \<times> u32 \<times> nat) list \<Rightarrow> 'm data_state \<Rightarrow> 'm data_state" where
  "add_configs null [] st = st"
| "add_configs null ((ty, channel_id, queue_size, b) # cs) st =
     add_configs null cs
       (AddBuffer ty channel_id b
         (st\<lparr>dst_bufs := (dst_bufs st)(b \<mapsto> CacheBuffer null (ucast queue_size))\<rparr>))"

record fusion_visitor =
  fv_fusion :: nat
  fv_next_msg_index :: u64
  fv_notifier :: nat

definition FusionVisitor ::
  "'m \<Rightarrow> (nat \<times> u64 \<times> u32 \<times> nat) \<Rightarrow> (nat \<times> u64 \<times> u32 \<times> nat) list \<Rightarrow> nat \<Rightarrow> nat \<Rightarrow>
   'm data_state \<Rightarrow> fusion_visitor \<times> 'm data_state" where
  "FusionVisitor null c0 cs f n st =
     (let (ty0, channel0, queue0, b0) = c0;
          st1 = add_configs null (c0 # cs) (st\<lparr>dst_notifiers := (dst_notifiers st)(n \<mapsto> None)\<rparr>);
          st2 = AddNotifier channel0 n st1;
          st3 = AllLatest f b0 (map (\<lambda>(ty, channel_id, queue_size, b). b) cs) st2
      in (\<lparr>fv_fusion = f, fv_next_msg_index = 0, fv_notifier = n\<rparr>, st3))"

definition TryFetch_fused :: "fusion_visitor \<Rightarrow> 'm data_state \<Rightarrow> ('m list \<times> fusion_visitor) option" where
  "TryFetch_fused fv st =
     (case dst_fusions st (fv_fusion fv) of
        None \<Rightarrow> None
      | Some al \<Rightarrow>
          (case Fusion (fv_next_msg_index fv) al of
             None \<Rightarrow> None
           | Some (i, ms) \<Rightarrow> Some (ms, fv\<lparr>fv_next_msg_index := i + 1\<rparr>)))"

section \<open>Well-formed states\<close>

text \<open>
  The registries are proper maps, no ring is registered twice, and each registered ring
  carries one of the channels only.
\<close>

definition channel_bufs :: "'m data_state \<Rightarrow> nat \<Rightarrow> u64 \<Rightarrow> nat list" where
  "channel_bufs st ty c =
     (case ahm_Get (dst_dispatchers st ty) c of None \<Rightarrow> [] | Some bs \<Rightarrow> bs)"

definition data_ok :: "'m data_state \<Rightarrow> bool" where
  "data_ok st =
     ((\<forall>ty. ahm_ok (dst_dispatchers st ty)) \<and> ahm_ok (dst_notifies_map st) \<and>
      (\<forall>ty c. distinct (channel_bufs st ty c)) \<and>
      (\<forall>ty c ty' c' b. b \<in> set (channel_bufs st ty c) \<and> b \<in> set (channel_bufs st ty' c') \<longrightarrow>
         ty = ty' \<and> c = c'))"

declare channel_bufs_def [inv_defs] data_ok_def [inv_defs]

text \<open>The effect of a dispatched message on a ring: none when a callback takes it.\<close>

definition plain_fill :: "'m \<Rightarrow> 'm cache_buffer \<Rightarrow> 'm cache_buffer" where
  "plain_fill m cb = (if cb_callback cb = None then cb_fill_ring m cb else cb)"

text \<open>A ring that no channel refers to: what \<^verbatim>\<open>new\<close> returns.\<close>

definition fresh_buf :: "'m data_state \<Rightarrow> nat \<Rightarrow> bool" where
  "fresh_buf st b = (\<forall>ty c. b \<notin> set (channel_bufs st ty c))"

text \<open>A sequence of dispatches: type, channel, message.\<close>

fun dispatches :: "(nat \<times> u64 \<times> 'm) list \<Rightarrow> 'm data_state \<Rightarrow> 'm data_state" where
  "dispatches [] st = st"
| "dispatches ((ty, c, m) # ds) st = dispatches ds (snd (snd (Dispatch ty c m st)))"

definition msgs_on :: "nat \<Rightarrow> u64 \<Rightarrow> (nat \<times> u64 \<times> 'm) list \<Rightarrow> 'm list" where
  "msgs_on ty c ds = map (\<lambda>(_, _, m). m) (filter (\<lambda>(ty', c', _). ty' = ty \<and> c' = c) ds)"

text \<open>A reader and its publisher, interleaved: what is delivered, in order.\<close>

datatype 'a rd_event = Publish 'a | Take

fun rd_run :: "'a rd_event list \<Rightarrow> 'a cache_buffer \<Rightarrow> u64 \<Rightarrow> 'a list" where
  "rd_run [] cb next_idx = []"
| "rd_run (Publish v # es) cb next_idx = rd_run es (cb_fill_ring v cb) next_idx"
| "rd_run (Take # es) cb next_idx =
     (case Fetch next_idx cb of
        None \<Rightarrow> rd_run es cb next_idx
      | Some (i, m) \<Rightarrow> m # rd_run es cb (i + 1))"

fun published :: "'a rd_event list \<Rightarrow> 'a list" where
  "published [] = []"
| "published (Publish v # es) = v # published es"
| "published (Take # es) = published es"

text \<open>The reader never falls behind by more than the queue size; \<open>u\<close> counts the unread ones.\<close>

fun keeps_up :: "nat \<Rightarrow> nat \<Rightarrow> 'a rd_event list \<Rightarrow> bool" where
  "keeps_up q u [] = True"
| "keeps_up q u (Publish v # es) = (u < q \<and> keeps_up q (Suc u) es)"
| "keeps_up q u (Take # es) = keeps_up q (u - 1) es"

text \<open>The same for a visitor in the whole system, among dispatches on any channel.\<close>

datatype 'm sys_event = Disp nat u64 'm | Try

fun sys_run :: "'m sys_event list \<Rightarrow> data_visitor \<Rightarrow> 'm data_state \<Rightarrow> 'm list" where
  "sys_run [] dv st = []"
| "sys_run (Disp ty c m # es) dv st = sys_run es dv (snd (snd (Dispatch ty c m st)))"
| "sys_run (Try # es) dv st =
     (case TryFetch dv st of
        None \<Rightarrow> sys_run es dv st
      | Some (m, dv') \<Rightarrow> m # sys_run es dv' st)"

fun reader_events :: "nat \<Rightarrow> u64 \<Rightarrow> 'm sys_event list \<Rightarrow> 'm rd_event list" where
  "reader_events ty c [] = []"
| "reader_events ty c (Disp ty' c' m # es) =
     (if ty' = ty \<and> c' = c then Publish m # reader_events ty c es else reader_events ty c es)"
| "reader_events ty c (Try # es) = Take # reader_events ty c es"

section \<open>A reader sees each message at most once, in order\<close>

lemma Fetch_cases:
  assumes rep: "cb_rep cb hist" and room: "length hist + 1 < 2 ^ 64"
    and i: "unat i \<le> length hist + 1"
  obtains (none) "Fetch i cb = None" "hist = [] \<or> unat i = length hist + 1"
  | (got) j m where "Fetch i cb = Some (j, m)" "unat i \<le> unat j" "0 < unat j"
      "unat j \<le> length hist" "m = hist ! (unat j - 1)" "unat (j + 1) = unat j + 1"
proof (cases "Fetch i cb")
  case None
  then have "hist = [] \<or> unat i = length hist + 1"
    using Fetch_refines [OF assms] by (auto simp: fetch_spec_def split: if_splits)
  with None show ?thesis by (rule none)
next
  case (Some jm)
  obtain j m where jm: "jm = (j, m)" by (cases jm)
  have spec: "fetch_spec (unat (cb_capacity cb) - 1) hist (unat i) = Some (unat j, m)"
    using Fetch_refines [OF assms] Some jm by simp
  then have "unat i \<le> unat j" "0 < unat j" "unat j \<le> length hist" "m = hist ! (unat j - 1)"
    using i length_greater_0_conv [of hist]
    by (auto simp: fetch_spec_def last_conv_nth simp del: length_greater_0_conv split: if_splits)
  moreover have "unat (j + 1) = unat j + 1"
    using \<open>unat j \<le> length hist\<close> room by (intro unat_plus_one) simp
  ultimately show ?thesis using Some jm by (intro got) auto
qed

lemma rd_run_subseq_aux:
  assumes "cb_rep cb hist" "length hist + length (published es) + 1 < 2 ^ 64"
    and "unat i \<le> length hist + 1"
  shows "subseq (rd_run es cb i) (drop (unat i - 1) hist @ published es)"
  using assms
proof (induction es arbitrary: cb hist i)
  case Nil
  then show ?case by simp
next
  case (Cons e es)
  show ?case
  proof (cases e)
    case (Publish v)
    have rep': "cb_rep (cb_fill_ring v cb) (hist @ [v])"
      using Cons.prems Publish by (intro cb_rep_fill) auto
    have "subseq (rd_run es (cb_fill_ring v cb) i)
        (drop (unat i - 1) (hist @ [v]) @ published es)"
      using Cons.prems Publish by (intro Cons.IH [OF rep']) auto
    moreover have "drop (unat i - 1) (hist @ [v]) = drop (unat i - 1) hist @ [v]"
      using Cons.prems(3) by simp
    ultimately show ?thesis using Publish by simp
  next
    case Take
    have room: "length hist + 1 < 2 ^ 64" using Cons.prems(2) by simp
    from Cons.prems(1) room Cons.prems(3) show ?thesis
    proof (cases rule: Fetch_cases)
      case none
      with Cons.IH [OF Cons.prems(1) _ Cons.prems(3)] Cons.prems(2) Take show ?thesis by simp
    next
      case (got j m)
      have "subseq (rd_run es cb (j + 1)) (drop (unat j) hist @ published es)"
        using Cons.IH [OF Cons.prems(1), of "j + 1"] Cons.prems(2) Take got by simp
      moreover have "drop (unat j - 1) hist = m # drop (unat j) hist"
        using got by (metis Cons_nth_drop_Suc Suc_pred' Suc_less_eq Suc_pred less_Suc_eq_le)
      ultimately have "subseq (rd_run (e # es) cb i) (drop (unat j - 1) hist @ published es)"
        using Take got by simp
      moreover have "drop (unat j - 1) hist = drop (unat j - unat i) (drop (unat i - 1) hist)
          \<or> unat i = 0"
        using got(2,3) by (cases "unat i") auto
      then have "suffix (drop (unat j - 1) hist @ published es) (drop (unat i - 1) hist @ published es)"
        using suffix_drop by (metis diff_0_eq_0 drop0 same_suffix_suffix suffix_def append_assoc
            append_take_drop_id)
      then have "subseq (drop (unat j - 1) hist @ published es) (drop (unat i - 1) hist @ published es)"
        by (rule suffix_imp_subseq)
      ultimately show ?thesis using Take by (auto intro: subseq_order.trans)
    qed
  qed
qed

text \<open>
  Claim C3. A reader that starts on an empty ring and interleaves in any way with the
  publisher receives a subsequence of the published messages: never a message twice, never
  two messages out of order, never one that was not published.
\<close>

theorem reader_gets_subsequence:
  assumes "unat q + 1 < 2 ^ 64" and "length (published es) + 1 < 2 ^ 64"
  shows "subseq (rd_run es (CacheBuffer null q) 0) (published es)"
  using rd_run_subseq_aux [OF cb_rep_new [OF assms(1)], of es 0] assms(2) by simp

theorem reader_gets_subsequence_witness:
  "subseq (rd_run [Publish 1, Publish 2, Take, Publish 3, Publish 4, Publish 5, Take, Take]
      (CacheBuffer (0 :: nat) 2) 0) [1, 2, 3, 4, 5]
   \<and> rd_run [Publish 1, Publish 2, Take, Publish 3, Publish 4, Publish 5, Take, Take]
      (CacheBuffer (0 :: nat) 2) 0 = [2, 5]"
  using reader_gets_subsequence [of 2 "[Publish 1, Publish 2, Take, Publish 3, Publish 4,
      Publish 5, Take, Take]" "0 :: nat"]
  by (simp add: cb_op_defs Fetch_def CacheBuffer_def cb_fill_ring_def)

section \<open>A reader that keeps up loses nothing\<close>

lemma Fetch_in_window:
  assumes rep: "cb_rep cb hist" and room: "length hist + 1 < 2 ^ 64"
    and i: "unat i = length hist + 1 - u" and u: "u \<le> length hist" "u < unat (cb_capacity cb)"
    and u0: "0 < u"
  obtains j where "Fetch i cb = Some (j, hist ! (length hist - u))"
    and "unat (j + 1) = length hist + 1 - (u - 1)"
proof -
  have "unat i \<le> length hist + 1" using i by simp
  from Fetch_refines [OF rep room this]
  have "map_option (\<lambda>(j, m). (unat j, m)) (Fetch i cb) = Some (unat i, hist ! (length hist - u))"
    using i u u0 by (auto simp: fetch_spec_def)
  then obtain j where j: "Fetch i cb = Some (j, hist ! (length hist - u))" "unat j = unat i"
    by auto
  moreover have "unat (j + 1) = unat j + 1"
    using j i u u0 room by (intro unat_plus_one) simp
  ultimately show thesis using that i u u0 by simp
qed


lemma cb_fill_ring_capacity [simp]: "cb_capacity (cb_fill_ring v cb) = cb_capacity cb"
  by (simp add: cb_fill_ring_def)

lemma rd_run_lossless_aux:
  assumes "cb_rep cb hist" "length hist + length (published es) + 1 < 2 ^ 64"
    and "unat i = length hist + 1 - u" "u \<le> length hist" "u < unat (cb_capacity cb)"
    and "keeps_up (unat (cb_capacity cb) - 1) u es"
  shows "\<exists>rest. drop (length hist - u) hist @ published es = rd_run es cb i @ rest \<and>
    length rest < unat (cb_capacity cb)"
  using assms
proof (induction es arbitrary: cb hist i u)
  case Nil
  then show ?case by auto
next
  case (Cons e es)
  show ?case
  proof (cases e)
    case (Publish v)
    have rep': "cb_rep (cb_fill_ring v cb) (hist @ [v])"
      using Cons.prems Publish by (intro cb_rep_fill) auto
    have "\<exists>rest. drop (length (hist @ [v]) - Suc u) (hist @ [v]) @ published es =
        rd_run es (cb_fill_ring v cb) i @ rest \<and> length rest < unat (cb_capacity (cb_fill_ring v cb))"
      using Cons.prems Publish by (intro Cons.IH [OF rep']) (auto simp: cb_fill_ring_capacity)
    then show ?thesis using Publish Cons.prems(4) by (simp add: cb_fill_ring_capacity)
  next
    case Take
    have room: "length hist + 1 < 2 ^ 64" using Cons.prems(2) by simp
    show ?thesis
    proof (cases "u = 0")
      case True
      then have "Fetch i cb = None"
        using Fetch_refines [OF Cons.prems(1) room, of i] Cons.prems(3) by (simp add: fetch_spec_def)
      with Cons.IH [OF Cons.prems(1) _ Cons.prems(3-5)] Cons.prems(2,6) Take True show ?thesis
        by simp
    next
      case False
      then obtain j where j: "Fetch i cb = Some (j, hist ! (length hist - u))"
        "unat (j + 1) = length hist + 1 - (u - 1)"
        using Fetch_in_window [OF Cons.prems(1) room Cons.prems(3-5)] by blast
      have "\<exists>rest. drop (length hist - (u - 1)) hist @ published es = rd_run es cb (j + 1) @ rest \<and>
          length rest < unat (cb_capacity cb)"
        using Cons.prems Take by (intro Cons.IH [OF Cons.prems(1) _ j(2)]) auto
      moreover have "drop (length hist - u) hist =
          hist ! (length hist - u) # drop (length hist - (u - 1)) hist"
        using False Cons.prems(4) Cons_nth_drop_Suc [of "length hist - u" hist]
        by (simp add: Suc_diff_le [symmetric] flip: Suc_diff_le)
      ultimately show ?thesis using Take j(1) by simp
    qed
  qed
qed



section \<open>What an operation leaves alone\<close>

lemma fusion_callback_frame [simp]:
  "dst_bufs (fusion_callback f m st) = dst_bufs st"
  "dst_dispatchers (fusion_callback f m st) = dst_dispatchers st"
  "dst_notifies_map (fusion_callback f m st) = dst_notifies_map st"
  "dst_notifiers (fusion_callback f m st) = dst_notifiers st"
  "dst_shutdown (fusion_callback f m st) = dst_shutdown st"
  by (simp_all add: fusion_callback_def split: option.splits)

lemma Fill_frame [simp]:
  "dst_dispatchers (Fill b m st) = dst_dispatchers st"
  "dst_notifies_map (Fill b m st) = dst_notifies_map st"
  "dst_notifiers (Fill b m st) = dst_notifiers st"
  "dst_shutdown (Fill b m st) = dst_shutdown st"
  by (simp_all add: Fill_def split: option.splits)

lemma fill_all_frame [simp]:
  "dst_dispatchers (fill_all bs m st) = dst_dispatchers st"
  "dst_notifies_map (fill_all bs m st) = dst_notifies_map st"
  "dst_notifiers (fill_all bs m st) = dst_notifiers st"
  "dst_shutdown (fill_all bs m st) = dst_shutdown st"
  by (induction bs arbitrary: st) simp_all

lemma cb_fill_ring_callback [simp]: "cb_callback (cb_fill_ring v cb) = cb_callback cb"
  by (simp add: cb_fill_ring_def)

lemma plain_fill_callback [simp]: "cb_callback (plain_fill v cb) = cb_callback cb"
  by (simp add: plain_fill_def)

lemma Fill_bufs:
  "dst_bufs (Fill b m st) b' = (if b' = b then map_option (plain_fill m) (dst_bufs st b) else dst_bufs st b')"
  by (auto simp: Fill_def plain_fill_def split: option.splits)

lemma fill_all_bufs:
  "distinct bs \<Longrightarrow> dst_bufs (fill_all bs m st) b =
     (if b \<in> set bs then map_option (plain_fill m) (dst_bufs st b) else dst_bufs st b)"
  by (induction bs arbitrary: st) (auto simp: Fill_bufs)

lemma Dispatch_state:
  "snd (snd (Dispatch ty c m st)) = (if dst_shutdown st then st else fill_all (channel_bufs st ty c) m st)"
  by (simp add: Dispatch_def channel_bufs_def Let_def split: option.splits prod.splits)

lemma Dispatch_frame [simp]:
  "channel_bufs (snd (snd (Dispatch ty c m st))) = channel_bufs st"
  "dst_shutdown (snd (snd (Dispatch ty c m st))) = dst_shutdown st"
  "data_ok (snd (snd (Dispatch ty c m st))) = data_ok st"
  by (auto simp: Dispatch_state channel_bufs_def data_ok_def fun_eq_iff)

lemma Dispatch_bufs:
  assumes "data_ok st" "\<not> dst_shutdown st"
  shows "dst_bufs (snd (snd (Dispatch ty c m st))) b =
    (if b \<in> set (channel_bufs st ty c) then map_option (plain_fill m) (dst_bufs st b) else dst_bufs st b)"
  using assms by (simp add: Dispatch_state fill_all_bufs data_ok_def)

section \<open>Registration\<close>

lemma channel_bufs_AddBuffer:
  assumes "data_ok st"
  shows "channel_bufs (AddBuffer ty c b st) ty' c' =
    (if ty' = ty \<and> c' = c then channel_bufs st ty c @ [b] else channel_bufs st ty' c')"
  using assms
  by (auto simp: channel_bufs_def AddBuffer_def data_ok_def ahm_reg.get_registry_add split: option.splits)

lemma AddBuffer_frame [simp]:
  "dst_bufs (AddBuffer ty c b st) = dst_bufs st"
  "dst_fusions (AddBuffer ty c b st) = dst_fusions st"
  "dst_notifies_map (AddBuffer ty c b st) = dst_notifies_map st"
  "dst_notifiers (AddBuffer ty c b st) = dst_notifiers st"
  "dst_shutdown (AddBuffer ty c b st) = dst_shutdown st"
  by (simp_all add: AddBuffer_def)

lemma AddNotifier_frame [simp]:
  "dst_bufs (AddNotifier c n st) = dst_bufs st"
  "dst_fusions (AddNotifier c n st) = dst_fusions st"
  "dst_dispatchers (AddNotifier c n st) = dst_dispatchers st"
  "dst_notifiers (AddNotifier c n st) = dst_notifiers st"
  "dst_shutdown (AddNotifier c n st) = dst_shutdown st"
  "channel_bufs (AddNotifier c n st) = channel_bufs st"
  by (simp_all add: AddNotifier_def channel_bufs_def fun_eq_iff)

lemma data_ok_AddBuffer:
  assumes ok: "data_ok st" and fresh: "fresh_buf st b"
  shows "data_ok (AddBuffer ty c b st)"
proof -
  have reg: "ahm_ok (dst_dispatchers (AddBuffer ty c b st) ty')" for ty'
    using ok by (simp add: AddBuffer_def data_ok_def ahm_reg.invar_registry_add)
  have sets: "b' \<in> set (channel_bufs (AddBuffer ty c b st) ty' c') \<longleftrightarrow>
      b' \<in> set (channel_bufs st ty' c') \<or> b' = b \<and> ty' = ty \<and> c' = c" for b' ty' c'
    by (auto simp: channel_bufs_AddBuffer [OF ok])
  have "distinct (channel_bufs (AddBuffer ty c b st) ty' c')" for ty' c'
    using ok fresh by (simp add: channel_bufs_AddBuffer [OF ok] data_ok_def fresh_buf_def)
  moreover have "\<forall>ty1 c1 ty2 c2 b'. b' \<in> set (channel_bufs (AddBuffer ty c b st) ty1 c1) \<and>
      b' \<in> set (channel_bufs (AddBuffer ty c b st) ty2 c2) \<longrightarrow> ty1 = ty2 \<and> c1 = c2"
    unfolding sets using ok fresh unfolding data_ok_def fresh_buf_def by blast
  ultimately show ?thesis using reg ok by (simp add: data_ok_def)
qed

lemma data_ok_AddNotifier [simp]: "data_ok st \<Longrightarrow> data_ok (AddNotifier c n st)"
  by (simp add: data_ok_def AddNotifier_def ahm_reg.invar_registry_add channel_bufs_def)

lemma data_ok_update [simp]:
  "data_ok (st\<lparr>dst_bufs := x\<rparr>) = data_ok st" "data_ok (st\<lparr>dst_notifiers := y\<rparr>) = data_ok st"
  "data_ok (st\<lparr>dst_fusions := z\<rparr>) = data_ok st"
  "channel_bufs (st\<lparr>dst_bufs := x\<rparr>) = channel_bufs st"
  "channel_bufs (st\<lparr>dst_notifiers := y\<rparr>) = channel_bufs st"
  "channel_bufs (st\<lparr>dst_fusions := z\<rparr>) = channel_bufs st"
  by (simp_all add: data_ok_def channel_bufs_def fun_eq_iff)

lemma fresh_buf_update [simp]:
  "fresh_buf (st\<lparr>dst_bufs := x\<rparr>) = fresh_buf st" "fresh_buf (st\<lparr>dst_notifiers := y\<rparr>) = fresh_buf st"
  by (simp_all add: fresh_buf_def fun_eq_iff)

lemma data_ok_init: "data_ok data_init"
  by (simp add: data_ok_def data_init_def ahm_ok_new channel_bufs_def ahm_Get_new)

lemma fresh_buf_init: "fresh_buf data_init b"
  by (simp add: fresh_buf_def data_init_def channel_bufs_def ahm_Get_new)

section \<open>A visitor in the system is a private ring\<close>

lemma sys_run_ring:
  assumes "data_ok st" "\<not> dst_shutdown st" "dv_buffer dv \<in> set (channel_bufs st ty c)"
    and "dst_bufs st (dv_buffer dv) = Some cb" "cb_callback cb = None"
  shows "sys_run es dv st = rd_run (reader_events ty c es) cb (dv_next_msg_index dv)"
  using assms
proof (induction es arbitrary: dv st cb)
  case Nil
  then show ?case by simp
next
  case (Cons e es)
  show ?case
  proof (cases e)
    case (Disp ty' c' m)
    let ?st' = "snd (snd (Dispatch ty' c' m st))"
    have mine: "dv_buffer dv \<in> set (channel_bufs st ty' c') \<longleftrightarrow> ty' = ty \<and> c' = c"
      using Cons.prems(1,3) unfolding data_ok_def by blast
    have "dst_bufs ?st' (dv_buffer dv) = Some (if ty' = ty \<and> c' = c then cb_fill_ring m cb else cb)"
      using Cons.prems by (simp add: Dispatch_bufs mine plain_fill_def)
    from Cons.IH [of ?st' dv, OF _ _ _ this] Cons.prems Disp show ?thesis by simp
  next
    case Try
    with Cons show ?thesis
      by (auto simp: TryFetch_def split: option.splits prod.splits)
  qed
qed

lemma DataVisitor_state:
  assumes "data_ok st" "fresh_buf st b" "DataVisitor null ty c q b n st = (dv, st')"
  shows "data_ok st'" "dst_shutdown st' = dst_shutdown st"
    and "b \<in> set (channel_bufs st' ty c)" "dst_bufs st' b = Some (CacheBuffer null (ucast q))"
    and "dv_buffer dv = b" "dv_next_msg_index dv = 0" "dst_notifiers st' n = Some None"
    and "ahm_Get (dst_notifies_map st') c =
      Some (case ahm_Get (dst_notifies_map st) c of None \<Rightarrow> [n] | Some ns \<Rightarrow> ns @ [n])"
  using assms
  by (auto simp: DataVisitor_def Let_def data_ok_AddBuffer channel_bufs_AddBuffer)
    (simp add: AddNotifier_def ahm_reg.get_registry_add data_ok_def)

lemma fresh_buf_DataVisitor:
  "data_ok st \<Longrightarrow> DataVisitor null ty c q b n st = (dv, st') \<Longrightarrow> fresh_buf st b' \<Longrightarrow> b' \<noteq> b \<Longrightarrow>
   fresh_buf st' b'"
  by (auto simp: DataVisitor_def Let_def fresh_buf_def channel_bufs_AddBuffer split: if_splits)

text \<open>
  Claim C1. A visitor constructed on a channel behaves, amid dispatches of any type on any
  channel to any number of other visitors, exactly as a private ring that is filled with its own
  channel's messages and nothing else.
\<close>

theorem visitor_is_private_ring:
  assumes "data_ok st" and "\<not> dst_shutdown st" and "fresh_buf st b"
    and "DataVisitor null ty c q b n st = (dv, st')"
  shows "sys_run es dv st' = rd_run (reader_events ty c es) (CacheBuffer null (ucast q)) 0"
  using sys_run_ring [of st' dv ty c "CacheBuffer null (ucast q)" es] DataVisitor_state [OF assms(1,3,4)]
    assms(2)
  by (simp add: CacheBuffer_def)

theorem visitor_is_private_ring_witness:
  "let (dv1, st1) = DataVisitor 0 3 77 2 0 0 (data_init :: nat data_state);
       (dv2, st2) = DataVisitor 0 3 78 2 8 8 st1;
       es = [Disp 3 77 5, Try, Disp 3 78 6, Disp 2 78 7, Try, Disp 3 78 8, Try]
   in sys_run es dv2 st2 = rd_run (reader_events 3 78 es) (CacheBuffer 0 (ucast (2 :: u32))) 0"
proof -
  obtain dv1 st1 where v1: "DataVisitor 0 3 77 2 0 0 (data_init :: nat data_state) = (dv1, st1)"
    by fastforce
  obtain dv2 st2 where v2: "DataVisitor 0 3 78 2 8 8 st1 = (dv2, st2)" by fastforce
  have ok: "data_ok st1" "\<not> dst_shutdown st1"
    using DataVisitor_state [OF data_ok_init fresh_buf_init v1] by (simp_all add: data_init_def)
  have "fresh_buf st1 8"
    using fresh_buf_DataVisitor [OF data_ok_init v1 fresh_buf_init] by simp
  from visitor_is_private_ring [OF ok this v2] show ?thesis
    by (simp add: v1 v2 del: sys_run.simps rd_run.simps reader_events.simps)
qed

section \<open>Notification\<close>

lemma run_notifiers_mem:
  "n \<in> set ns \<Longrightarrow> dst_notifiers st n = Some (Some cb) \<Longrightarrow> cb \<in> set (run_notifiers st ns)"
  by (induction ns) (auto split: option.splits)

lemma DataVisitor_notifier:
  "DataVisitor null ty c q b n st = (dv, st') \<Longrightarrow> dv_notifier dv = n"
  by (auto simp: DataVisitor_def Let_def)



end
