(* ===== verification/Data_Fusion.thy ===== *)
theory Data_Fusion
  imports Data_Dispatch
begin

text \<open>
  Fusion of several channels (\<^verbatim>\<open>fusion/all_latest.h\<close> and the \<^verbatim>\<open>DataVisitor\<close> classes for
  two, three and four channels, whose operations are in the theory Data\_Dispatch): the fused ring
  refines the reference \<open>fuse_ref\<close>, defined on the sequence of dispatched messages.
\<close>

text \<open>
  The reference for fusion: a message on the first channel is paired with the last message of
  each other channel so far, and dropped as long as one of them has none.
\<close>

fun fuse_ref ::
  "nat \<times> u64 \<Rightarrow> (nat \<times> u64) list \<Rightarrow> (nat \<times> u64 \<times> 'm) list \<Rightarrow> (nat \<times> u64 \<times> 'm) list \<Rightarrow> 'm list list" where
  "fuse_ref k0 ks past [] = []"
| "fuse_ref k0 ks past ((ty, c, m) # ds) =
     (if (ty, c) = k0 \<and> (\<forall>(t, d) \<in> set ks. msgs_on t d past \<noteq> [])
      then [m # map (\<lambda>(t, d). last (msgs_on t d past)) ks] else []) @
     fuse_ref k0 ks (past @ [(ty, c, m)]) ds"

text \<open>
  What a fused visitor's state looks like after the messages \<open>past\<close>: each other ring holds its
  channel's messages, the first ring only triggers the fusion, and the fused ring holds \<open>out\<close>.
\<close>

definition fused_rep ::
  "nat \<Rightarrow> nat \<times> u64 \<Rightarrow> nat \<Rightarrow> (nat \<times> u64 \<times> nat) list \<Rightarrow> 'm data_state \<Rightarrow>
   (nat \<times> u64 \<times> 'm) list \<Rightarrow> 'm list list \<Rightarrow> bool" where
  "fused_rep f k0 b0 cs st past out =
     ((\<exists>al cb0. dst_fusions st f = Some al \<and> al_others al = map (\<lambda>(t, d, b). b) cs \<and>
         cb_rep (al_fusion al) out \<and> dst_bufs st b0 = Some cb0 \<and> cb_callback cb0 = Some f) \<and>
      b0 \<in> set (channel_bufs st (fst k0) (snd k0)) \<and>
      (\<forall>b cb. dst_bufs st b = Some cb \<and> b \<noteq> b0 \<longrightarrow> cb_callback cb \<noteq> Some f) \<and>
      (\<forall>(t, d, b) \<in> set cs. (t, d) \<noteq> k0 \<and> b \<in> set (channel_bufs st t d) \<and>
         (\<exists>cb. dst_bufs st b = Some cb \<and> cb_callback cb = None \<and> cb_rep cb (msgs_on t d past))))"

section \<open>Fusion\<close>

lemma latest_all_cong:
  "(\<And>b. b \<in> set bs \<Longrightarrow> dst_bufs st b = dst_bufs st' b) \<Longrightarrow> latest_all st bs = latest_all st' bs"
  by (induction bs) (auto split: option.splits)

lemma Fill_fusions_other:
  "(\<And>cb. dst_bufs st b = Some cb \<Longrightarrow> cb_callback cb \<noteq> Some f) \<Longrightarrow>
   dst_fusions (Fill b m st) f = dst_fusions st f"
  by (auto simp: Fill_def fusion_callback_def split: option.splits)

lemma fill_all_fusions_other:
  "(\<And>b cb. b \<in> set bs \<Longrightarrow> dst_bufs st b = Some cb \<Longrightarrow> cb_callback cb \<noteq> Some f) \<Longrightarrow>
   dst_fusions (fill_all bs m st) f = dst_fusions st f"
proof (induction bs arbitrary: st)
  case Nil
  then show ?case by simp
next
  case (Cons b bs)
  have "dst_fusions (fill_all bs m (Fill b m st)) f = dst_fusions (Fill b m st) f"
    using Cons.prems by (intro Cons.IH) (fastforce simp: Fill_bufs split: if_splits)
  also have "\<dots> = dst_fusions st f" using Cons.prems by (intro Fill_fusions_other) auto
  finally show ?case by simp
qed

lemma fill_all_fusion:
  assumes "distinct bs" "b0 \<in> set bs" "dst_bufs st b0 = Some cb0" "cb_callback cb0 = Some f"
    and "dst_fusions st f = Some al" "set bs \<inter> set (al_others al) = {}"
    and "\<And>b cb. dst_bufs st b = Some cb \<Longrightarrow> b \<noteq> b0 \<Longrightarrow> cb_callback cb \<noteq> Some f"
  shows "dst_fusions (fill_all bs m st) f =
    Some (case latest_all st (al_others al) of None \<Rightarrow> al
          | Some ms \<Rightarrow> al\<lparr>al_fusion := cb_fill_ring (m # ms) (al_fusion al)\<rparr>)"
  using assms
proof (induction bs arbitrary: st)
  case Nil
  then show ?case by simp
next
  case (Cons b bs)
  have same: "latest_all (Fill b m st) (al_others al) = latest_all st (al_others al)"
    using Cons.prems(6) by (intro latest_all_cong) (auto simp: Fill_bufs)
  show ?case
  proof (cases "b = b0")
    case True
    have "dst_fusions (fill_all bs m (Fill b m st)) f = dst_fusions (Fill b m st) f"
      using Cons.prems True
      by (intro fill_all_fusions_other) (auto simp: Fill_bufs split: if_splits)
    then show ?thesis
      using Cons.prems True by (auto simp: Fill_def fusion_callback_def split: option.splits)
  next
    case False
    have "dst_fusions (Fill b m st) f = Some al"
      using Cons.prems False by (subst Fill_fusions_other) auto
    then have "dst_fusions (fill_all bs m (Fill b m st)) f =
      Some (case latest_all (Fill b m st) (al_others al) of None \<Rightarrow> al
          | Some ms \<Rightarrow> al\<lparr>al_fusion := cb_fill_ring (m # ms) (al_fusion al)\<rparr>)"
      using Cons.prems False
      by (intro Cons.IH) (auto simp: Fill_bufs split: if_splits)
    with same show ?thesis by simp
  qed
qed

lemma latest_all_rep:
  assumes "\<forall>(t, d, b) \<in> set cs. \<exists>cb. dst_bufs st b = Some cb \<and> cb_rep cb (msgs_on t d past)"
  shows "latest_all st (map (\<lambda>(t, d, b). b) cs) =
    (if \<forall>(t, d, b) \<in> set cs. msgs_on t d past \<noteq> []
     then Some (map (\<lambda>(t, d, b). last (msgs_on t d past)) cs) else None)"
  using assms
proof (induction cs)
  case Nil
  then show ?case by simp
next
  case (Cons x cs)
  obtain t d b where x: "x = (t, d, b)" by (metis prod_cases3)
  then obtain cb where cb: "dst_bufs st b = Some cb" "cb_rep cb (msgs_on t d past)"
    using Cons.prems by auto
  from Latest_rep [OF cb(2)] Cons cb(1) x show ?case by auto
qed

lemma msgs_on_snoc:
  "msgs_on t d (past @ [(ty, c, m)]) = msgs_on t d past @ (if ty = t \<and> c = d then [m] else [])"
  by (simp add: msgs_on_def)

lemma length_msgs_on: "length (msgs_on t d past) \<le> length past"
  by (simp add: msgs_on_def)

lemma fused_rep_other_rings:
  assumes "data_ok st" "\<not> dst_shutdown st" "length past + 1 < 2 ^ 64"
    and "fused_rep f k0 b0 cs st past out" "(t, d, b) \<in> set cs"
  shows "(t, d) \<noteq> k0 \<and> b \<in> set (channel_bufs st t d) \<and>
    (\<exists>cb. dst_bufs (snd (snd (Dispatch ty c m st))) b = Some cb \<and> cb_callback cb = None \<and>
      cb_rep cb (msgs_on t d (past @ [(ty, c, m)])))"
proof -
  obtain cb where cb: "(t, d) \<noteq> k0" "b \<in> set (channel_bufs st t d)"
    "dst_bufs st b = Some cb" "cb_callback cb = None" "cb_rep cb (msgs_on t d past)"
    using assms(4,5) unfolding fused_rep_def by blast
  have mine: "b \<in> set (channel_bufs st ty c) \<longleftrightarrow> ty = t \<and> c = d"
    using assms(1) cb(2) unfolding data_ok_def by blast
  have "cb_rep (cb_fill_ring m cb) (msgs_on t d past @ [m])"
    using cb(5) assms(3) length_msgs_on [of t d past] by (intro cb_rep_fill) auto
  then show ?thesis
    using cb by (simp add: Dispatch_bufs [OF assms(1,2)] mine msgs_on_snoc plain_fill_def)
qed

lemma Dispatch_fusion:
  assumes ok: "data_ok st" "\<not> dst_shutdown st" and rep: "fused_rep f k0 b0 cs st past out"
    and al: "dst_fusions st f = Some al"
  shows "dst_fusions (snd (snd (Dispatch ty c m st))) f =
    Some (if (ty, c) = k0 then
            (case latest_all st (al_others al) of None \<Rightarrow> al
             | Some ms \<Rightarrow> al\<lparr>al_fusion := cb_fill_ring (m # ms) (al_fusion al)\<rparr>)
          else al)"
proof -
  let ?bs = "channel_bufs st ty c"
  obtain cb0 where cb0: "dst_bufs st b0 = Some cb0" "cb_callback cb0 = Some f"
    and others: "al_others al = map (\<lambda>(t, d, b). b) cs"
    and b0: "b0 \<in> set (channel_bufs st (fst k0) (snd k0))"
    and only: "\<And>b cb. dst_bufs st b = Some cb \<Longrightarrow> b \<noteq> b0 \<Longrightarrow> cb_callback cb \<noteq> Some f"
    using rep al unfolding fused_rep_def by auto
  have mine: "b0 \<in> set ?bs \<longleftrightarrow> (ty, c) = k0"
    using ok(1) b0 unfolding data_ok_def by (metis fst_conv prod.collapse snd_conv)
  have chan: "\<forall>(t, d, b) \<in> set cs. (t, d) \<noteq> k0 \<and> b \<in> set (channel_bufs st t d)"
    using rep unfolding fused_rep_def by blast
  have st': "snd (snd (Dispatch ty c m st)) = fill_all ?bs m st"
    using ok(2) by (simp add: Dispatch_state)
  show ?thesis
  proof (cases "(ty, c) = k0")
    case True
    have "set ?bs \<inter> set (al_others al) = {}"
      using chan True ok(1) unfolding data_ok_def others by fastforce
    moreover have "distinct ?bs" using ok(1) by (simp add: data_ok_def)
    ultimately show ?thesis
      using fill_all_fusion [OF _ _ cb0 al _ only, where bs = ?bs and m = m] mine True st' by simp
  next
    case False
    then have "dst_fusions (fill_all ?bs m st) f = dst_fusions st f"
      using mine only by (intro fill_all_fusions_other) blast
    with False al st' show ?thesis by simp
  qed
qed

lemma fused_rep_Dispatch:
  assumes ok: "data_ok st" "\<not> dst_shutdown st" and room: "length past + length out + 1 < 2 ^ 64"
    and rep: "fused_rep f k0 b0 cs st past out"
  shows "fused_rep f k0 b0 cs (snd (snd (Dispatch ty c m st))) (past @ [(ty, c, m)])
    (out @ fuse_ref k0 (map (\<lambda>(t, d, b). (t, d)) cs) past [(ty, c, m)])"
proof -
  let ?st' = "snd (snd (Dispatch ty c m st))"
  let ?out = "fuse_ref k0 (map (\<lambda>(t, d, b). (t, d)) cs) past [(ty, c, m)]"
  obtain al cb0 where al: "dst_fusions st f = Some al" "al_others al = map (\<lambda>(t, d, b). b) cs"
    "cb_rep (al_fusion al) out" "dst_bufs st b0 = Some cb0" "cb_callback cb0 = Some f"
    and b0: "b0 \<in> set (channel_bufs st (fst k0) (snd k0))"
    and only: "\<forall>b cb. dst_bufs st b = Some cb \<and> b \<noteq> b0 \<longrightarrow> cb_callback cb \<noteq> Some f"
    using rep unfolding fused_rep_def by blast
  have others: "\<forall>(t, d, b) \<in> set cs. \<exists>cb. dst_bufs st b = Some cb \<and> cb_rep cb (msgs_on t d past)"
    using rep unfolding fused_rep_def by blast
  have room': "length past + 1 < 2 ^ 64" using room by simp
  have fill: "cb_rep (cb_fill_ring ms (al_fusion al)) (out @ [ms])" for ms
    using al(3) room by (intro cb_rep_fill) auto
  have "\<exists>al'. dst_fusions ?st' f = Some al' \<and> al_others al' = map (\<lambda>(t, d, b). b) cs \<and>
      cb_rep (al_fusion al') (out @ ?out)"
    using Dispatch_fusion [OF ok rep al(1), of ty c m] latest_all_rep [OF others] al(2,3) fill
    by (auto simp: case_prod_unfold comp_def)
  moreover have "dst_bufs ?st' b0 = Some cb0"
    using al(4,5) by (simp add: Dispatch_bufs [OF ok] plain_fill_def)
  moreover have "\<forall>b cb. dst_bufs ?st' b = Some cb \<and> b \<noteq> b0 \<longrightarrow> cb_callback cb \<noteq> Some f"
    using only by (auto simp: Dispatch_bufs [OF ok] split: if_splits)
  moreover have "\<forall>(t, d, b) \<in> set cs. (t, d) \<noteq> k0 \<and> b \<in> set (channel_bufs ?st' t d) \<and>
         (\<exists>cb. dst_bufs ?st' b = Some cb \<and> cb_callback cb = None \<and>
            cb_rep cb (msgs_on t d (past @ [(ty, c, m)])))"
    unfolding Dispatch_frame(1) using fused_rep_other_rings [OF ok room' rep] by blast
  ultimately show ?thesis unfolding fused_rep_def using al(5) b0 by auto
qed

lemma length_fuse_ref: "length (fuse_ref k0 ks past ds) \<le> length ds"
  by (induction k0 ks past ds rule: fuse_ref.induct) auto

lemma fused_rep_dispatches:
  assumes "data_ok st" "\<not> dst_shutdown st"
    and "length past + length out + 2 * length ds + 1 < 2 ^ 64" "fused_rep f k0 b0 cs st past out"
  shows "fused_rep f k0 b0 cs (dispatches ds st) (past @ ds)
    (out @ fuse_ref k0 (map (\<lambda>(t, d, b). (t, d)) cs) past ds)"
  using assms
proof (induction ds arbitrary: st past out)
  case Nil
  then show ?case by simp
next
  case (Cons x ds)
  obtain ty c m where x: "x = (ty, c, m)" by (metis prod_cases3)
  let ?new = "fuse_ref k0 (map (\<lambda>(t, d, b). (t, d)) cs) past [(ty, c, m)]"
  have "fused_rep f k0 b0 cs (snd (snd (Dispatch ty c m st))) (past @ [x]) (out @ ?new)"
    unfolding x using Cons.prems by (intro fused_rep_Dispatch) auto
  moreover have "length ?new \<le> 1" using length_fuse_ref [of k0 _ past "[(ty, c, m)]"] by simp
  ultimately have "fused_rep f k0 b0 cs (dispatches ds (snd (snd (Dispatch ty c m st)))) ((past @ [x]) @ ds)
      ((out @ ?new) @ fuse_ref k0 (map (\<lambda>(t, d, b). (t, d)) cs) (past @ [x]) ds)"
    using Cons.prems by (intro Cons.IH) auto
  then show ?case by (simp add: x)
qed

lemma add_configs_frame [simp]:
  "dst_fusions (add_configs null cs st) = dst_fusions st"
  "dst_shutdown (add_configs null cs st) = dst_shutdown st"
  by (induction null cs st rule: add_configs.induct) simp_all

lemma add_configs_bufs:
  "b \<notin> (\<lambda>(t, d, q, b). b) ` set cs \<Longrightarrow> dst_bufs (add_configs null cs st) b = dst_bufs st b"
  by (induction null cs st rule: add_configs.induct) auto

lemma add_configs_ok:
  assumes "data_ok st" "distinct (map (\<lambda>(t, d, q, b). b) cs)"
    and "\<forall>(t, d, q, b) \<in> set cs. fresh_buf st b"
  shows "data_ok (add_configs null cs st) \<and>
    (\<forall>t d. set (channel_bufs st t d) \<subseteq> set (channel_bufs (add_configs null cs st) t d)) \<and>
    (\<forall>(t, d, q, b) \<in> set cs. b \<in> set (channel_bufs (add_configs null cs st) t d) \<and>
       dst_bufs (add_configs null cs st) b = Some (CacheBuffer null (ucast q)))"
  using assms
proof (induction null cs st rule: add_configs.induct)
  case (1 null st)
  then show ?case by simp
next
  case (2 null ty c q b cs st)
  let ?st = "AddBuffer ty c b (st\<lparr>dst_bufs := (dst_bufs st)(b \<mapsto> CacheBuffer null (ucast q))\<rparr>)"
  have bufs: "set (channel_bufs ?st t d) = set (channel_bufs st t d) \<union> (if t = ty \<and> d = c then {b} else {})"
    for t d
    using 2 by (auto simp: channel_bufs_AddBuffer)
  have "fresh_buf ?st b'" if "fresh_buf st b'" "b' \<noteq> b" for b'
    using that unfolding fresh_buf_def bufs by auto
  then have "\<forall>(t, d, q, b') \<in> set cs. fresh_buf ?st b'"
    using "2.prems"(2,3) by (force simp: case_prod_unfold)
  moreover have "data_ok ?st" using "2.prems" by (intro data_ok_AddBuffer) auto
  ultimately have IH: "data_ok (add_configs null cs ?st) \<and>
    (\<forall>t d. set (channel_bufs ?st t d) \<subseteq> set (channel_bufs (add_configs null cs ?st) t d)) \<and>
    (\<forall>(t, d, q, b) \<in> set cs. b \<in> set (channel_bufs (add_configs null cs ?st) t d) \<and>
       dst_bufs (add_configs null cs ?st) b = Some (CacheBuffer null (ucast q)))"
    using "2.IH" "2.prems"(2) by simp
  moreover have "dst_bufs (add_configs null cs ?st) b = Some (CacheBuffer null (ucast q))"
    using "2.prems"(2) by (subst add_configs_bufs) auto
  moreover have "b \<in> set (channel_bufs ?st ty c)" unfolding bufs by simp
  moreover have "set (channel_bufs st t d) \<subseteq> set (channel_bufs ?st t d)" for t d
    unfolding bufs by simp
  ultimately show ?case unfolding add_configs.simps list.set(2) ball_simps by blast
qed

lemma FusionVisitor_rep:
  assumes "data_ok st" "distinct (b0 # map (\<lambda>(t, d, q, b). b) cs)"
    and "\<forall>(t, d, q, b) \<in> set ((ty0, c0, q0, b0) # cs). fresh_buf st b"
    and "\<forall>(t, d, q, b) \<in> set cs. (t, d) \<noteq> (ty0, c0)"
    and "\<forall>b cb. dst_bufs st b = Some cb \<longrightarrow> cb_callback cb \<noteq> Some f"
    and "FusionVisitor null (ty0, c0, q0, b0) cs f n st = (fv, st')"
  shows "data_ok st' \<and> dst_shutdown st' = dst_shutdown st \<and>
    fused_rep f (ty0, c0) b0 (map (\<lambda>(t, d, q, b). (t, d, b)) cs) st' [] [] \<and>
    (\<exists>al. dst_fusions st' f = Some al \<and> cb_capacity (al_fusion al) = ucast q0 + 1)"
proof -
  let ?cs = "(ty0, c0, q0, b0) # cs"
  let ?st0 = "st\<lparr>dst_notifiers := (dst_notifiers st)(n \<mapsto> None)\<rparr>"
  let ?st1 = "add_configs null ?cs ?st0"
  have ok1: "data_ok ?st1" and in1: "\<forall>(t, d, q, b) \<in> set ?cs. b \<in> set (channel_bufs ?st1 t d) \<and>
      dst_bufs ?st1 b = Some (CacheBuffer null (ucast q))"
    using add_configs_ok [of ?st0 ?cs null] assms(1-3) by simp_all
  have b0: "dst_bufs ?st1 b0 = Some (CacheBuffer null (ucast q0))" "b0 \<in> set (channel_bufs ?st1 ty0 c0)"
    using in1 unfolding list.set(2) ball_simps by blast+
  have new: "cb_callback (CacheBuffer null q) = None" "cb_capacity (CacheBuffer d q) = q + 1" for q d
    by (simp_all add: CacheBuffer_def)
  have only: "cb_callback cb \<noteq> Some f" if "dst_bufs ?st1 b = Some cb" for b cb
  proof (cases "b \<in> (\<lambda>(t, d, q, b). b) ` set ?cs")
    case True
    then obtain q where "dst_bufs ?st1 b = Some (CacheBuffer null (ucast (q :: u32)))"
      using in1 by (auto simp del: add_configs.simps list.set)
    with that new(1) show ?thesis by (metis option.distinct(1) option.inject)
  next
    case False
    with that assms(5) show ?thesis by (simp add: add_configs_bufs del: add_configs.simps)
  qed
  have st': "dst_fusions st' f = Some \<lparr>al_m0 = b0, al_others = map (\<lambda>(t, d, q, b). b) cs,
        al_fusion = CacheBuffer [] (ucast q0)\<rparr>"
    "dst_bufs st' = (dst_bufs ?st1)(b0 \<mapsto> cb_SetFusionCallback f (CacheBuffer null (ucast q0)))"
    "channel_bufs st' = channel_bufs ?st1" "data_ok st'" "dst_shutdown st' = dst_shutdown st"
    using assms(6) b0(1) ok1
    by (auto simp: FusionVisitor_def AllLatest_def new Let_def simp del: add_configs.simps)
  have "(t, d) \<noteq> (ty0, c0) \<and> b \<in> set (channel_bufs st' t d) \<and>
      (\<exists>cb. dst_bufs st' b = Some cb \<and> cb_callback cb = None \<and> cb_rep cb (msgs_on t d []))"
    if "(t, d, q, b) \<in> set cs" for t d q b
  proof -
    have "(t, d, q, b) \<in> set ?cs" using that by simp
    then have "b \<in> set (channel_bufs ?st1 t d)" "dst_bufs ?st1 b = Some (CacheBuffer null (ucast q))"
      using in1 by blast+
    moreover have "b \<noteq> b0" using assms(2) that by force
    moreover have "(t, d) \<noteq> (ty0, c0)" using assms(4) that by blast
    ultimately show ?thesis
      using new(1) cb_rep_new [OF ucast_u32_room] unfolding st'(2,3)
      by (simp add: msgs_on_def del: add_configs.simps)
  qed
  then have "\<forall>(t, d, b) \<in> set (map (\<lambda>(t, d, q, b). (t, d, b)) cs). (t, d) \<noteq> (ty0, c0) \<and>
      b \<in> set (channel_bufs st' t d) \<and>
      (\<exists>cb. dst_bufs st' b = Some cb \<and> cb_callback cb = None \<and> cb_rep cb (msgs_on t d []))"
    by fastforce
  moreover have "\<forall>b cb. dst_bufs st' b = Some cb \<and> b \<noteq> b0 \<longrightarrow> cb_callback cb \<noteq> Some f"
    using only unfolding st'(2) by (simp del: add_configs.simps)
  moreover have "cb_rep (CacheBuffer [] (ucast q0)) []" by (rule cb_rep_new [OF ucast_u32_room])
  ultimately have "fused_rep f (ty0, c0) b0 (map (\<lambda>(t, d, q, b). (t, d, b)) cs) st' [] []"
    using b0(2) st'(1-3) unfolding fused_rep_def
    by (simp add: cb_SetFusionCallback_def case_prod_unfold comp_def del: add_configs.simps)
  then show ?thesis using st' new by simp
qed

lemma Dispatch_fusion_capacity:
  assumes "data_ok st" "\<not> dst_shutdown st" "fused_rep f k0 b0 cs st past out"
    and "dst_fusions st f = Some al"
  shows "\<exists>al'. dst_fusions (snd (snd (Dispatch ty c m st))) f = Some al' \<and>
    cb_capacity (al_fusion al') = cb_capacity (al_fusion al)"
  using Dispatch_fusion [OF assms] by (auto split: option.splits)

lemma dispatches_fusion_capacity:
  assumes "data_ok st" "\<not> dst_shutdown st"
    and "length past + length out + 2 * length ds + 1 < 2 ^ 64" "fused_rep f k0 b0 cs st past out"
    and "dst_fusions st f = Some al"
  shows "\<exists>al'. dst_fusions (dispatches ds st) f = Some al' \<and>
    cb_capacity (al_fusion al') = cb_capacity (al_fusion al)"
  using assms
proof (induction ds arbitrary: st past out al)
  case Nil
  then show ?case by simp
next
  case (Cons x ds)
  obtain ty c m where x: "x = (ty, c, m)" by (metis prod_cases3)
  let ?new = "fuse_ref k0 (map (\<lambda>(t, d, b). (t, d)) cs) past [(ty, c, m)]"
  obtain al' where al': "dst_fusions (snd (snd (Dispatch ty c m st))) f = Some al'"
    "cb_capacity (al_fusion al') = cb_capacity (al_fusion al)"
    using Dispatch_fusion_capacity [OF Cons.prems(1,2,4,5)] by blast
  have rep: "fused_rep f k0 b0 cs (snd (snd (Dispatch ty c m st))) (past @ [x]) (out @ ?new)"
    unfolding x using Cons.prems by (intro fused_rep_Dispatch) auto
  have "length ?new \<le> 1" using length_fuse_ref [of k0 _ past "[(ty, c, m)]"] by simp
  then have "length (past @ [x]) + length (out @ ?new) + 2 * length ds + 1 < 2 ^ 64"
    using Cons.prems(3) by simp
  from Cons.IH [OF _ _ this rep al'(1)] Cons.prems(1,2) al'(2) show ?case by (simp add: x)
qed

text \<open>
  Claim C2. A visitor of several channels sees exactly the fused sequence of the reference: a
  tuple for each message of the first channel that finds every other channel non-empty, made of
  that message and the latest message of each other channel, in the order of the first channel,
  through the same window of the first queue size as a single-channel reader.
\<close>

theorem fusion_refines_reference:
  fixes ds :: "(nat \<times> u64 \<times> 'm) list"
  assumes "data_ok st" and "\<not> dst_shutdown st"
    and "distinct (b0 # map (\<lambda>(t, d, q, b). b) cs)"
    and "\<forall>(t, d, q, b) \<in> set ((ty0, c0, q0, b0) # cs). fresh_buf st b"
    and "\<forall>(t, d, q, b) \<in> set cs. (t, d) \<noteq> (ty0, c0)"
    and "\<forall>b cb. dst_bufs st b = Some cb \<longrightarrow> cb_callback cb \<noteq> Some f"
    and "FusionVisitor null (ty0, c0, q0, b0) cs f n st = (fv, st')"
    and "2 * length ds + 1 < 2 ^ 64"
    and "out = fuse_ref (ty0, c0) (map (\<lambda>(t, d, q, b). (t, d)) cs) [] ds"
    and "unat index \<le> length out + 1"
  shows "\<exists>al. dst_fusions (dispatches ds st') f = Some al \<and>
    map_option (\<lambda>(j, m). (unat j, m)) (Fusion index al) = fetch_spec (unat q0) out (unat index)"
proof -
  let ?cs = "map (\<lambda>(t, d, q, b). (t, d, b)) cs"
  note v = FusionVisitor_rep [OF assms(1,3-7)]
  then obtain al where al: "dst_fusions st' f = Some al" "cb_capacity (al_fusion al) = ucast q0 + 1"
    by blast
  have rep0: "fused_rep f (ty0, c0) b0 ?cs st' [] []" and ok: "data_ok st'" "\<not> dst_shutdown st'"
    using v assms(2) by auto
  have room: "length ([] :: (nat \<times> u64 \<times> 'm) list) + length ([] :: 'm list list) + 2 * length ds + 1 < 2 ^ 64"
    using assms(8) by simp
  obtain al' where al': "dst_fusions (dispatches ds st') f = Some al'"
    "cb_capacity (al_fusion al') = ucast q0 + 1"
    using dispatches_fusion_capacity [OF ok room rep0 al(1)] al(2) by auto
  have "fused_rep f (ty0, c0) b0 ?cs (dispatches ds st') ds out"
    using fused_rep_dispatches [OF ok room rep0] assms(9) by (simp add: comp_def case_prod_unfold)
  then have rep: "cb_rep (al_fusion al') out" using al'(1) by (simp add: fused_rep_def)
  have "length out \<le> length ds" unfolding assms(9) by (rule length_fuse_ref)
  then have len: "length out + 1 < 2 ^ 64" using assms(8) by simp
  have "unat (cb_capacity (al_fusion al')) = unat q0 + 1"
    unfolding al'(2) by (subst unat_plus_one) (use ucast_u32_room [of q0] in simp_all)
  with Fetch_refines [OF rep len assms(10)] al'(1) show ?thesis by (simp add: Fusion_def)
qed

theorem fusion_refines_reference_witness:
  "let (fv, st) = FusionVisitor 0 (3, 77, 2, 0) [(3, 78, 2, 5)] 9 4 (data_init :: nat data_state)
   in \<exists>al. dst_fusions (dispatches [(3, 77, 10), (3, 78, 20), (3, 77, 11), (3, 78, 21), (3, 77, 12)] st) 9
        = Some al \<and>
      map_option (\<lambda>(j, m). (unat j, m)) (Fusion 1 al) = Some (1, [11, 20])"
proof -
  obtain fv st where v:
    "FusionVisitor 0 (3, 77, 2, 0) [(3, 78, 2, 5)] 9 4 (data_init :: nat data_state) = (fv, st)"
    by fastforce
  let ?ds = "[(3, 77, 10), (3, 78, 20), (3, 77, 11), (3, 78, 21), (3, 77, 12)]"
  have "fuse_ref (3, 77) (map (\<lambda>(t, d, q, b). (t, d)) [(3, 78, 2 :: u32, 5 :: nat)]) [] ?ds =
      [[11, 20], [12, 21]]"
    by (simp add: msgs_on_def)
  from fusion_refines_reference [OF data_ok_init _ _ _ _ _ v _ this [symmetric], of 1]
  have "\<exists>al. dst_fusions (dispatches ?ds st) 9 = Some al \<and>
      map_option (\<lambda>(j, m). (unat j, m)) (Fusion 1 al) = Some (1, [11, 20])"
    by (simp add: data_init_def fresh_buf_init [unfolded data_init_def] fetch_spec_def
        del: dispatches.simps)
  then show ?thesis unfolding v Let_def prod.case .
qed

end
