(* ===== verification/Base_BoundedQueue.thy ===== *)
theory Base_BoundedQueue
  imports Cyber_Interfaces
begin

text \<open>
  The lock-free bounded queue of \<^verbatim>\<open>cyber/base/bounded_queue.h\<close> and the wait strategies of
  \<^verbatim>\<open>cyber/base/wait_strategy.h\<close>.

  Each atomic access of \<^verbatim>\<open>Enqueue\<close> and \<^verbatim>\<open>Dequeue\<close> (a load, a compare-exchange, the slot write,
  the slot read) is one definition. They are composed twice: sequentially, as one thread runs them
  (\<open>bq_Enqueue\<close>, \<open>bq_Dequeue\<close>), and as the step relation \<open>bq_step\<close>, in which any number of threads
  interleave. The counters are 64-bit words; the theorems hold as long as they do not wrap.
\<close>

section \<open>The queue and its atomic actions\<close>

record 'a bounded_queue =
  bq_head :: u64
  bq_tail :: u64
  bq_commit :: u64
  bq_pool_size :: u64
  bq_pool :: "'a list"
  bq_break_all_wait :: bool

definition bq_Init :: "'a \<Rightarrow> u64 \<Rightarrow> 'a bounded_queue" where
  "bq_Init dflt sz =
     \<lparr>bq_head = 0, bq_tail = 1, bq_commit = 1, bq_pool_size = sz + 2,
      bq_pool = replicate (unat (sz + 2)) dflt, bq_break_all_wait = False\<rparr>"

definition bq_GetIndex :: "'a bounded_queue \<Rightarrow> u64 \<Rightarrow> u64" where
  "bq_GetIndex q num = num - (num div bq_pool_size q) * bq_pool_size q"

definition bq_full :: "u64 \<Rightarrow> 'a bounded_queue \<Rightarrow> bool" where
  "bq_full old_tail q = (bq_GetIndex q (old_tail + 1) = bq_GetIndex q (bq_head q))"

definition bq_cas_tail :: "u64 \<Rightarrow> 'a bounded_queue \<Rightarrow> 'a bounded_queue option" where
  "bq_cas_tail old_tail q = (if bq_tail q = old_tail then Some (q\<lparr>bq_tail := old_tail + 1\<rparr>) else None)"

definition bq_write :: "u64 \<Rightarrow> 'a \<Rightarrow> 'a bounded_queue \<Rightarrow> 'a bounded_queue" where
  "bq_write old_tail x q = q\<lparr>bq_pool := (bq_pool q)[unat (bq_GetIndex q old_tail) := x]\<rparr>"

definition bq_cas_commit :: "u64 \<Rightarrow> 'a bounded_queue \<Rightarrow> 'a bounded_queue option" where
  "bq_cas_commit old_tail q =
     (if bq_commit q = old_tail then Some (q\<lparr>bq_commit := old_tail + 1\<rparr>) else None)"

definition bq_nothing :: "u64 \<Rightarrow> 'a bounded_queue \<Rightarrow> bool" where
  "bq_nothing old_head q = (old_head + 1 = bq_commit q)"

definition bq_read :: "u64 \<Rightarrow> 'a bounded_queue \<Rightarrow> 'a" where
  "bq_read old_head q = bq_pool q ! unat (bq_GetIndex q (old_head + 1))"

definition bq_cas_head :: "u64 \<Rightarrow> 'a bounded_queue \<Rightarrow> 'a bounded_queue option" where
  "bq_cas_head old_head q = (if bq_head q = old_head then Some (q\<lparr>bq_head := old_head + 1\<rparr>) else None)"

definition bq_Size :: "'a bounded_queue \<Rightarrow> u64" where
  "bq_Size q = bq_tail q - bq_head q - 1"

definition bq_Empty :: "'a bounded_queue \<Rightarrow> bool" where
  "bq_Empty q = (bq_Size q = 0)"

definition bq_BreakAllWait :: "'a bounded_queue \<Rightarrow> 'a bounded_queue" where
  "bq_BreakAllWait q = q\<lparr>bq_break_all_wait := True\<rparr>"

section \<open>One thread\<close>

text \<open>
  \<open>None\<close>: the second loop of \<^verbatim>\<open>Enqueue\<close> waits for an earlier producer, which without other threads
  never comes.
\<close>

definition bq_Enqueue :: "'a \<Rightarrow> 'a bounded_queue \<Rightarrow> (bool \<times> 'a bounded_queue) option" where
  "bq_Enqueue x q =
     (let old_tail = bq_tail q in
      if bq_full old_tail q then Some (False, q)
      else case bq_cas_tail old_tail q of
        None \<Rightarrow> None
      | Some q1 \<Rightarrow> map_option (Pair True) (bq_cas_commit old_tail (bq_write old_tail x q1)))"

definition bq_Dequeue :: "'a bounded_queue \<Rightarrow> ('a option \<times> 'a bounded_queue) option" where
  "bq_Dequeue q =
     (let old_head = bq_head q in
      if bq_nothing old_head q then Some (None, q)
      else map_option (Pair (Some (bq_read old_head q))) (bq_cas_head old_head q))"

text \<open>
  The waiting calls. Each round of waiting is a pair: what \<^verbatim>\<open>EmptyWait\<close> returned and what the
  other threads did to the queue meanwhile. \<open>None\<close>: still waiting after the given rounds.
\<close>

fun bq_WaitEnqueue ::
  "(bool \<times> ('a bounded_queue \<Rightarrow> 'a bounded_queue)) list \<Rightarrow> 'a \<Rightarrow> 'a bounded_queue \<Rightarrow>
   (bool \<times> 'a bounded_queue) option" where
  "bq_WaitEnqueue rounds x q =
     (if bq_break_all_wait q then Some (False, q)
      else case bq_Enqueue x q of
        None \<Rightarrow> None
      | Some (True, q') \<Rightarrow> Some (True, q')
      | Some (False, q') \<Rightarrow>
          (case rounds of
             [] \<Rightarrow> None
           | (woken, others) # rounds' \<Rightarrow>
               if woken then bq_WaitEnqueue rounds' x (others q') else Some (False, others q')))"

fun bq_WaitDequeue ::
  "(bool \<times> ('a bounded_queue \<Rightarrow> 'a bounded_queue)) list \<Rightarrow> 'a bounded_queue \<Rightarrow>
   ('a option \<times> 'a bounded_queue) option" where
  "bq_WaitDequeue rounds q =
     (if bq_break_all_wait q then Some (None, q)
      else case bq_Dequeue q of
        None \<Rightarrow> None
      | Some (Some x, q') \<Rightarrow> Some (Some x, q')
      | Some (None, q') \<Rightarrow>
          (case rounds of
             [] \<Rightarrow> None
           | (woken, others) # rounds' \<Rightarrow>
               if woken then bq_WaitDequeue rounds' (others q') else Some (None, others q')))"

datatype wait_strategy = BlockWait | SleepWait u64 | YieldWait | BusySpinWait | TimeoutBlockWait u64

fun EmptyWait :: "wait_strategy \<Rightarrow> bool \<Rightarrow> bool" where
  "EmptyWait (TimeoutBlockWait t) timed_out = (\<not> timed_out)"
| "EmptyWait BlockWait timed_out = True"
| "EmptyWait (SleepWait t) timed_out = True"
| "EmptyWait YieldWait timed_out = True"
| "EmptyWait BusySpinWait timed_out = True"

section \<open>Any number of threads\<close>

text \<open>
  Where a thread is in its call: the value it holds is the local variable \<^verbatim>\<open>old_tail\<close> or
  \<^verbatim>\<open>old_head\<close>. \<open>bqs_hist\<close> and \<open>bqs_out\<close> record, in the order of the successful
  compare-exchanges, the elements that claimed a slot and the elements that were handed out.
\<close>

datatype 'a bq_pc =
    Idle
  | EnqCheck 'a u64
  | EnqClaim 'a u64
  | EnqWrite 'a u64
  | EnqCommit 'a u64
  | DeqCheck u64
  | DeqRead u64
  | DeqClaim u64 'a

record 'a bq_sys =
  bqs_q :: "'a bounded_queue"
  bqs_pc :: "nat \<Rightarrow> 'a bq_pc"
  bqs_hist :: "'a list"
  bqs_out :: "'a list"

definition bqs_init :: "'a \<Rightarrow> u64 \<Rightarrow> 'a bq_sys" where
  "bqs_init dflt sz = \<lparr>bqs_q = bq_Init dflt sz, bqs_pc = (\<lambda>_. Idle), bqs_hist = [], bqs_out = []\<rparr>"

abbreviation goto :: "nat \<Rightarrow> 'a bq_pc \<Rightarrow> 'a bq_sys \<Rightarrow> 'a bq_sys" where
  "goto i pc s \<equiv> s\<lparr>bqs_pc := (bqs_pc s)(i := pc)\<rparr>"

inductive bq_step :: "'a bq_sys \<Rightarrow> 'a bq_sys \<Rightarrow> bool" where
  enq_call: "bqs_pc s i = Idle \<Longrightarrow> bq_step s (goto i (EnqCheck x (bq_tail (bqs_q s))) s)"
| enq_full: "bqs_pc s i = EnqCheck x t \<Longrightarrow> bq_full t (bqs_q s) \<Longrightarrow> bq_step s (goto i Idle s)"
| enq_room: "bqs_pc s i = EnqCheck x t \<Longrightarrow> \<not> bq_full t (bqs_q s) \<Longrightarrow> bq_step s (goto i (EnqClaim x t) s)"
| enq_retry: "bqs_pc s i = EnqClaim x t \<Longrightarrow> bq_step s (goto i (EnqCheck x (bq_tail (bqs_q s))) s)"
| enq_claim: "bqs_pc s i = EnqClaim x t \<Longrightarrow> bq_cas_tail t (bqs_q s) = Some q' \<Longrightarrow>
    bq_step s (goto i (EnqWrite x t) (s\<lparr>bqs_q := q', bqs_hist := bqs_hist s @ [x]\<rparr>))"
| enq_write: "bqs_pc s i = EnqWrite x t \<Longrightarrow>
    bq_step s (goto i (EnqCommit x t) (s\<lparr>bqs_q := bq_write t x (bqs_q s)\<rparr>))"
| enq_commit: "bqs_pc s i = EnqCommit x t \<Longrightarrow> bq_cas_commit t (bqs_q s) = Some q' \<Longrightarrow>
    bq_step s (goto i Idle (s\<lparr>bqs_q := q'\<rparr>))"
| deq_call: "bqs_pc s i = Idle \<Longrightarrow> bq_step s (goto i (DeqCheck (bq_head (bqs_q s))) s)"
| deq_none: "bqs_pc s i = DeqCheck h \<Longrightarrow> bq_nothing h (bqs_q s) \<Longrightarrow> bq_step s (goto i Idle s)"
| deq_some: "bqs_pc s i = DeqCheck h \<Longrightarrow> \<not> bq_nothing h (bqs_q s) \<Longrightarrow> bq_step s (goto i (DeqRead h) s)"
| deq_read: "bqs_pc s i = DeqRead h \<Longrightarrow> bq_step s (goto i (DeqClaim h (bq_read h (bqs_q s))) s)"
| deq_retry: "bqs_pc s i = DeqClaim h x \<Longrightarrow> bq_step s (goto i (DeqCheck (bq_head (bqs_q s))) s)"
| deq_claim: "bqs_pc s i = DeqClaim h x \<Longrightarrow> bq_cas_head h (bqs_q s) = Some q' \<Longrightarrow>
    bq_step s (goto i Idle (s\<lparr>bqs_q := q', bqs_out := bqs_out s @ [x]\<rparr>))"

text \<open>States reachable in a given number of steps.\<close>

inductive bq_run :: "'a bq_sys \<Rightarrow> nat \<Rightarrow> 'a bq_sys \<Rightarrow> bool" for s0 where
  start: "bq_run s0 0 s0"
| step: "bq_run s0 n s \<Longrightarrow> bq_step s s' \<Longrightarrow> bq_run s0 (Suc n) s'"

section \<open>Invariants\<close>

lemmas bq_action_defs = bq_full_def bq_cas_tail_def bq_write_def bq_cas_commit_def bq_nothing_def
  bq_read_def bq_cas_head_def

text \<open>The counters: \<open>h < c \<le> t\<close> and the slots from \<open>h\<close> to \<open>t\<close> fit into the pool.\<close>

definition bq_counters :: "'a bounded_queue \<Rightarrow> bool" where
  "bq_counters q =
     (unat (bq_head q) < unat (bq_commit q) \<and> unat (bq_commit q) \<le> unat (bq_tail q) \<and>
      unat (bq_tail q) < unat (bq_head q) + unat (bq_pool_size q) \<and>
      length (bq_pool q) = unat (bq_pool_size q))"

abbreviation slot :: "'a bounded_queue \<Rightarrow> nat \<Rightarrow> 'a" where
  "slot q p \<equiv> bq_pool q ! (p mod unat (bq_pool_size q))"

text \<open>The position a producer has claimed and not yet committed.\<close>

fun claims :: "'a bq_pc \<Rightarrow> nat option" where
  "claims (EnqWrite x t) = Some (unat t)"
| "claims (EnqCommit x t) = Some (unat t)"
| "claims _ = None"

fun pc_ok :: "'a bq_sys \<Rightarrow> 'a bq_pc \<Rightarrow> bool" where
  "pc_ok s Idle = True"
| "pc_ok s (EnqCheck x t) = (unat t \<le> unat (bq_tail (bqs_q s)))"
| "pc_ok s (EnqClaim x t) =
     (unat t \<le> unat (bq_tail (bqs_q s)) \<and>
      (t = bq_tail (bqs_q s) \<longrightarrow> unat t + 1 < unat (bq_head (bqs_q s)) + unat (bq_pool_size (bqs_q s))))"
| "pc_ok s (EnqWrite x t) =
     (unat (bq_commit (bqs_q s)) \<le> unat t \<and> unat t < unat (bq_tail (bqs_q s)) \<and>
      bqs_hist s ! (unat t - 1) = x)"
| "pc_ok s (EnqCommit x t) =
     (unat (bq_commit (bqs_q s)) \<le> unat t \<and> unat t < unat (bq_tail (bqs_q s)) \<and>
      bqs_hist s ! (unat t - 1) = x \<and> slot (bqs_q s) (unat t) = x)"
| "pc_ok s (DeqCheck h) = (unat h \<le> unat (bq_head (bqs_q s)))"
| "pc_ok s (DeqRead h) =
     (unat h \<le> unat (bq_head (bqs_q s)) \<and>
      (h = bq_head (bqs_q s) \<longrightarrow> unat h + 1 < unat (bq_commit (bqs_q s))))"
| "pc_ok s (DeqClaim h x) =
     (unat h \<le> unat (bq_head (bqs_q s)) \<and>
      (h = bq_head (bqs_q s) \<longrightarrow>
         unat h + 1 < unat (bq_commit (bqs_q s)) \<and> x = bqs_hist s ! unat h))"

definition bq_inv :: "'a bq_sys \<Rightarrow> bool" where
  "bq_inv s =
     (bq_counters (bqs_q s) \<and>
      length (bqs_hist s) + 1 = unat (bq_tail (bqs_q s)) \<and>
      bqs_out s = take (unat (bq_head (bqs_q s))) (bqs_hist s) \<and>
      (\<forall>p. unat (bq_head (bqs_q s)) < p \<and> p < unat (bq_commit (bqs_q s)) \<longrightarrow>
         slot (bqs_q s) p = bqs_hist s ! (p - 1)) \<and>
      (\<forall>i. pc_ok s (bqs_pc s i)) \<and>
      (\<forall>i j p. claims (bqs_pc s i) = Some p \<and> claims (bqs_pc s j) = Some p \<longrightarrow> i = j))"

text \<open>The queue at rest, for one thread: no claimed slot is uncommitted.\<close>

definition bq_at_rest :: "'a bounded_queue \<Rightarrow> bool" where
  "bq_at_rest q = (bq_counters q \<and> bq_commit q = bq_tail q)"

definition bq_contents :: "'a bounded_queue \<Rightarrow> 'a list" where
  "bq_contents q = map (\<lambda>p. slot q p) [unat (bq_head q) + 1 ..< unat (bq_commit q)]"

text \<open>Free slots, and as many as the 64-bit counter can still count.\<close>

definition bq_room :: "'a bounded_queue \<Rightarrow> nat" where
  "bq_room q = min (unat (bq_head q) + unat (bq_pool_size q) - 1 - unat (bq_tail q))
     (2 ^ 64 - 2 - unat (bq_tail q))"

definition bq_enq :: "'a \<Rightarrow> 'a bounded_queue \<Rightarrow> bool \<times> 'a bounded_queue" where
  "bq_enq x q = (case bq_Enqueue x q of Some r \<Rightarrow> r | None \<Rightarrow> (False, q))"

definition bq_deq :: "'a bounded_queue \<Rightarrow> 'a option \<times> 'a bounded_queue" where
  "bq_deq q = (case bq_Dequeue q of Some r \<Rightarrow> r | None \<Rightarrow> (None, q))"

section \<open>Indices\<close>

lemma bq_GetIndex_mod:
  "unat (bq_GetIndex q p) = unat p mod unat (bq_pool_size q)"
proof -
  have "bq_GetIndex q p = p mod bq_pool_size q"
    by (simp add: bq_GetIndex_def minus_div_mult_eq_mod)
  then show ?thesis by (simp add: unat_mod)
qed

lemma mod_eq_near:
  assumes "p mod n = r mod n" "r \<le> p" "p < r + n"
  shows "p = (r :: nat)"
proof -
  have "n dvd p - r" using assms(1) mod_eq_dvd_iff_nat [OF assms(2)] by simp
  moreover have "p - r < n" using assms(2,3) by linarith
  ultimately have "p - r = 0" using nat_dvd_not_less by blast
  then show ?thesis using assms(2) by simp
qed

lemma mod_distinct_window:
  "p mod n = r mod n \<Longrightarrow> h < p \<Longrightarrow> p < h + n \<Longrightarrow> h < r \<Longrightarrow> r < h + (n :: nat) \<Longrightarrow> p = r"
  using mod_eq_near [of p n r] mod_eq_near [of r n p] by linarith

section \<open>Every step keeps the invariant\<close>

lemma pc_ok_pc [simp]: "pc_ok (s\<lparr>bqs_pc := f\<rparr>) pc = pc_ok s pc"
  by (cases pc) auto

lemma bq_invD:
  assumes "bq_inv s"
  shows "bq_counters (bqs_q s)" "length (bqs_hist s) + 1 = unat (bq_tail (bqs_q s))"
    and "bqs_out s = take (unat (bq_head (bqs_q s))) (bqs_hist s)"
    and "\<And>i. pc_ok s (bqs_pc s i)"
    and "\<And>i j p. claims (bqs_pc s i) = Some p \<Longrightarrow> claims (bqs_pc s j) = Some p \<Longrightarrow> i = j"
    and "\<And>p. unat (bq_head (bqs_q s)) < p \<Longrightarrow> p < unat (bq_commit (bqs_q s)) \<Longrightarrow>
      slot (bqs_q s) p = bqs_hist s ! (p - 1)"
  using assms unfolding bq_inv_def by blast+

lemma bq_invI:
  assumes "bq_counters (bqs_q s)" "length (bqs_hist s) + 1 = unat (bq_tail (bqs_q s))"
    and "bqs_out s = take (unat (bq_head (bqs_q s))) (bqs_hist s)"
    and "\<And>i. pc_ok s (bqs_pc s i)"
    and "\<And>i j p. claims (bqs_pc s i) = Some p \<Longrightarrow> claims (bqs_pc s j) = Some p \<Longrightarrow> i = j"
    and "\<And>p. unat (bq_head (bqs_q s)) < p \<Longrightarrow> p < unat (bq_commit (bqs_q s)) \<Longrightarrow>
      slot (bqs_q s) p = bqs_hist s ! (p - 1)"
  shows "bq_inv s"
  using assms unfolding bq_inv_def by blast

lemma bq_inv_goto:
  assumes "bq_inv s" "pc_ok s pc" "claims pc = None"
  shows "bq_inv (goto i pc s)"
  using assms by (auto simp: bq_inv_def)

text \<open>Each thread keeps its assertion when another thread moves one of the counters.\<close>

lemma pc_ok_claim:
  assumes "pc_ok s pc" "bq_counters (bqs_q s)" "length (bqs_hist s) + 1 = unat (bq_tail (bqs_q s))"
    and "unat (bq_tail (bqs_q s)) + 1 < 2 ^ 64"
  shows "pc_ok (s\<lparr>bqs_q := (bqs_q s)\<lparr>bq_tail := bq_tail (bqs_q s) + 1\<rparr>, bqs_hist := bqs_hist s @ [x]\<rparr>) pc"
  using assms unat_plus_one [of "bq_tail (bqs_q s)"]
  by (cases pc) (auto simp: bq_counters_def nth_append)

lemma pc_ok_write:
  assumes ok: "pc_ok s pc" and c: "bq_counters (bqs_q s)"
    and t: "unat (bq_commit (bqs_q s)) \<le> unat t" "unat t < unat (bq_tail (bqs_q s))"
    and other: "claims pc \<noteq> Some (unat t)"
  shows "pc_ok (s\<lparr>bqs_q := bq_write t x (bqs_q s)\<rparr>) pc"
proof (cases pc)
  case (EnqCommit y r)
  have "unat r mod unat (bq_pool_size (bqs_q s)) \<noteq> unat t mod unat (bq_pool_size (bqs_q s))"
    using mod_distinct_window [of "unat r" "unat (bq_pool_size (bqs_q s))" "unat t" "unat (bq_head (bqs_q s))"] c t other ok EnqCommit
    by (auto simp: bq_counters_def)
  with ok EnqCommit show ?thesis by (simp add: bq_write_def bq_GetIndex_mod)
qed (use ok in \<open>auto simp: bq_write_def\<close>)

lemma pc_ok_commit:
  assumes "pc_ok s pc" "claims pc \<noteq> Some (unat (bq_commit (bqs_q s)))"
    and "unat (bq_commit (bqs_q s)) + 1 < 2 ^ 64"
  shows "pc_ok (s\<lparr>bqs_q := (bqs_q s)\<lparr>bq_commit := bq_commit (bqs_q s) + 1\<rparr>\<rparr>) pc"
  using assms unat_plus_one [of "bq_commit (bqs_q s)"] by (cases pc) auto

lemma pc_ok_head:
  assumes "pc_ok s pc" "unat (bq_head (bqs_q s)) + 1 < 2 ^ 64"
  shows "pc_ok (s\<lparr>bqs_q := (bqs_q s)\<lparr>bq_head := bq_head (bqs_q s) + 1\<rparr>, bqs_out := out\<rparr>) pc"
  using assms unat_plus_one [of "bq_head (bqs_q s)"] by (cases pc) auto

lemma bq_inv_claim:
  assumes inv: "bq_inv s" and pc: "bqs_pc s i = EnqClaim x t"
    and cas: "bq_cas_tail t (bqs_q s) = Some q'" and room: "unat (bq_tail (bqs_q s)) + 1 < 2 ^ 64"
  shows "bq_inv (goto i (EnqWrite x t) (s\<lparr>bqs_q := q', bqs_hist := bqs_hist s @ [x]\<rparr>))"
proof -
  note I = bq_invD [OF inv]
  have t: "t = bq_tail (bqs_q s)" and q': "q' = (bqs_q s)\<lparr>bq_tail := bq_tail (bqs_q s) + 1\<rparr>"
    using cas by (auto simp: bq_cas_tail_def split: if_splits)
  have u: "unat (bq_tail (bqs_q s) + 1) = unat (bq_tail (bqs_q s)) + 1"
    using room by (rule unat_plus_one_u64)
  have gap: "unat t + 1 < unat (bq_head (bqs_q s)) + unat (bq_pool_size (bqs_q s))"
    using I(4) [of i] pc t by simp
  have fresh: "claims (bqs_pc s j) \<noteq> Some (unat (bq_tail (bqs_q s)))" for j
    using I(4) [of j] by (cases "bqs_pc s j") auto
  show ?thesis
  proof (rule bq_invI)
    show "pc_ok (goto i (EnqWrite x t) (s\<lparr>bqs_q := q', bqs_hist := bqs_hist s @ [x]\<rparr>))
        (bqs_pc (goto i (EnqWrite x t) (s\<lparr>bqs_q := q', bqs_hist := bqs_hist s @ [x]\<rparr>)) j)" for j
      using pc_ok_claim [OF I(4) I(1,2) room, of x j] I(1,2) u
      by (auto simp: q' t bq_counters_def nth_append)
    show "claims (bqs_pc (goto i (EnqWrite x t) (s\<lparr>bqs_q := q', bqs_hist := bqs_hist s @ [x]\<rparr>)) j) = Some p \<Longrightarrow>
        claims (bqs_pc (goto i (EnqWrite x t) (s\<lparr>bqs_q := q', bqs_hist := bqs_hist s @ [x]\<rparr>)) k) = Some p \<Longrightarrow>
        j = k" for j k p
      using I(5) fresh t by (auto split: if_splits)
  qed (use I(1-3,6) u gap in \<open>auto simp: q' t bq_counters_def nth_append split: if_splits\<close>)
qed

lemma bq_inv_write:
  assumes inv: "bq_inv s" and pc: "bqs_pc s i = EnqWrite x t"
  shows "bq_inv (goto i (EnqCommit x t) (s\<lparr>bqs_q := bq_write t x (bqs_q s)\<rparr>))"
proof -
  note I = bq_invD [OF inv]
  let ?q = "bqs_q s" and ?n = "unat (bq_pool_size (bqs_q s))"
  have t: "unat (bq_commit ?q) \<le> unat t" "unat t < unat (bq_tail ?q)" "bqs_hist s ! (unat t - 1) = x"
    using I(4) [of i] pc by auto
  have len: "length (bq_pool ?q) = ?n" "0 < ?n" using I(1) t by (auto simp: bq_counters_def)
  have other: "claims (bqs_pc s j) \<noteq> Some (unat t)" if "j \<noteq> i" for j
    using I(5) [of i "unat t" j] pc that by auto
  have far: "p mod ?n \<noteq> unat t mod ?n" if "unat (bq_head ?q) < p" "p < unat (bq_commit ?q)" for p
    using mod_distinct_window [of p ?n "unat t" "unat (bq_head ?q)"] that t I(1)
    by (auto simp: bq_counters_def)
  show ?thesis
  proof (rule bq_invI)
    show "pc_ok (goto i (EnqCommit x t) (s\<lparr>bqs_q := bq_write t x ?q\<rparr>))
        (bqs_pc (goto i (EnqCommit x t) (s\<lparr>bqs_q := bq_write t x ?q\<rparr>)) j)" for j
      using pc_ok_write [OF I(4) I(1) t(1,2) other, of j x] t len
      by (auto simp: bq_write_def bq_GetIndex_mod)
    show "slot (bqs_q (goto i (EnqCommit x t) (s\<lparr>bqs_q := bq_write t x ?q\<rparr>))) p =
        bqs_hist (goto i (EnqCommit x t) (s\<lparr>bqs_q := bq_write t x ?q\<rparr>)) ! (p - 1)"
      if "unat (bq_head (bqs_q (goto i (EnqCommit x t) (s\<lparr>bqs_q := bq_write t x ?q\<rparr>)))) < p"
        "p < unat (bq_commit (bqs_q (goto i (EnqCommit x t) (s\<lparr>bqs_q := bq_write t x ?q\<rparr>))))" for p
      using that I(6) [of p] far [of p] by (simp add: bq_write_def bq_GetIndex_mod)
  qed (use I pc other in \<open>auto simp: bq_write_def bq_counters_def split: if_splits\<close>)
qed

lemma bq_inv_commit:
  assumes inv: "bq_inv s" and pc: "bqs_pc s i = EnqCommit x t"
    and cas: "bq_cas_commit t (bqs_q s) = Some q'" and room: "unat (bq_tail (bqs_q s)) + 1 < 2 ^ 64"
  shows "bq_inv (goto i Idle (s\<lparr>bqs_q := q'\<rparr>))"
proof -
  note I = bq_invD [OF inv]
  have t: "t = bq_commit (bqs_q s)" and q': "q' = (bqs_q s)\<lparr>bq_commit := bq_commit (bqs_q s) + 1\<rparr>"
    using cas by (auto simp: bq_cas_commit_def split: if_splits)
  have mine: "unat t < unat (bq_tail (bqs_q s))" "slot (bqs_q s) (unat t) = bqs_hist s ! (unat t - 1)"
    using I(4) [of i] pc by auto
  then have room': "unat (bq_commit (bqs_q s)) + 1 < 2 ^ 64" using room t by simp
  then have u: "unat (bq_commit (bqs_q s) + 1) = unat (bq_commit (bqs_q s)) + 1"
    by (rule unat_plus_one_u64)
  have other: "claims (bqs_pc s j) \<noteq> Some (unat (bq_commit (bqs_q s)))" if "j \<noteq> i" for j
    using I(5) [of i "unat t" j] pc that t by auto
  show ?thesis
  proof (rule bq_invI)
    show "pc_ok (goto i Idle (s\<lparr>bqs_q := q'\<rparr>)) (bqs_pc (goto i Idle (s\<lparr>bqs_q := q'\<rparr>)) j)" for j
      using pc_ok_commit [OF I(4) other room', of j] by (auto simp: q')
    show "slot (bqs_q (goto i Idle (s\<lparr>bqs_q := q'\<rparr>))) p = bqs_hist (goto i Idle (s\<lparr>bqs_q := q'\<rparr>)) ! (p - 1)"
      if "unat (bq_head (bqs_q (goto i Idle (s\<lparr>bqs_q := q'\<rparr>)))) < p"
        "p < unat (bq_commit (bqs_q (goto i Idle (s\<lparr>bqs_q := q'\<rparr>))))" for p
      using that I(6) [of p] mine t u by (cases "p = unat t") (auto simp: q')
  qed (use I u mine t in \<open>auto simp: q' bq_counters_def split: if_splits\<close>)
qed

lemma bq_inv_head:
  assumes inv: "bq_inv s" and pc: "bqs_pc s i = DeqClaim h x"
    and cas: "bq_cas_head h (bqs_q s) = Some q'" and room: "unat (bq_tail (bqs_q s)) + 1 < 2 ^ 64"
  shows "bq_inv (goto i Idle (s\<lparr>bqs_q := q', bqs_out := bqs_out s @ [x]\<rparr>))"
proof -
  note I = bq_invD [OF inv]
  have h: "h = bq_head (bqs_q s)" and q': "q' = (bqs_q s)\<lparr>bq_head := bq_head (bqs_q s) + 1\<rparr>"
    using cas by (auto simp: bq_cas_head_def split: if_splits)
  have mine: "unat h + 1 < unat (bq_commit (bqs_q s))" "x = bqs_hist s ! unat h"
    using I(4) [of i] pc h by auto
  then have room': "unat (bq_head (bqs_q s)) + 1 < 2 ^ 64"
    using room h I(1) by (simp add: bq_counters_def)
  then have u: "unat (bq_head (bqs_q s) + 1) = unat (bq_head (bqs_q s)) + 1"
    by (rule unat_plus_one_u64)
  have "unat h < length (bqs_hist s)" using mine I(1,2) by (simp add: bq_counters_def)
  then have out: "bqs_out s @ [x] = take (unat (bq_head (bqs_q s)) + 1) (bqs_hist s)"
    using I(3) mine(2) h by (simp add: take_Suc_conv_app_nth)
  show ?thesis
  proof (rule bq_invI)
    show "pc_ok (goto i Idle (s\<lparr>bqs_q := q', bqs_out := bqs_out s @ [x]\<rparr>))
        (bqs_pc (goto i Idle (s\<lparr>bqs_q := q', bqs_out := bqs_out s @ [x]\<rparr>)) j)" for j
      using pc_ok_head [OF I(4) room', of _ j] by (auto simp: q')
  qed (use I u mine h out in \<open>auto simp: q' bq_counters_def split: if_splits\<close>)
qed

lemma bq_full_gap:
  assumes "bq_inv s" "\<not> bq_full t (bqs_q s)" "t = bq_tail (bqs_q s)" "unat (bq_tail (bqs_q s)) + 1 < 2 ^ 64"
  shows "unat t + 1 < unat (bq_head (bqs_q s)) + unat (bq_pool_size (bqs_q s))"
proof (rule ccontr)
  assume "\<not> ?thesis"
  then have "unat t + 1 = unat (bq_head (bqs_q s)) + unat (bq_pool_size (bqs_q s))"
    using bq_invD(1) [OF assms(1)] assms(3) by (simp add: bq_counters_def)
  then have "unat (bq_GetIndex (bqs_q s) (t + 1)) = unat (bq_GetIndex (bqs_q s) (bq_head (bqs_q s)))"
    using assms(3,4) by (simp add: bq_GetIndex_mod unat_plus_one_u64)
  then show False using assms(2) by (simp add: bq_full_def word_unat_eq_iff)
qed

lemma bq_nothing_gap:
  assumes "bq_inv s" "\<not> bq_nothing h (bqs_q s)" "h = bq_head (bqs_q s)" "unat (bq_tail (bqs_q s)) + 1 < 2 ^ 64"
  shows "unat h + 1 < unat (bq_commit (bqs_q s))"
proof -
  have "unat h < unat (bq_commit (bqs_q s))" "unat (bq_commit (bqs_q s)) \<le> unat (bq_tail (bqs_q s))"
    using bq_invD(1) [OF assms(1)] assms(3) by (auto simp: bq_counters_def)
  then have "unat (h + 1) = unat h + 1" using assms(4) by (intro unat_plus_one_u64) linarith
  with assms(2) \<open>unat h < unat (bq_commit (bqs_q s))\<close> show ?thesis
    by (auto simp: bq_nothing_def word_unat_eq_iff)
qed

lemma bq_inv_step:
  assumes "bq_step s s'" "bq_inv s" "unat (bq_tail (bqs_q s)) + 1 < 2 ^ 64"
  shows "bq_inv s' \<and> unat (bq_tail (bqs_q s')) \<le> unat (bq_tail (bqs_q s)) + 1"
  using assms
proof (cases rule: bq_step.cases)
  case (enq_room i x t)
  then show ?thesis
    using assms(2,3) bq_full_gap [OF assms(2)] bq_invD(4) [OF assms(2), of i] by (auto intro!: bq_inv_goto)
next
  case (deq_some i h)
  then show ?thesis
    using assms(2,3) bq_nothing_gap [OF assms(2)] bq_invD(4) [OF assms(2), of i] by (auto intro!: bq_inv_goto)
next
  case (deq_read i h)
  have "bq_read h (bqs_q s) = bqs_hist s ! unat h"
    if "h = bq_head (bqs_q s)" "unat h + 1 < unat (bq_commit (bqs_q s))"
    using bq_invD(6) [OF assms(2), of "unat h + 1"] that assms(3) bq_invD(1) [OF assms(2)]
    by (simp add: bq_read_def bq_GetIndex_mod unat_plus_one_u64 bq_counters_def)
  then show ?thesis
    using deq_read assms(2,3) bq_invD(4) [OF assms(2), of i] by (auto intro!: bq_inv_goto)
next
  case (enq_claim i x t q')
  then have "unat (bq_tail q') \<le> unat (bq_tail (bqs_q s)) + 1"
    using assms(3) by (auto simp: bq_cas_tail_def unat_plus_one_u64 split: if_splits)
  then show ?thesis using enq_claim bq_inv_claim [OF assms(2) _ _ assms(3)] by simp
next
  case (enq_write i x t)
  then show ?thesis using bq_inv_write [OF assms(2)] by (simp add: bq_write_def)
next
  case (enq_commit i x t q')
  then have "bq_tail q' = bq_tail (bqs_q s)" by (auto simp: bq_cas_commit_def split: if_splits)
  then show ?thesis using enq_commit bq_inv_commit [OF assms(2) _ _ assms(3)] by simp
next
  case (deq_claim i h x q')
  then have "bq_tail q' = bq_tail (bqs_q s)" by (auto simp: bq_cas_head_def split: if_splits)
  then show ?thesis using deq_claim bq_inv_head [OF assms(2) _ _ assms(3)] by simp
qed (use assms(2) in \<open>auto intro!: bq_inv_goto\<close>)

lemma bq_inv_init:
  assumes "unat sz + 2 < 2 ^ 64"
  shows "bq_inv (bqs_init dflt sz)"
proof -
  have "unat (sz + 2) = unat sz + 2"
    using assms by (simp add: unat_word_ariths)
  then show ?thesis by (auto simp: bq_inv_def bqs_init_def bq_Init_def bq_counters_def)
qed

lemma bq_pool_size_step: "bq_step s s' \<Longrightarrow> bq_pool_size (bqs_q s') = bq_pool_size (bqs_q s)"
  by (cases rule: bq_step.cases, assumption)
    (auto simp: bq_cas_tail_def bq_write_def bq_cas_commit_def bq_cas_head_def split: if_splits)

lemma bq_run_inv:
  assumes "bq_run (bqs_init dflt sz) n s" "unat sz + 2 < 2 ^ 64" "n + 2 < 2 ^ 64"
  shows "bq_inv s \<and> unat (bq_tail (bqs_q s)) \<le> n + 1 \<and> bq_pool_size (bqs_q s) = sz + 2"
  using assms
proof (induction rule: bq_run.induct)
  case start
  then show ?case using bq_inv_init by (simp add: bqs_init_def bq_Init_def)
next
  case (step n s s')
  then have s: "bq_inv s" "unat (bq_tail (bqs_q s)) \<le> n + 1" "bq_pool_size (bqs_q s) = sz + 2"
    by auto
  then have "unat (bq_tail (bqs_q s)) + 1 < 2 ^ 64" using step.prems by simp
  from bq_inv_step [OF step.hyps(2) s(1) this] bq_pool_size_step [OF step.hyps(2)] s show ?case by simp
qed

text \<open>A call of one thread is a run of its atomic steps with no other thread in between.\<close>

lemma enqueue_is_five_steps:
  assumes run: "bq_run s0 n s" and idle: "bqs_pc s i = Idle" and enq: "bq_Enqueue x (bqs_q s) = Some (True, q')"
  shows "bq_run s0 (n + 5) (s\<lparr>bqs_hist := bqs_hist s @ [x], bqs_q := q'\<rparr>)"
proof -
  let ?t = "bq_tail (bqs_q s)"
  obtain q1 where q1: "\<not> bq_full ?t (bqs_q s)" "bq_cas_tail ?t (bqs_q s) = Some q1"
    "bq_cas_commit ?t (bq_write ?t x q1) = Some q'"
    using enq by (auto simp: bq_Enqueue_def Let_def split: if_splits option.splits)
  have same: "(bqs_pc s)(i := Idle) = bqs_pc s" using idle by auto
  have 1: "bq_run s0 (Suc n) (goto i (EnqCheck x ?t) s)"
    by (rule bq_run.step [OF run bq_step.enq_call [OF idle]])
  have 2: "bq_run s0 (Suc (Suc n)) (goto i (EnqClaim x ?t) s)"
    using bq_run.step [OF 1 bq_step.enq_room [of _ i x ?t]] q1 by simp
  have 3: "bq_run s0 (Suc (Suc (Suc n)))
      (goto i (EnqWrite x ?t) (s\<lparr>bqs_q := q1, bqs_hist := bqs_hist s @ [x]\<rparr>))"
    using bq_run.step [OF 2 bq_step.enq_claim [of _ i x ?t q1]] q1 by simp
  have 4: "bq_run s0 (Suc (Suc (Suc (Suc n))))
      (goto i (EnqCommit x ?t) (s\<lparr>bqs_hist := bqs_hist s @ [x], bqs_q := bq_write ?t x q1\<rparr>))"
    using bq_run.step [OF 3 bq_step.enq_write [of _ i x ?t]] by simp
  show ?thesis
    using bq_run.step [OF 4 bq_step.enq_commit [of _ i x ?t q']] q1 same by (simp add: eval_nat_numeral)
qed

lemma dequeue_is_four_steps:
  assumes run: "bq_run s0 n s" and idle: "bqs_pc s i = Idle" and deq: "bq_Dequeue (bqs_q s) = Some (Some x, q')"
  shows "bq_run s0 (n + 4) (s\<lparr>bqs_q := q', bqs_out := bqs_out s @ [x]\<rparr>)"
proof -
  let ?h = "bq_head (bqs_q s)"
  have q: "\<not> bq_nothing ?h (bqs_q s)" "bq_cas_head ?h (bqs_q s) = Some q'" "x = bq_read ?h (bqs_q s)"
    using deq by (auto simp: bq_Dequeue_def Let_def split: if_splits)
  have same: "(bqs_pc s)(i := Idle) = bqs_pc s" using idle by auto
  have 1: "bq_run s0 (Suc n) (goto i (DeqCheck ?h) s)"
    by (rule bq_run.step [OF run bq_step.deq_call [OF idle]])
  have 2: "bq_run s0 (Suc (Suc n)) (goto i (DeqRead ?h) s)"
    using bq_run.step [OF 1 bq_step.deq_some [of _ i ?h]] q by simp
  have 3: "bq_run s0 (Suc (Suc (Suc n))) (goto i (DeqClaim ?h x) s)"
    using bq_run.step [OF 2 bq_step.deq_read [of _ i ?h]] q by simp
  show ?thesis
    using bq_run.step [OF 3 bq_step.deq_claim [of _ i ?h x q']] q same by (simp add: eval_nat_numeral)
qed

text \<open>
  Claim C8. However any number of producers and consumers interleave, the elements handed out by
  \<^verbatim>\<open>Dequeue\<close> are exactly the first elements that \<^verbatim>\<open>Enqueue\<close> accepted, in the order in which they
  were accepted: nothing is lost, duplicated, reordered or made up. And no more than the initial
  size is ever in the queue.
\<close>

theorem bounded_queue_linearizable:
  assumes "bq_run (bqs_init dflt sz) n s" and "unat sz + 2 < 2 ^ 64" and "n + 2 < 2 ^ 64"
  shows "bqs_out s = take (length (bqs_out s)) (bqs_hist s) \<and>
    length (bqs_hist s) \<le> length (bqs_out s) + unat sz"
proof -
  note inv = bq_run_inv [OF assms]
  then have I: "bq_counters (bqs_q s)" "length (bqs_hist s) + 1 = unat (bq_tail (bqs_q s))"
    "bqs_out s = take (unat (bq_head (bqs_q s))) (bqs_hist s)"
    by (auto simp: bq_inv_def)
  have len: "length (bqs_out s) = unat (bq_head (bqs_q s))"
    using I by (simp add: bq_counters_def)
  have "unat (sz + 2) = unat sz + 2" using assms(2) by (simp add: unat_word_ariths)
  then show ?thesis using I len inv by (simp add: bq_counters_def)
qed

theorem bounded_queue_linearizable_witness:
  "\<exists>s. bq_run (bqs_init (0 :: nat) 2) 14 s \<and> bqs_out s = [7] \<and> bqs_hist s = [7, 8] \<and>
     bqs_out s = take (length (bqs_out s)) (bqs_hist s) \<and>
     length (bqs_hist s) \<le> length (bqs_out s) + unat (2 :: u64)"
proof -
  let ?init = "bqs_init (0 :: nat) 2"
  let ?q1 = "\<lparr>bq_head = 0, bq_tail = 2, bq_commit = 2, bq_pool_size = 4, bq_pool = [0, 7, 0, 0],
      bq_break_all_wait = False\<rparr>"
  let ?q2 = "?q1\<lparr>bq_tail := 3, bq_commit := 3, bq_pool := [0, 7, 8, 0]\<rparr>"
  note defs = bqs_init_def bq_Init_def bq_Enqueue_def bq_Dequeue_def bq_action_defs bq_GetIndex_def
  have upd: "[a, b, c, d][2 := v] = [a, b, v, d]" for a b c d v :: nat by (simp add: numeral_2_eq_2)
  have "replicate 4 (0 :: nat) = [0, 0, 0, 0]" by (simp add: eval_nat_numeral)
  then have e1: "bq_Enqueue 7 (bqs_q ?init) = Some (True, ?q1)" by (simp add: defs)
  have e2: "bq_Enqueue 8 ?q1 = Some (True, ?q2)" by (simp add: defs upd)
  have d: "bq_Dequeue ?q2 = Some (Some 7, ?q2\<lparr>bq_head := 1\<rparr>)" by (simp add: defs)
  have idle: "bqs_pc ?init i = Idle" for i by (simp add: bqs_init_def)
  let ?s = "?init\<lparr>bqs_q := ?q2\<lparr>bq_head := 1\<rparr>, bqs_hist := [7, 8], bqs_out := [7]\<rparr>"
  have r1: "bq_run ?init 5 (?init\<lparr>bqs_hist := [7], bqs_q := ?q1\<rparr>)"
    using enqueue_is_five_steps [OF bq_run.start idle e1] by (simp add: bqs_init_def)
  have r2: "bq_run ?init 10 (?init\<lparr>bqs_hist := [7, 8], bqs_q := ?q2\<rparr>)"
    using enqueue_is_five_steps [OF r1, of 0 8 ?q2] e2 idle by (simp add: bqs_init_def)
  have r3: "bq_run ?init 14 ?s"
    using dequeue_is_four_steps [OF r2, of 0 7] d idle by (simp add: bqs_init_def)
  then show ?thesis
    using bounded_queue_linearizable [OF r3] by (intro exI [of _ ?s]) simp
qed

section \<open>One thread: a FIFO queue\<close>

lemma bq_restD:
  assumes "bq_at_rest q"
  shows "bq_counters q" "bq_commit q = bq_tail q" "0 < unat (bq_pool_size q)"
    and "unat (bq_head q) < unat (bq_tail q)" "unat (bq_tail q) < unat (bq_head q) + unat (bq_pool_size q)"
    and "length (bq_pool q) = unat (bq_pool_size q)"
  using assms by (auto simp: bq_at_rest_def bq_counters_def)

lemma bq_Enqueue_at_rest:
  assumes "bq_at_rest q" "0 < bq_room q"
  shows "bq_Enqueue x q = Some (True, q\<lparr>bq_tail := bq_tail q + 1, bq_commit := bq_tail q + 1,
    bq_pool := (bq_pool q)[unat (bq_tail q) mod unat (bq_pool_size q) := x]\<rparr>)"
proof -
  note r = bq_restD [OF assms(1)]
  have u: "unat (bq_tail q + 1) = unat (bq_tail q) + 1"
    using assms(2) by (intro unat_plus_one_u64) (simp add: bq_room_def)
  have gap: "unat (bq_tail q) + 1 < unat (bq_head q) + unat (bq_pool_size q)"
    using assms(2) by (simp add: bq_room_def)
  then have "(unat (bq_tail q) + 1) mod unat (bq_pool_size q) \<noteq> unat (bq_head q) mod unat (bq_pool_size q)"
    using mod_eq_near [of "unat (bq_tail q) + 1" "unat (bq_pool_size q)" "unat (bq_head q)"] r(4) by auto
  then have "\<not> bq_full (bq_tail q) q"
    using u by (simp add: bq_full_def word_unat_eq_iff bq_GetIndex_mod)
  moreover have "unat (bq_GetIndex (q\<lparr>bq_tail := t\<rparr>) p) = unat p mod unat (bq_pool_size q)" for t p
    by (simp add: bq_GetIndex_mod)
  ultimately show ?thesis
    using r(2) by (simp add: bq_Enqueue_def Let_def bq_cas_tail_def bq_write_def bq_cas_commit_def)
qed

lemma bq_enq_ok:
  assumes rest: "bq_at_rest q" and room: "0 < bq_room q"
  shows "fst (bq_enq x q) \<and> bq_contents (snd (bq_enq x q)) = bq_contents q @ [x] \<and>
    bq_at_rest (snd (bq_enq x q)) \<and> bq_room (snd (bq_enq x q)) \<ge> bq_room q - 1"
proof -
  note r = bq_restD [OF rest]
  let ?n = "unat (bq_pool_size q)" and ?t = "unat (bq_tail q)" and ?h = "unat (bq_head q)"
  have u: "unat (bq_tail q + 1) = ?t + 1"
    using room by (intro unat_plus_one_u64) (simp add: bq_room_def)
  have "(bq_pool q)[?t mod ?n := x] ! (p mod ?n) = bq_pool q ! (p mod ?n)" if "?h < p" "p < ?t" for p
    using mod_distinct_window [of p ?n ?t ?h] that r by (intro nth_list_update_neq) auto
  then have "map (\<lambda>p. (bq_pool q)[?t mod ?n := x] ! (p mod ?n)) [?h + 1 ..< ?t] =
      map (\<lambda>p. bq_pool q ! (p mod ?n)) [?h + 1 ..< ?t]"
    by simp
  then have "bq_contents (snd (bq_enq x q)) = bq_contents q @ [x]"
    using r u by (simp add: bq_enq_def bq_Enqueue_at_rest [OF assms] bq_contents_def)
  then show ?thesis
    using r u room
    by (auto simp: bq_enq_def bq_Enqueue_at_rest [OF assms] bq_at_rest_def bq_counters_def bq_room_def)
qed

lemma bq_contents_Nil: "bq_at_rest q \<Longrightarrow> bq_contents q = [] \<longleftrightarrow> unat (bq_head q) + 1 = unat (bq_tail q)"
  using bq_restD [of q] by (auto simp: bq_contents_def)

lemma unat_head_plus_one:
  assumes "bq_at_rest q"
  shows "unat (bq_head q + 1) = unat (bq_head q) + 1"
proof -
  have "unat (bq_tail q) < 2 ^ 64" by (rule unat_u64_bound)
  then show ?thesis using bq_restD(4) [OF assms] by (intro unat_plus_one_u64) linarith
qed

lemma bq_nothing_at_rest: "bq_at_rest q \<Longrightarrow> bq_nothing (bq_head q) q \<longleftrightarrow> bq_contents q = []"
  using bq_restD(2) [of q] by (simp add: bq_nothing_def bq_contents_Nil word_unat_eq_iff unat_head_plus_one)

lemma bq_deq_none: "bq_at_rest q \<Longrightarrow> bq_contents q = [] \<Longrightarrow> bq_deq q = (None, q)"
  by (simp add: bq_deq_def bq_Dequeue_def bq_nothing_at_rest)

lemma bq_deq_ok:
  assumes rest: "bq_at_rest q" and c: "bq_contents q = y # ys"
  shows "fst (bq_deq q) = Some y \<and> bq_contents (snd (bq_deq q)) = ys \<and> bq_at_rest (snd (bq_deq q))"
proof -
  note r = bq_restD [OF rest] and u = unat_head_plus_one [OF rest]
  have h: "unat (bq_head q) + 1 < unat (bq_tail q)"
    using bq_contents_Nil [OF rest] c r(4) by force
  have "bq_contents q = slot q (unat (bq_head q) + 1) # map (\<lambda>p. slot q p) [unat (bq_head q) + 2 ..< unat (bq_tail q)]"
    using h r(2) by (simp add: bq_contents_def upt_conv_Cons)
  then have y: "y = slot q (unat (bq_head q) + 1)" "ys = map (\<lambda>p. slot q p) [unat (bq_head q) + 2 ..< unat (bq_tail q)]"
    using c by auto
  have "\<not> bq_nothing (bq_head q) q" using bq_nothing_at_rest [OF rest] c by simp
  then have "bq_deq q = (Some y, q\<lparr>bq_head := bq_head q + 1\<rparr>)"
    using y(1) u by (simp add: bq_deq_def bq_Dequeue_def Let_def bq_read_def bq_cas_head_def bq_GetIndex_mod)
  then show ?thesis
    using y(2) u h r by (simp add: bq_contents_def bq_at_rest_def bq_counters_def)
qed

interpretation bq: fifo_queue bq_contents bq_enq bq_deq bq_room bq_at_rest
  by unfold_locales (simp_all only: bq_enq_ok bq_deq_ok bq_deq_none simp_thms)

lemma bq_at_rest_Init:
  assumes "unat sz + 2 < 2 ^ 64"
  shows "bq_at_rest (bq_Init dflt sz)" "bq_contents (bq_Init dflt sz) = []"
    and "bq_room (bq_Init dflt sz) = unat sz"
proof -
  have u: "unat (sz + 2) = unat sz + 2" using assms by (simp add: unat_word_ariths)
  then show "bq_at_rest (bq_Init dflt sz)" "bq_contents (bq_Init dflt sz) = []"
    by (simp_all add: bq_at_rest_def bq_counters_def bq_Init_def bq_contents_def)
  show "bq_room (bq_Init dflt sz) = unat sz"
    using assms u by (simp add: bq_room_def bq_Init_def)
qed

lemma bq_full_iff:
  assumes rest: "bq_at_rest q" and u: "unat (bq_tail q) + 1 < 2 ^ 64"
  shows "bq_full (bq_tail q) q \<longleftrightarrow> length (bq_contents q) + 2 = unat (bq_pool_size q)"
proof -
  note r = bq_restD [OF rest]
  let ?n = "unat (bq_pool_size q)" and ?t = "unat (bq_tail q)" and ?h = "unat (bq_head q)"
  have len: "length (bq_contents q) = ?t - ?h - 1" using r(2) by (simp add: bq_contents_def)
  have "bq_full (bq_tail q) q \<longleftrightarrow> (?t + 1) mod ?n = ?h mod ?n"
    using u by (simp add: bq_full_def word_unat_eq_iff bq_GetIndex_mod unat_plus_one_u64)
  also have "\<dots> \<longleftrightarrow> ?t + 1 = ?h + ?n"
  proof (cases "?t + 1 < ?h + ?n")
    case False
    then have "?t + 1 = ?h + ?n" using r(5) by linarith
    then show ?thesis by (simp only: mod_add_self2 simp_thms)
  qed (use mod_eq_near [of "?t + 1" ?n ?h] r(4) in auto)
  finally show ?thesis using len r(4) by linarith
qed

lemma bq_enq_frame:
  "bq_head (snd (bq_enq x q)) = bq_head q" "bq_pool_size (snd (bq_enq x q)) = bq_pool_size q"
  by (auto simp: bq_enq_def bq_Enqueue_def Let_def bq_cas_tail_def bq_cas_commit_def bq_write_def
      split: option.splits)

lemma bq_enqs_frame:
  "bq_head (bq.enqs xs q) = bq_head q" "bq_pool_size (bq.enqs xs q) = bq_pool_size q"
  by (induction xs arbitrary: q) (simp_all add: bq_enq_frame)

text \<open>
  For one thread, a queue of any size gives back what was put in, in the same order; it
  accepts exactly as many elements as its size and then refuses, without changing.
\<close>

lemma bounded_queue_fifo:
  assumes "unat sz + 2 < 2 ^ 64" and "length xs \<le> unat sz"
  shows "fst (bq.deqs (length xs) (bq.enqs xs (bq_Init dflt sz))) = map Some xs \<and>
    (length xs = unat sz \<longrightarrow>
      bq_Enqueue y (bq.enqs xs (bq_Init dflt sz)) = Some (False, bq.enqs xs (bq_Init dflt sz)))"
proof -
  note new = bq_at_rest_Init [OF assms(1), of dflt]
  let ?q = "bq.enqs xs (bq_Init dflt sz)"
  have c: "bq_contents ?q = xs" "bq_at_rest ?q"
    using bq.enqs_contents [OF new(1), of xs] new(2,3) assms(2) by simp_all
  have u: "unat (sz + 2) = unat sz + 2" using assms(1) by (simp add: unat_word_ariths)
  have "length (bq_contents ?q) = unat (bq_tail ?q) - unat (bq_head ?q) - 1"
    using bq_restD(2) [OF c(2)] by (simp add: bq_contents_def)
  then have "unat (bq_tail ?q) = length xs + 1"
    using c(1) bq_restD(4) [OF c(2)] by (simp add: bq_enqs_frame bq_Init_def)
  then have "bq_full (bq_tail ?q) ?q" if "length xs = unat sz"
    using bq_full_iff [OF c(2)] c(1) that assms(1) u by (simp add: bq_enqs_frame bq_Init_def)
  then show ?thesis
    using bq.fifo_order [OF new(1,2), of xs] new(3) assms(2) by (simp add: bq_Enqueue_def)
qed

lemma bounded_queue_fifo_witness:
  "fst (bq.deqs (length [5 :: nat, 6]) (bq.enqs [5, 6] (bq_Init (0 :: nat) 2))) = [Some 5, Some 6] \<and>
   bq_Enqueue 7 (bq.enqs [5, 6] (bq_Init (0 :: nat) 2)) = Some (False, bq.enqs [5, 6] (bq_Init 0 2))"
  using bounded_queue_fifo [of 2 "[5, 6]" "0 :: nat" 7] by (simp del: bq.enqs.simps bq.deqs.simps)

end
