(* ===== verification/Base_UnboundedQueue.thy ===== *)
theory Base_UnboundedQueue
  imports Cyber_Interfaces
begin

text \<open>
  The two list-shaped queues of \<^verbatim>\<open>cyber/base\<close>: \<^verbatim>\<open>unbounded_queue.h\<close>, a linked list of
  reference-counted nodes on an explicit heap, and \<^verbatim>\<open>thread_safe_queue.h\<close>, a \<^verbatim>\<open>std::queue\<close> under a
  mutex.

  A freed node is one the heap maps to \<open>None\<close>; an access to it makes the operation \<open>None\<close>. The
  operations are those of one thread at a time (the compare-exchange loops succeed at once).
\<close>

section \<open>UnboundedQueue\<close>

record 'a uq_node =
  nd_data :: 'a
  nd_ref_count :: u32
  nd_next :: "nat option"

type_synonym 'a uq_heap = "nat \<Rightarrow> 'a uq_node option"

record 'a unbounded_queue =
  uq_heap :: "'a uq_heap"
  uq_fresh :: nat
  uq_head :: nat
  uq_tail :: nat
  uq_size :: u64

definition new_Node :: "'a \<Rightarrow> 'a uq_node" where
  "new_Node x = \<lparr>nd_data = x, nd_ref_count = 2, nd_next = None\<rparr>"

definition nd_release :: "nat \<Rightarrow> 'a uq_heap \<Rightarrow> 'a uq_heap option" where
  "nd_release a h =
     (case h a of
        None \<Rightarrow> None
      | Some nd \<Rightarrow>
          (let count = nd_ref_count nd - 1 in
           Some (if count = 0 then h(a := None) else h(a \<mapsto> nd\<lparr>nd_ref_count := count\<rparr>))))"

definition uq_Reset :: "'a \<Rightarrow> 'a uq_heap \<Rightarrow> nat \<Rightarrow> 'a unbounded_queue" where
  "uq_Reset dflt h fresh =
     \<lparr>uq_heap = h(fresh \<mapsto> new_Node dflt), uq_fresh = fresh + 1, uq_head = fresh, uq_tail = fresh,
      uq_size = 0\<rparr>"

definition UnboundedQueue :: "'a \<Rightarrow> 'a unbounded_queue" where
  "UnboundedQueue dflt = uq_Reset dflt (\<lambda>_. None) 0"

definition uq_Enqueue :: "'a \<Rightarrow> 'a unbounded_queue \<Rightarrow> 'a unbounded_queue option" where
  "uq_Enqueue x q =
     (let node = uq_fresh q; old_tail = uq_tail q; h1 = (uq_heap q)(node \<mapsto> new_Node x) in
      case h1 old_tail of
        None \<Rightarrow> None
      | Some nd \<Rightarrow>
          map_option
            (\<lambda>h2. q\<lparr>uq_heap := h2, uq_fresh := node + 1, uq_tail := node, uq_size := uq_size q + 1\<rparr>)
            (nd_release old_tail (h1(old_tail \<mapsto> nd\<lparr>nd_next := Some node\<rparr>))))"

definition uq_Dequeue :: "'a unbounded_queue \<Rightarrow> ('a option \<times> 'a unbounded_queue) option" where
  "uq_Dequeue q =
     (let old_head = uq_head q in
      case uq_heap q old_head of
        None \<Rightarrow> None
      | Some nd \<Rightarrow>
          (case nd_next nd of
             None \<Rightarrow> Some (None, q)
           | Some head_next \<Rightarrow>
               (case uq_heap q head_next of
                  None \<Rightarrow> None
                | Some nx \<Rightarrow>
                    map_option
                      (\<lambda>h. (Some (nd_data nx),
                             q\<lparr>uq_heap := h, uq_head := head_next, uq_size := uq_size q - 1\<rparr>))
                      (nd_release old_head (uq_heap q)))))"

definition uq_Empty :: "'a unbounded_queue \<Rightarrow> bool" where
  "uq_Empty q = (uq_size q = 0)"

partial_function (option) uq_Destroy_loop :: "nat option \<Rightarrow> 'a uq_heap \<Rightarrow> 'a uq_heap option" where
  "uq_Destroy_loop ite h =
     (case ite of
        None \<Rightarrow> Some h
      | Some a \<Rightarrow>
          (case h a of
             None \<Rightarrow> None
           | Some nd \<Rightarrow> uq_Destroy_loop (nd_next nd) (h(a := None))))"

definition uq_Destroy :: "'a unbounded_queue \<Rightarrow> 'a uq_heap option" where
  "uq_Destroy q = uq_Destroy_loop (Some (uq_head q)) (uq_heap q)"

definition uq_Clear :: "'a \<Rightarrow> 'a unbounded_queue \<Rightarrow> 'a unbounded_queue option" where
  "uq_Clear dflt q = map_option (\<lambda>h. uq_Reset dflt h (uq_fresh q)) (uq_Destroy q)"

section \<open>ThreadSafeQueue\<close>

record 'a thread_safe_queue =
  tq_queue :: "'a list"
  tq_break_all_wait :: bool

definition ThreadSafeQueue :: "'a thread_safe_queue" where
  "ThreadSafeQueue = \<lparr>tq_queue = [], tq_break_all_wait = False\<rparr>"

definition tq_Enqueue :: "'a \<Rightarrow> 'a thread_safe_queue \<Rightarrow> bool \<times> 'a thread_safe_queue" where
  "tq_Enqueue x q = (True, q\<lparr>tq_queue := tq_queue q @ [x]\<rparr>)"

definition tq_Dequeue :: "'a thread_safe_queue \<Rightarrow> 'a option \<times> 'a thread_safe_queue" where
  "tq_Dequeue q =
     (case tq_queue q of
        [] \<Rightarrow> (None, q)
      | x # xs \<Rightarrow> (Some x, q\<lparr>tq_queue := xs\<rparr>))"

text \<open>\<open>None\<close>: the caller is still blocked.\<close>

definition tq_WaitDequeue :: "'a thread_safe_queue \<Rightarrow> ('a option \<times> 'a thread_safe_queue) option" where
  "tq_WaitDequeue q =
     (if tq_break_all_wait q \<or> tq_queue q \<noteq> [] then
        (if tq_break_all_wait q then Some (None, q) else Some (tq_Dequeue q))
      else None)"

definition tq_Size :: "'a thread_safe_queue \<Rightarrow> nat" where
  "tq_Size q = length (tq_queue q)"

definition tq_Empty :: "'a thread_safe_queue \<Rightarrow> bool" where
  "tq_Empty q = (tq_queue q = [])"

definition tq_BreakAllWait :: "'a thread_safe_queue \<Rightarrow> 'a thread_safe_queue" where
  "tq_BreakAllWait q = q\<lparr>tq_break_all_wait := True\<rparr>"

section \<open>Representation\<close>

text \<open>
  From the node at \<open>a\<close> the chain continues with the nodes \<open>bs\<close>, which hold \<open>xs\<close>. The last node is
  also held by the tail pointer, so its count is 2; every other is held once.
\<close>

fun uq_chain :: "'a uq_heap \<Rightarrow> nat \<Rightarrow> nat list \<Rightarrow> 'a list \<Rightarrow> bool" where
  "uq_chain h a [] xs = (xs = [] \<and> (\<exists>nd. h a = Some nd \<and> nd_ref_count nd = 2 \<and> nd_next nd = None))"
| "uq_chain h a (b # bs) xs =
     (\<exists>nd x xs' nb. xs = x # xs' \<and> h a = Some nd \<and> nd_ref_count nd = 1 \<and> nd_next nd = Some b \<and>
        h b = Some nb \<and> nd_data nb = x \<and> uq_chain h b bs xs')"

definition uq_rep :: "'a unbounded_queue \<Rightarrow> 'a list \<Rightarrow> bool" where
  "uq_rep q xs =
     (\<exists>bs. uq_chain (uq_heap q) (uq_head q) bs xs \<and> distinct (uq_head q # bs) \<and>
        dom (uq_heap q) = set (uq_head q # bs) \<and> uq_tail q = last (uq_head q # bs) \<and>
        (\<forall>a \<in> set (uq_head q # bs). a < uq_fresh q) \<and> uq_size q = of_nat (length xs))"

text \<open>The elements, read off the heap.\<close>

fun uq_walk :: "nat \<Rightarrow> 'a uq_heap \<Rightarrow> nat \<Rightarrow> 'a list" where
  "uq_walk 0 h a = []"
| "uq_walk (Suc n) h a =
     (case h a of
        None \<Rightarrow> []
      | Some nd \<Rightarrow>
          (case nd_next nd of
             None \<Rightarrow> []
           | Some b \<Rightarrow> (case h b of None \<Rightarrow> [] | Some nb \<Rightarrow> nd_data nb # uq_walk n h b)))"

definition uq_contents :: "'a unbounded_queue \<Rightarrow> 'a list" where
  "uq_contents q = uq_walk (uq_fresh q) (uq_heap q) (uq_head q)"

definition uq_ok :: "'a unbounded_queue \<Rightarrow> bool" where
  "uq_ok q = (\<exists>xs. uq_rep q xs)"

definition uq_enq :: "'a \<Rightarrow> 'a unbounded_queue \<Rightarrow> bool \<times> 'a unbounded_queue" where
  "uq_enq x q = (case uq_Enqueue x q of Some q' \<Rightarrow> (True, q') | None \<Rightarrow> (False, q))"

definition uq_deq :: "'a unbounded_queue \<Rightarrow> 'a option \<times> 'a unbounded_queue" where
  "uq_deq q = (case uq_Dequeue q of Some r \<Rightarrow> r | None \<Rightarrow> (None, q))"

section \<open>The chain\<close>

lemma uq_chain_length: "uq_chain h a bs xs \<Longrightarrow> length xs = length bs"
  by (induction h a bs xs rule: uq_chain.induct) auto

lemma uq_chain_cong:
  "uq_chain h a bs xs \<Longrightarrow> (\<And>b. b \<in> set (a # bs) \<Longrightarrow> h' b = h b) \<Longrightarrow> uq_chain h' a bs xs"
  by (induction h a bs xs rule: uq_chain.induct) auto

lemma uq_chain_walk: "uq_chain h a bs xs \<Longrightarrow> length bs \<le> n \<Longrightarrow> uq_walk n h a = xs"
proof (induction h a bs xs arbitrary: n rule: uq_chain.induct)
  case (1 h a xs)
  then show ?case by (cases n) auto
next
  case (2 h a b bs xs)
  then show ?case by (cases n) auto
qed

lemma uq_chain_snoc:
  assumes "uq_chain h a bs xs" "distinct (a # bs)" "n \<notin> set (a # bs)" "h (last (a # bs)) = Some nd"
    and "h' n = Some (new_Node x)"
    and "h' (last (a # bs)) = Some (nd\<lparr>nd_next := Some n, nd_ref_count := 1\<rparr>)"
    and "\<And>b. b \<in> set (a # bs) \<Longrightarrow> b \<noteq> last (a # bs) \<Longrightarrow> h' b = h b"
  shows "uq_chain h' a (bs @ [n]) (xs @ [x])"
  using assms
proof (induction h a bs xs rule: uq_chain.induct)
  case (1 h a xs)
  then show ?case by (auto simp: new_Node_def)
next
  case (2 h a b bs xs)
  obtain nd' x' xs' nb where a: "xs = x' # xs'" "h a = Some nd'" "nd_ref_count nd' = 1"
    "nd_next nd' = Some b" "h b = Some nb" "nd_data nb = x'" "uq_chain h b bs xs'"
    using "2.prems"(1) by auto
  have "a \<noteq> last (b # bs)" using "2.prems"(2) by (metis distinct.simps(2) last_in_set list.distinct(1))
  then have "h' a = Some nd'" using "2.prems"(7) [of a] a(2) by simp
  moreover have "uq_chain h' b (bs @ [n]) (xs' @ [x])"
    using "2.prems" a(7) by (intro "2.IH") auto
  moreover have "\<exists>nb'. h' b = Some nb' \<and> nd_data nb' = x'"
    using "2.prems"(4,6) "2.prems"(7) [of b] a(5,6) by (cases "b = last (b # bs)") auto
  ultimately show ?case using a by auto
qed

lemma uq_chain_last: "uq_chain h a bs xs \<Longrightarrow> \<exists>nd. h (last (a # bs)) = Some nd \<and> nd_ref_count nd = 2"
  by (induction h a bs xs rule: uq_chain.induct) auto

section \<open>The operations\<close>

lemma uq_rep_Reset:
  "uq_rep (uq_Reset dflt (\<lambda>_. None) fresh) []"
  by (auto simp: uq_rep_def uq_Reset_def new_Node_def)

lemma uq_rep_Enqueue:
  assumes "uq_rep q xs"
  shows "\<exists>q'. uq_Enqueue x q = Some q' \<and> uq_rep q' (xs @ [x])"
proof -
  obtain bs where bs: "uq_chain (uq_heap q) (uq_head q) bs xs" "distinct (uq_head q # bs)"
    "dom (uq_heap q) = set (uq_head q # bs)" "uq_tail q = last (uq_head q # bs)"
    "\<forall>a \<in> set (uq_head q # bs). a < uq_fresh q" "uq_size q = of_nat (length xs)"
    using assms unfolding uq_rep_def by blast
  let ?n = "uq_fresh q" and ?t = "uq_tail q"
  obtain nd where nd: "uq_heap q ?t = Some nd" "nd_ref_count nd = 2"
    using uq_chain_last [OF bs(1)] bs(4) by auto
  have tin: "?t \<in> set (uq_head q # bs)" unfolding bs(4) by (rule last_in_set) simp
  then have t: "?t \<noteq> ?n" using bs(5) by (metis nat_neq_iff)
  have n: "?n \<notin> set (uq_head q # bs)" using bs(5) by (metis less_irrefl)
  let ?h = "(uq_heap q)(?n \<mapsto> new_Node x, ?t \<mapsto> nd\<lparr>nd_next := Some ?n, nd_ref_count := 1\<rparr>)"
  let ?q = "q\<lparr>uq_heap := ?h, uq_fresh := ?n + 1, uq_tail := ?n, uq_size := uq_size q + 1\<rparr>"
  have enq: "uq_Enqueue x q = Some ?q"
    using nd t by (simp add: uq_Enqueue_def nd_release_def Let_def)
  have "uq_chain ?h (uq_head q) (bs @ [?n]) (xs @ [x])"
    using n nd t bs(4) by (intro uq_chain_snoc [OF bs(1,2)]) auto
  moreover have "distinct (uq_head q # bs @ [?n])" using n bs(2) by auto
  moreover have "dom ?h = set (uq_head q # bs @ [?n])"
    using bs(3) tin by auto
  moreover have "\<forall>a \<in> set (uq_head q # bs @ [?n]). a < ?n + 1" using bs(5) by auto
  ultimately have "uq_rep ?q (xs @ [x])"
    unfolding uq_rep_def using bs(6) by (intro exI [of _ "bs @ [?n]"]) auto
  with enq show ?thesis by blast
qed

lemma uq_rep_Dequeue_none: "uq_rep q [] \<Longrightarrow> uq_Dequeue q = Some (None, q)"
  unfolding uq_rep_def
  by (elim exE conjE) (metis (no_types, lifting) list.distinct(1) list.exhaust option.simps(4,5)
      uq_Dequeue_def uq_chain.simps)

lemma uq_rep_Dequeue:
  assumes "uq_rep q (x # xs)"
  shows "\<exists>q'. uq_Dequeue q = Some (Some x, q') \<and> uq_rep q' xs"
proof -
  obtain bs where bs: "uq_chain (uq_heap q) (uq_head q) bs (x # xs)" "distinct (uq_head q # bs)"
    "dom (uq_heap q) = set (uq_head q # bs)" "uq_tail q = last (uq_head q # bs)"
    "\<forall>a \<in> set (uq_head q # bs). a < uq_fresh q" "uq_size q = of_nat (length (x # xs))"
    using assms unfolding uq_rep_def by blast
  then obtain b bs' where b: "bs = b # bs'" by (cases bs) auto
  then obtain nd nb where nd: "uq_heap q (uq_head q) = Some nd" "nd_ref_count nd = 1"
    "nd_next nd = Some b" "uq_heap q b = Some nb" "nd_data nb = x" "uq_chain (uq_heap q) b bs' xs"
    using bs(1) by auto
  let ?h = "(uq_heap q)(uq_head q := None)"
  let ?q = "q\<lparr>uq_heap := ?h, uq_head := b, uq_size := uq_size q - 1\<rparr>"
  have deq: "uq_Dequeue q = Some (Some x, ?q)"
    using nd by (simp add: uq_Dequeue_def nd_release_def Let_def)
  have "uq_chain ?h b bs' xs"
    using bs(2) b by (intro uq_chain_cong [OF nd(6)]) auto
  moreover have "dom ?h = set (b # bs')" using bs(2,3) b by auto
  ultimately have "uq_rep ?q xs"
    unfolding uq_rep_def using bs(2,4,5,6) b by (intro exI [of _ bs']) auto
  with deq show ?thesis by blast
qed

lemma uq_Destroy_loop_chain:
  "uq_chain h a bs xs \<Longrightarrow> distinct (a # bs) \<Longrightarrow>
   uq_Destroy_loop (Some a) h = Some (\<lambda>b. if b \<in> set (a # bs) then None else h b)"
proof (induction bs arbitrary: a h xs)
  case Nil
  then show ?case by (auto simp: uq_Destroy_loop.simps fun_eq_iff)
next
  case (Cons b bs)
  then obtain nd xs' where a: "h a = Some nd" "nd_next nd = Some b" "uq_chain h b bs xs'"
    by auto
  have chain: "uq_chain (h(a := None)) b bs xs'"
    using Cons.prems(2) by (intro uq_chain_cong [OF a(3)]) auto
  have "uq_Destroy_loop (Some b) (h(a := None)) =
      Some (\<lambda>c. if c \<in> set (b # bs) then None else (h(a := None)) c)"
    by (rule Cons.IH [OF chain]) (use Cons.prems(2) in simp)
  then show ?case using a(1,2) by (auto simp: uq_Destroy_loop.simps [of "Some a"] fun_eq_iff)
qed

lemma uq_Destroy_rep: "uq_rep q xs \<Longrightarrow> uq_Destroy q = Some (\<lambda>_. None)"
  unfolding uq_rep_def uq_Destroy_def
  by (elim exE conjE) (auto simp: uq_Destroy_loop_chain fun_eq_iff domIff)

lemma uq_rep_contents: "uq_rep q xs \<Longrightarrow> uq_contents q = xs"
proof -
  assume "uq_rep q xs"
  then obtain bs where bs: "uq_chain (uq_heap q) (uq_head q) bs xs" "distinct (uq_head q # bs)"
    "\<forall>a \<in> set (uq_head q # bs). a < uq_fresh q"
    unfolding uq_rep_def by blast
  have "set (uq_head q # bs) \<subseteq> {..< uq_fresh q}" using bs(3) by auto
  then have "card (set (uq_head q # bs)) \<le> uq_fresh q"
    by (metis card_lessThan card_mono finite_lessThan)
  then have "length bs \<le> uq_fresh q" using distinct_card [OF bs(2)] by simp
  then show "uq_contents q = xs" unfolding uq_contents_def using bs(1) by (intro uq_chain_walk)
qed

lemma uq_okE: "uq_ok q \<Longrightarrow> uq_rep q (uq_contents q)"
  using uq_rep_contents by (auto simp: uq_ok_def)

lemma uq_enq_ok:
  assumes "uq_ok q"
  shows "fst (uq_enq x q) \<and> uq_contents (snd (uq_enq x q)) = uq_contents q @ [x] \<and> uq_ok (snd (uq_enq x q))"
  using uq_rep_Enqueue [OF uq_okE [OF assms], of x] uq_rep_contents by (force simp: uq_enq_def uq_ok_def)

lemma uq_deq_ok:
  assumes "uq_ok q" "uq_contents q = y # ys"
  shows "fst (uq_deq q) = Some y \<and> uq_contents (snd (uq_deq q)) = ys \<and> uq_ok (snd (uq_deq q))"
  using uq_rep_Dequeue [of q y ys] uq_okE [OF assms(1)] assms(2) uq_rep_contents
  by (force simp: uq_deq_def uq_ok_def)

lemma uq_deq_none: "uq_ok q \<Longrightarrow> uq_contents q = [] \<Longrightarrow> uq_deq q = (None, q)"
  using uq_okE [of q] by (simp add: uq_deq_def uq_rep_Dequeue_none)

interpretation uq: fifo_queue uq_contents uq_enq uq_deq "\<lambda>q. k" uq_ok
  by unfold_locales (auto simp: uq_enq_ok uq_deq_ok uq_deq_none)

interpretation tq: fifo_queue tq_queue tq_Enqueue tq_Dequeue "\<lambda>q. k" "\<lambda>q. True"
  by unfold_locales (auto simp: tq_Enqueue_def tq_Dequeue_def)

lemma uq_rep_card: "uq_rep q xs \<Longrightarrow> card (dom (uq_heap q)) = length xs + 1"
  unfolding uq_rep_def
  by (elim exE conjE) (metis add.commute distinct_card length_Cons plus_1_eq_Suc uq_chain_length)

lemma uq_rep_Clear:
  "uq_rep q xs \<Longrightarrow> \<exists>q'. uq_Clear dflt q = Some q' \<and> uq_rep q' []"
  by (simp add: uq_Clear_def uq_Destroy_rep uq_rep_Reset)



end
