(* ===== verification/Shm_Conf.thy ===== *)
theory Shm_Conf
  imports Cyber_Prelude
begin

text \<open>
  Sizes and layout of a shared memory segment: \<^verbatim>\<open>transport/shm/shm_conf.cc\<close> and the address arithmetic
  of \<^verbatim>\<open>OpenOrCreate\<close> and \<^verbatim>\<open>OpenOnly\<close> in \<^verbatim>\<open>posix_segment.cc\<close> and \<^verbatim>\<open>xsi_segment.cc\<close>. An address is its
  offset from \<^verbatim>\<open>managed_shm_\<close>. \<^verbatim>\<open>sizeof(State)\<close> and \<^verbatim>\<open>sizeof(Block)\<close> depend on the compiler: they
  are parameters, and the results need only that they fit the 1024 bytes the configuration reserves
  for each.
\<close>

section \<open>ShmConf\<close>

definition EXTRA_SIZE :: u64 where "EXTRA_SIZE = 1024 * 4"
definition STATE_SIZE :: u64 where "STATE_SIZE = 1024"
definition BLOCK_SIZE :: u64 where "BLOCK_SIZE = 1024"
definition MESSAGE_INFO_SIZE :: u64 where "MESSAGE_INFO_SIZE = 1024"
definition ARENA_BLOCK_NUM :: u32 where "ARENA_BLOCK_NUM = 512"
definition ARENA_MESSAGE_SIZE :: u64 where "ARENA_MESSAGE_SIZE = 1024"
definition BLOCK_NUM_16K :: u32 where "BLOCK_NUM_16K = 512"
definition MESSAGE_SIZE_16K :: u64 where "MESSAGE_SIZE_16K = 1024 * 16"
definition BLOCK_NUM_128K :: u32 where "BLOCK_NUM_128K = 128"
definition MESSAGE_SIZE_128K :: u64 where "MESSAGE_SIZE_128K = 1024 * 128"
definition BLOCK_NUM_1M :: u32 where "BLOCK_NUM_1M = 64"
definition MESSAGE_SIZE_1M :: u64 where "MESSAGE_SIZE_1M = 1024 * 1024"
definition BLOCK_NUM_8M :: u32 where "BLOCK_NUM_8M = 32"
definition MESSAGE_SIZE_8M :: u64 where "MESSAGE_SIZE_8M = 1024 * 1024 * 8"
definition BLOCK_NUM_16M :: u32 where "BLOCK_NUM_16M = 16"
definition MESSAGE_SIZE_16M :: u64 where "MESSAGE_SIZE_16M = 1024 * 1024 * 16"
definition BLOCK_NUM_MORE :: u32 where "BLOCK_NUM_MORE = 8"
definition MESSAGE_SIZE_MORE :: u64 where "MESSAGE_SIZE_MORE = 1024 * 1024 * 32"

lemmas shm_const_defs = EXTRA_SIZE_def STATE_SIZE_def BLOCK_SIZE_def MESSAGE_INFO_SIZE_def
  ARENA_BLOCK_NUM_def ARENA_MESSAGE_SIZE_def BLOCK_NUM_16K_def MESSAGE_SIZE_16K_def BLOCK_NUM_128K_def
  MESSAGE_SIZE_128K_def BLOCK_NUM_1M_def MESSAGE_SIZE_1M_def BLOCK_NUM_8M_def MESSAGE_SIZE_8M_def
  BLOCK_NUM_16M_def MESSAGE_SIZE_16M_def BLOCK_NUM_MORE_def MESSAGE_SIZE_MORE_def

record shm_conf =
  ceiling_msg_size :: u64
  block_buf_size :: u64
  block_num :: u32
  managed_shm_size :: u64

definition GetCeilingMessageSize :: "u64 \<Rightarrow> u64" where
  "GetCeilingMessageSize real_msg_size =
     (if real_msg_size \<le> MESSAGE_SIZE_16K then MESSAGE_SIZE_16K
      else if real_msg_size \<le> MESSAGE_SIZE_128K then MESSAGE_SIZE_128K
      else if real_msg_size \<le> MESSAGE_SIZE_1M then MESSAGE_SIZE_1M
      else if real_msg_size \<le> MESSAGE_SIZE_8M then MESSAGE_SIZE_8M
      else if real_msg_size \<le> MESSAGE_SIZE_16M then MESSAGE_SIZE_16M
      else MESSAGE_SIZE_MORE)"

definition GetBlockBufSize :: "u64 \<Rightarrow> u64" where
  "GetBlockBufSize ceiling = ceiling + MESSAGE_INFO_SIZE"

definition GetBlockNum :: "u64 \<Rightarrow> u32" where
  "GetBlockNum ceiling =
     (if ceiling = MESSAGE_SIZE_16K then BLOCK_NUM_16K
      else if ceiling = MESSAGE_SIZE_128K then BLOCK_NUM_128K
      else if ceiling = MESSAGE_SIZE_1M then BLOCK_NUM_1M
      else if ceiling = MESSAGE_SIZE_8M then BLOCK_NUM_8M
      else if ceiling = MESSAGE_SIZE_16M then BLOCK_NUM_16M
      else if ceiling = MESSAGE_SIZE_MORE then BLOCK_NUM_MORE
      else 0)"

definition conf_Update :: "u64 \<Rightarrow> shm_conf" where
  "conf_Update real_msg_size =
     (let ceiling = GetCeilingMessageSize real_msg_size;
          buf_size = GetBlockBufSize ceiling;
          num = GetBlockNum ceiling
      in \<lparr>ceiling_msg_size = ceiling, block_buf_size = buf_size, block_num = num,
          managed_shm_size =
            EXTRA_SIZE + STATE_SIZE + (BLOCK_SIZE + buf_size) * ucast num
            + (BLOCK_SIZE + ARENA_MESSAGE_SIZE) * ucast ARENA_BLOCK_NUM\<rparr>)"

definition ShmConf :: shm_conf where
  "ShmConf = conf_Update MESSAGE_SIZE_16K"

section \<open>Addresses\<close>

definition blocks_offset :: "u64 \<Rightarrow> u64" where
  "blocks_offset szState = szState"

definition arena_blocks_offset :: "u64 \<Rightarrow> u64 \<Rightarrow> shm_conf \<Rightarrow> u64" where
  "arena_blocks_offset szState szBlock c = szState + ucast (block_num c) * szBlock"

definition block_buf_offset :: "u64 \<Rightarrow> u64 \<Rightarrow> shm_conf \<Rightarrow> u32 \<Rightarrow> u64" where
  "block_buf_offset szState szBlock c i =
     szState + ucast (block_num c) * szBlock + ucast ARENA_BLOCK_NUM * szBlock
     + ucast i * block_buf_size c"

definition arena_buf_offset :: "u64 \<Rightarrow> u64 \<Rightarrow> shm_conf \<Rightarrow> u32 \<Rightarrow> u64" where
  "arena_buf_offset szState szBlock c ai =
     szState + ucast (block_num c) * szBlock + ucast ARENA_BLOCK_NUM * szBlock
     + ucast (block_num c) * block_buf_size c + ucast ai * ARENA_MESSAGE_SIZE"

section \<open>Configurations\<close>

text \<open>The six configurations: ceiling in bytes and number of blocks.\<close>

definition conf_classes :: "(nat \<times> nat) list" where
  "conf_classes = [(16384, 512), (131072, 128), (1048576, 64), (8388608, 32), (16777216, 16), (33554432, 8)]"

lemma conf_Update_class:
  "(unat (ceiling_msg_size (conf_Update s)), unat (block_num (conf_Update s))) \<in> set conf_classes"
  by (simp add: conf_Update_def Let_def GetCeilingMessageSize_def GetBlockNum_def conf_classes_def
      shm_const_defs)

lemma conf_Update_sizes:
  "unat (block_buf_size (conf_Update s)) = unat (ceiling_msg_size (conf_Update s)) + 1024"
  "unat (managed_shm_size (conf_Update s)) =
     5120 + (1024 + unat (block_buf_size (conf_Update s))) * unat (block_num (conf_Update s)) + 2048 * 512"
  by (simp_all add: conf_Update_def Let_def GetCeilingMessageSize_def GetBlockNum_def GetBlockBufSize_def
      shm_const_defs)

lemma conf_Update_idem: "conf_Update (ceiling_msg_size (conf_Update s)) = conf_Update s"
  by (simp add: conf_Update_def Let_def GetCeilingMessageSize_def GetBlockNum_def GetBlockBufSize_def
      shm_const_defs)

lemma ceiling_least:
  "unat s \<le> 33554432 \<Longrightarrow> unat s \<le> unat (ceiling_msg_size (conf_Update s)) \<and>
     (\<forall>(c, n) \<in> set conf_classes. unat s \<le> c \<longrightarrow> unat (ceiling_msg_size (conf_Update s)) \<le> c)"
  by (simp add: conf_Update_def Let_def GetCeilingMessageSize_def conf_classes_def shm_const_defs
      word_le_nat_alt)

section \<open>Layout\<close>

lemma conf_product_bound:
  "unat (block_num (conf_Update s)) * unat (block_buf_size (conf_Update s)) \<le> 300000000"
  "unat (block_num (conf_Update s)) \<le> 512"
  using conf_Update_class [of s] by (auto simp: conf_Update_sizes conf_classes_def)

lemma unat_header_offset:
  fixes szState szBlock :: u64
  assumes "unat szState \<le> 1024" "unat szBlock \<le> 1024"
  shows "unat (szState + ucast (block_num (conf_Update s)) * szBlock) =
      unat szState + unat (block_num (conf_Update s)) * unat szBlock"
    and "unat (szState + ucast (block_num (conf_Update s)) * szBlock + ucast ARENA_BLOCK_NUM * szBlock) =
      unat szState + unat (block_num (conf_Update s)) * unat szBlock + 512 * unat szBlock"
    and "unat szState + unat (block_num (conf_Update s)) * unat szBlock + 512 * unat szBlock \<le> 2000000"
proof -
  have m: "unat (block_num (conf_Update s)) * unat szBlock \<le> 512 * 1024"
    using conf_product_bound(2) assms(2) by (intro mult_le_mono) auto
  then have 1: "unat (ucast (block_num (conf_Update s)) * szBlock) = unat (block_num (conf_Update s)) * unat szBlock"
    by (subst unat_mult_u64) auto
  show 2: "unat (szState + ucast (block_num (conf_Update s)) * szBlock) =
      unat szState + unat (block_num (conf_Update s)) * unat szBlock"
    using m assms 1 by (subst unat_add_u64) auto
  have "unat ((512 :: u64) * szBlock) = 512 * unat szBlock"
    using assms(2) by (subst unat_mult_u64) auto
  then have 3: "unat (ucast ARENA_BLOCK_NUM * szBlock) = 512 * unat szBlock"
    by (simp add: ARENA_BLOCK_NUM_def)
  show "unat (szState + ucast (block_num (conf_Update s)) * szBlock + ucast ARENA_BLOCK_NUM * szBlock) =
      unat szState + unat (block_num (conf_Update s)) * unat szBlock + 512 * unat szBlock"
    using m assms 2 3 by (subst unat_add_u64) auto
  show "unat szState + unat (block_num (conf_Update s)) * unat szBlock + 512 * unat szBlock \<le> 2000000"
    using m assms by simp
qed

lemma unat_block_buf_offset:
  assumes "unat szState \<le> 1024" "unat szBlock \<le> 1024" "unat i \<le> unat (block_num (conf_Update s))"
  shows "unat (block_buf_offset szState szBlock (conf_Update s) i) =
    unat szState + unat (block_num (conf_Update s)) * unat szBlock + 512 * unat szBlock
    + unat i * unat (block_buf_size (conf_Update s))"
proof -
  have b: "unat i * unat (block_buf_size (conf_Update s)) \<le> 300000000"
    using conf_product_bound(1) [of s] assms(3) by (meson le_trans mult_le_mono1)
  then have "unat (ucast i * block_buf_size (conf_Update s)) = unat i * unat (block_buf_size (conf_Update s))"
    by (subst unat_mult_u64) auto
  with b unat_header_offset [OF assms(1,2), of s] show ?thesis
    unfolding block_buf_offset_def by (subst unat_add_u64) auto
qed

lemma unat_arena_buf_offset:
  assumes "unat szState \<le> 1024" "unat szBlock \<le> 1024" "unat ai \<le> 512"
  shows "unat (arena_buf_offset szState szBlock (conf_Update s) ai) =
    unat szState + unat (block_num (conf_Update s)) * unat szBlock + 512 * unat szBlock
    + unat (block_num (conf_Update s)) * unat (block_buf_size (conf_Update s)) + unat ai * 1024"
proof -
  let ?n = "block_num (conf_Update s)"
  have *: "arena_buf_offset szState szBlock (conf_Update s) ai =
      block_buf_offset szState szBlock (conf_Update s) ?n + ucast ai * ARENA_MESSAGE_SIZE"
    by (simp add: arena_buf_offset_def block_buf_offset_def)
  have "unat (ucast ai * ARENA_MESSAGE_SIZE) = unat ai * 1024"
    using assms(3) by (subst unat_mult_u64) (auto simp: ARENA_MESSAGE_SIZE_def)
  then show ?thesis
    unfolding * using unat_block_buf_offset [OF assms(1,2), of ?n s] unat_header_offset(3) [OF assms(1,2), of s]
      conf_product_bound(1) [of s] assms(3)
    by (subst unat_add_u64) auto
qed

lemma arena_buf_fits:
  assumes "unat szState \<le> 1024" "unat szBlock \<le> 1024" "unat ai < 512"
  shows "unat (arena_buf_offset szState szBlock (conf_Update s) ai) + 1024 \<le> unat (managed_shm_size (conf_Update s))"
proof -
  let ?n = "unat (block_num (conf_Update s))" and ?b = "unat (block_buf_size (conf_Update s))"
  have total: "unat (managed_shm_size (conf_Update s)) = 5120 + ?n * 1024 + ?n * ?b + 1048576"
    unfolding conf_Update_sizes(2) by (simp add: algebra_simps)
  have "?n * unat szBlock \<le> ?n * 1024" using assms(2) by (rule mult_le_mono2)
  then show ?thesis
    using unat_arena_buf_offset [of szState szBlock ai s] total assms by linarith
qed

lemma block_buf_before_arena:
  assumes "unat szState \<le> 1024" "unat szBlock \<le> 1024" "i < block_num (conf_Update s)"
  shows "unat (block_buf_offset szState szBlock (conf_Update s) i) + unat (block_buf_size (conf_Update s))
    \<le> unat (arena_buf_offset szState szBlock (conf_Update s) 0)"
  using assms(3) unat_block_buf_offset [OF assms(1,2), of i s] unat_arena_buf_offset [OF assms(1,2), of 0 s]
    mult_le_mono1 [of "Suc (unat i)" "unat (block_num (conf_Update s))" "unat (block_buf_size (conf_Update s))"]
  by (simp add: word_less_nat_alt)

text \<open>
  Claim C11. The layout of a segment is sound for every message size: the state, the blocks, the arena
  blocks, the message buffers and the arena buffers follow each other without overlap, no address
  computation wraps around, and the last buffer ends within the size the segment is created with.
\<close>

theorem segment_layout_disjoint:
  fixes szState szBlock s :: u64
  defines "c \<equiv> conf_Update s"
  assumes "unat szState \<le> 1024" and "unat szBlock \<le> 1024"
  shows "unat (blocks_offset szState) + unat (block_num c) * unat szBlock \<le> unat (arena_blocks_offset szState szBlock c) \<and>
    unat (arena_blocks_offset szState szBlock c) + 512 * unat szBlock \<le> unat (block_buf_offset szState szBlock c 0) \<and>
    (\<forall>i j. i < j \<and> j < block_num c \<longrightarrow>
      unat (block_buf_offset szState szBlock c i) + unat (block_buf_size c) \<le> unat (block_buf_offset szState szBlock c j)) \<and>
    (\<forall>i. i < block_num c \<longrightarrow>
      unat (block_buf_offset szState szBlock c i) + unat (block_buf_size c) \<le> unat (arena_buf_offset szState szBlock c 0)) \<and>
    (\<forall>i j. i < j \<and> j < ARENA_BLOCK_NUM \<longrightarrow>
      unat (arena_buf_offset szState szBlock c i) + 1024 \<le> unat (arena_buf_offset szState szBlock c j)) \<and>
    (\<forall>i. i < ARENA_BLOCK_NUM \<longrightarrow>
      unat (arena_buf_offset szState szBlock c i) + 1024 \<le> unat (managed_shm_size c))"
proof -
  let ?n = "unat (block_num c)" and ?b = "unat (block_buf_size c)"
  note off = unat_block_buf_offset [OF assms(2,3), where s = s, folded c_def]
    unat_arena_buf_offset [OF assms(2,3), where s = s, folded c_def]
  note head = unat_header_offset [OF assms(2,3), of s, folded c_def]
  have step: "i * k + k \<le> j * k" if "i < j" for i j k :: nat
    using mult_le_mono1 [of "Suc i" j k] that by simp
  have arena: "i < ARENA_BLOCK_NUM \<longleftrightarrow> unat i < 512" for i
    by (simp add: ARENA_BLOCK_NUM_def word_less_nat_alt)
  note fits = arena_buf_fits [OF assms(2,3), where s = s, folded c_def]
  note last = block_buf_before_arena [OF assms(2,3), where s = s, folded c_def]
  have bufs: "unat (block_buf_offset szState szBlock c i) + ?b \<le> unat (block_buf_offset szState szBlock c j)"
    if "i < j" "j < block_num c" for i j
    using that off(1) [of i] off(1) [of j] step [of "unat i" "unat j" ?b] by (simp add: word_less_nat_alt)
  have arenas: "unat (arena_buf_offset szState szBlock c i) + 1024 \<le> unat (arena_buf_offset szState szBlock c j)"
    if "i < j" "unat j < 512" for i j
    using that off(2) [of i] off(2) [of j] by (simp add: word_less_nat_alt)
  have "unat (block_buf_offset szState szBlock c 0) =
      unat szState + ?n * unat szBlock + 512 * unat szBlock"
    using off(1) [of 0] by simp
  then show ?thesis
    using head(1) bufs last arenas fits unfolding arena blocks_offset_def arena_blocks_offset_def by simp
qed

theorem segment_layout_disjoint_witness:
  "let c = conf_Update 100000 in
   unat (block_buf_offset 32 24 c 3) + unat (block_buf_size c) \<le> unat (block_buf_offset 32 24 c 7) \<and>
   unat (arena_buf_offset 32 24 c 511) + 1024 \<le> unat (managed_shm_size c)"
proof -
  have "(3 :: u32) < 7" "7 < block_num (conf_Update 100000)" "511 < ARENA_BLOCK_NUM"
    by (simp_all add: conf_Update_def Let_def GetCeilingMessageSize_def GetBlockNum_def shm_const_defs)
  then show ?thesis using segment_layout_disjoint [of 32 24 100000] unfolding Let_def by simp
qed

text \<open>
  For messages of up to 32 MB the configuration is the least of the six classes that holds the
  message, it has at least one block, and re-deriving it from its own ceiling (what a process that
  opens an existing segment does) gives the same configuration.
\<close>

lemma conf_holds_message:
  assumes "unat s \<le> 33554432"
  shows "unat s \<le> unat (ceiling_msg_size (conf_Update s)) \<and>
    (\<forall>(c, n) \<in> set conf_classes. unat s \<le> c \<longrightarrow> unat (ceiling_msg_size (conf_Update s)) \<le> c) \<and>
    0 < block_num (conf_Update s) \<and>
    conf_Update (ceiling_msg_size (conf_Update s)) = conf_Update s"
proof -
  have "0 < unat (block_num (conf_Update s))"
    using conf_Update_class [of s] by (auto simp: conf_classes_def)
  then show ?thesis using ceiling_least [OF assms] conf_Update_idem by (simp add: word_less_nat_alt)
qed

theorem conf_holds_message_witness:
  "unat (100000 :: u64) \<le> unat (ceiling_msg_size (conf_Update 100000)) \<and>
   unat (ceiling_msg_size (conf_Update 100000)) \<le> 131072 \<and> 0 < block_num (conf_Update 100000)"
proof -
  have "(131072, 128) \<in> set conf_classes" "unat (100000 :: u64) \<le> 33554432" "unat (100000 :: u64) \<le> 131072"
    by (simp_all add: conf_classes_def)
  then show ?thesis using conf_holds_message [of 100000] by blast
qed

end
