(* ===== verification/Shm_Block.thy ===== *)
theory Shm_Block
  imports Base_Locks
begin

text \<open>
  \<^verbatim>\<open>Block\<close> (\<^verbatim>\<open>transport/shm/block.h\<close>, \<^verbatim>\<open>block.cc\<close>) and \<^verbatim>\<open>State\<close> (\<^verbatim>\<open>state.h\<close>, \<^verbatim>\<open>state.cc\<close>), the two
  structures that processes share in a segment. The block's lock is modelled twice: as the step
  relation \<open>blk_step\<close> of any number of processes, which is an interpretation of the lock contract, and as
  functions of one caller, which the segment uses.
\<close>

section \<open>Block\<close>

record block =
  blk_lock_num :: int
  blk_msg_size :: u64
  blk_msg_info_size :: u64

definition Block :: block where
  "Block = \<lparr>blk_lock_num = 0, blk_msg_size = 0, blk_msg_info_size = 0\<rparr>"

definition kMaxTryLockTimes :: nat where
  "kMaxTryLockTimes = 5"

definition blk_cas :: "int \<Rightarrow> int \<Rightarrow> block \<Rightarrow> bool \<times> block" where
  "blk_cas expected desired b =
     (if blk_lock_num b = expected then (True, b\<lparr>blk_lock_num := desired\<rparr>) else (False, b))"

definition TryLockForWrite :: "block \<Rightarrow> bool \<times> block" where
  "TryLockForWrite b = blk_cas 0 (-1) b"

text \<open>With no other process the first compare-exchange succeeds.\<close>

definition TryLockForRead :: "block \<Rightarrow> bool \<times> block" where
  "TryLockForRead b =
     (let n = blk_lock_num b in if n < 0 then (False, b) else blk_cas n (n + 1) b)"

definition ReleaseWriteLock :: "block \<Rightarrow> block" where
  "ReleaseWriteLock b = b\<lparr>blk_lock_num := blk_lock_num b + 1\<rparr>"

definition ReleaseReadLock :: "block \<Rightarrow> block" where
  "ReleaseReadLock b = b\<lparr>blk_lock_num := blk_lock_num b - 1\<rparr>"

section \<open>State\<close>

record shm_state =
  ss_need_remap :: bool
  ss_seq :: u32
  ss_arena_seq :: u32
  ss_reference_count :: u32
  ss_ceiling_msg_size :: u64

definition State :: "u64 \<Rightarrow> shm_state" where
  "State ceiling =
     \<lparr>ss_need_remap = False, ss_seq = 0, ss_arena_seq = 0, ss_reference_count = 0,
      ss_ceiling_msg_size = ceiling\<rparr>"

definition DecreaseReferenceCounts :: "shm_state \<Rightarrow> shm_state" where
  "DecreaseReferenceCounts st =
     (if ss_reference_count st = 0 then st
      else st\<lparr>ss_reference_count := ss_reference_count st - 1\<rparr>)"

definition IncreaseReferenceCounts :: "shm_state \<Rightarrow> shm_state" where
  "IncreaseReferenceCounts st = st\<lparr>ss_reference_count := ss_reference_count st + 1\<rparr>"

definition FetchAddSeq :: "u32 \<Rightarrow> shm_state \<Rightarrow> u32 \<times> shm_state" where
  "FetchAddSeq diff st = (ss_seq st, st\<lparr>ss_seq := ss_seq st + diff\<rparr>)"

definition FetchAddArenaSeq :: "u32 \<Rightarrow> shm_state \<Rightarrow> u32 \<times> shm_state" where
  "FetchAddArenaSeq diff st = (ss_arena_seq st, st\<lparr>ss_arena_seq := ss_arena_seq st + diff\<rparr>)"

definition set_need_remap :: "bool \<Rightarrow> shm_state \<Rightarrow> shm_state" where
  "set_need_remap need st = st\<lparr>ss_need_remap := need\<rparr>"

section \<open>Any number of processes\<close>

text \<open>
  In \<open>BTry n k\<close> the local copy of the lock word is \<open>n\<close> and \<open>k\<close> compare-exchanges have failed;
  \<open>BReload k\<close> is about to load it again.
\<close>

datatype blk_pc = BIdle | BTry int nat | BReload nat | BReading | BWriting

record blk_sys =
  bs_block :: block
  bs_pc :: "nat \<Rightarrow> blk_pc"

definition bs_init :: blk_sys where
  "bs_init = \<lparr>bs_block = Block, bs_pc = (\<lambda>_. BIdle)\<rparr>"

abbreviation blk_goto :: "nat \<Rightarrow> blk_pc \<Rightarrow> block \<Rightarrow> blk_sys \<Rightarrow> blk_sys" where
  "blk_goto i pc b s \<equiv> s\<lparr>bs_block := b, bs_pc := (bs_pc s)(i := pc)\<rparr>"

inductive blk_step :: "blk_sys \<Rightarrow> blk_sys \<Rightarrow> bool" where
  write_ok: "bs_pc s i = BIdle \<Longrightarrow> TryLockForWrite (bs_block s) = (True, b) \<Longrightarrow> blk_step s (blk_goto i BWriting b s)"
| write_no: "bs_pc s i = BIdle \<Longrightarrow> blk_step s (blk_goto i BIdle (bs_block s) s)"
| write_release: "bs_pc s i = BWriting \<Longrightarrow> blk_step s (blk_goto i BIdle (ReleaseWriteLock (bs_block s)) s)"
| read_load: "bs_pc s i = BIdle \<Longrightarrow>
    blk_step s (blk_goto i (if blk_lock_num (bs_block s) < 0 then BIdle else BTry (blk_lock_num (bs_block s)) 0)
      (bs_block s) s)"
| read_ok: "bs_pc s i = BTry n k \<Longrightarrow> blk_cas n (n + 1) (bs_block s) = (True, b) \<Longrightarrow>
    blk_step s (blk_goto i BReading b s)"
| read_no: "bs_pc s i = BTry n k \<Longrightarrow>
    blk_step s (blk_goto i (if k + 1 = kMaxTryLockTimes then BIdle else BReload (k + 1)) (bs_block s) s)"
| read_reload: "bs_pc s i = BReload k \<Longrightarrow>
    blk_step s (blk_goto i (if blk_lock_num (bs_block s) < 0 then BIdle else BTry (blk_lock_num (bs_block s)) k)
      (bs_block s) s)"
| read_release: "bs_pc s i = BReading \<Longrightarrow> blk_step s (blk_goto i BIdle (ReleaseReadLock (bs_block s)) s)"

definition blk_reading :: "blk_sys \<Rightarrow> nat set" where
  "blk_reading s = {i. bs_pc s i = BReading}"

definition blk_writing :: "blk_sys \<Rightarrow> nat set" where
  "blk_writing s = {i. bs_pc s i = BWriting}"

fun blk_pc_ok :: "blk_pc \<Rightarrow> bool" where
  "blk_pc_ok (BTry n k) = (0 \<le> n \<and> k < kMaxTryLockTimes)"
| "blk_pc_ok (BReload k) = (k < kMaxTryLockTimes)"
| "blk_pc_ok _ = True"

definition blk_local_ok :: "blk_sys \<Rightarrow> bool" where
  "blk_local_ok s = (\<forall>i. blk_pc_ok (bs_pc s i))"

text \<open>How many more steps of its own a process can take in \<^verbatim>\<open>TryLockForRead\<close>.\<close>

fun blk_steps_left :: "blk_pc \<Rightarrow> nat" where
  "blk_steps_left (BTry n k) = 2 * (kMaxTryLockTimes - k) - 1"
| "blk_steps_left (BReload k) = 2 * (kMaxTryLockTimes - k)"
| "blk_steps_left _ = 0"

section \<open>The contract\<close>

lemmas blk_defs = TryLockForWrite_def blk_cas_def ReleaseWriteLock_def ReleaseReadLock_def

lemma blk_mem: "i \<in> blk_reading s \<longleftrightarrow> bs_pc s i = BReading" "i \<in> blk_writing s \<longleftrightarrow> bs_pc s i = BWriting"
  by (simp_all add: blk_reading_def blk_writing_def)

lemma blk_sets_goto:
  "blk_reading (blk_goto i pc b s) = (if pc = BReading then insert i (blk_reading s) else blk_reading s - {i})"
  "blk_writing (blk_goto i pc b s) = (if pc = BWriting then insert i (blk_writing s) else blk_writing s - {i})"
  "blk_reading (s\<lparr>bs_pc := (bs_pc s)(i := pc)\<rparr>) = (if pc = BReading then insert i (blk_reading s) else blk_reading s - {i})"
  "blk_writing (s\<lparr>bs_pc := (bs_pc s)(i := pc)\<rparr>) = (if pc = BWriting then insert i (blk_writing s) else blk_writing s - {i})"
  by (auto simp: blk_reading_def blk_writing_def)

lemmas blk_sets = blk_sets_goto blk_mem Diff_insert0

lemma blk_step_local: "blk_local_ok s \<Longrightarrow> blk_step s s' \<Longrightarrow> blk_local_ok s'"
proof -
  assume ok: "blk_local_ok s" and step: "blk_step s s'"
  have pc: "blk_pc_ok (bs_pc s i)" for i using ok by (simp add: blk_local_ok_def)
  from step show "blk_local_ok s'"
  proof (cases rule: blk_step.cases)
    case (read_no i n k)
    then show ?thesis using pc pc [of i] by (auto simp: blk_local_ok_def)
  next
    case (read_reload i k)
    then show ?thesis using pc pc [of i] by (auto simp: blk_local_ok_def)
  qed (use pc in \<open>auto simp: blk_local_ok_def kMaxTryLockTimes_def\<close>)
qed

lemma blk_step_effect:
  assumes ok: "blk_local_ok s" and step: "blk_step s s'"
  shows "rw_effect (\<lambda>s. blk_lock_num (bs_block s)) blk_reading blk_writing s s'"
  using step
proof (cases rule: blk_step.cases)
  case (write_ok i b)
  then show ?thesis
    by (intro rw_effect_write [of _ _ _ _ _ i]) (auto simp: blk_sets blk_defs split: if_splits)
next
  case (write_release i)
  then show ?thesis
    by (intro rw_effect_unwrite [of i]) (auto simp: blk_sets blk_defs)
next
  case (read_ok i n k b)
  moreover have "0 \<le> n" using ok read_ok by (auto simp: blk_local_ok_def dest!: spec [of _ i])
  ultimately show ?thesis
    by (intro rw_effect_read [of _ _ i]) (auto simp: blk_sets blk_defs split: if_splits)
next
  case (read_release i)
  then show ?thesis
    by (intro rw_effect_unread [of i]) (auto simp: blk_sets blk_defs)
qed (intro rw_effect_same; simp add: blk_sets)+

lemma bs_init_facts:
  "blk_local_ok bs_init" "blk_lock_num (bs_block bs_init) = 0" "blk_reading bs_init = {}" "blk_writing bs_init = {}"
  by (simp_all add: bs_init_def Block_def blk_local_ok_def blk_reading_def blk_writing_def)

interpretation blk: rw_lock "\<lambda>s. blk_lock_num (bs_block s)" blk_reading blk_writing blk_step blk_local_ok bs_init
  by unfold_locales (rule bs_init_facts blk_step_local blk_step_effect; assumption?)+

text \<open>
  Claim C12. However processes interleave on a block of shared memory, a process that got it for writing is
  the only one that holds it; and every step a process takes inside \<^verbatim>\<open>TryLockForRead\<close> brings it
  closer to returning, whatever the others do: it never blocks.
\<close>

theorem block_lock_exclusive_and_bounded:
  assumes "runs blk_step bs_init s"
  shows "(\<forall>i j. i \<in> blk_writing s \<and> j \<noteq> i \<longrightarrow> j \<notin> blk_writing s \<and> j \<notin> blk_reading s) \<and>
    (\<forall>i s'. blk_step s s' \<and> 0 < blk_steps_left (bs_pc s i) \<and> bs_pc s' i \<noteq> bs_pc s i \<longrightarrow>
      blk_steps_left (bs_pc s' i) < blk_steps_left (bs_pc s i))"
proof (intro conjI)
  show "\<forall>i j. i \<in> blk_writing s \<and> j \<noteq> i \<longrightarrow> j \<notin> blk_writing s \<and> j \<notin> blk_reading s"
    using blk.writer_alone [OF assms] by blast
  have pc: "blk_pc_ok (bs_pc s i)" for i
    using blk.runs_exclusive [OF assms] by (simp add: blk_local_ok_def)
  show "\<forall>i s'. blk_step s s' \<and> 0 < blk_steps_left (bs_pc s i) \<and> bs_pc s' i \<noteq> bs_pc s i \<longrightarrow>
      blk_steps_left (bs_pc s' i) < blk_steps_left (bs_pc s i)"
  proof (intro allI impI, elim conjE)
    fix i s'
    assume step: "blk_step s s'" and moved: "bs_pc s' i \<noteq> bs_pc s i" and left: "0 < blk_steps_left (bs_pc s i)"
    from step show "blk_steps_left (bs_pc s' i) < blk_steps_left (bs_pc s i)"
      by (cases rule: blk_step.cases) (use moved left pc [of i] in \<open>auto split: if_splits\<close>)
  qed
qed

theorem block_lock_exclusive_and_bounded_witness:
  "\<exists>s. runs blk_step bs_init s \<and> 1 \<in> blk_writing s \<and> (\<forall>j. j \<noteq> 1 \<longrightarrow> j \<notin> blk_writing s \<and> j \<notin> blk_reading s)"
proof -
  let ?s = "blk_goto 1 BWriting (Block\<lparr>blk_lock_num := -1\<rparr>) bs_init"
  have "blk_step bs_init ?s"
    by (rule blk_step.write_ok) (simp_all add: bs_init_def blk_defs Block_def)
  then have r: "runs blk_step bs_init ?s" by (blast intro: runs_refl runs_step)
  moreover have "1 \<in> blk_writing ?s" by (simp add: blk_writing_def)
  ultimately show ?thesis using block_lock_exclusive_and_bounded [OF r] by blast
qed

end
