(* ===== verification/Shm_Segment.thy ===== *)
theory Shm_Segment
  imports Shm_Conf Shm_Block "HOL-Library.Monad_Syntax"
begin

text \<open>
  Segments of shared memory: \<^verbatim>\<open>transport/shm/segment.cc\<close> and its two implementations
  \<^verbatim>\<open>xsi_segment.cc\<close> and \<^verbatim>\<open>posix_segment.cc\<close>.

  The operating system's part is a store: named memory objects (\<open>os_names\<close>) and the memory behind them
  (\<open>os_regions\<close>), which outlives its name while it is mapped. Which system calls fail is decided by
  \<open>os_env\<close>, an arbitrary parameter. A pointer into a segment is the number of its region; buffers
  are offsets into it. The virtual functions of \<^verbatim>\<open>Segment\<close> are the record \<open>seg_vtable\<close>, so that the
  base class is written once for both implementations.

  A result \<open>None\<close> means that the call does not return (a loop that spins forever) or reads through a
  null pointer.
\<close>

section \<open>The operating system\<close>

record shm_region =
  rg_size :: u64
  rg_state :: shm_state
  rg_blocks :: "block list"
  rg_arena_blocks :: "block list"
  rg_mem :: "nat \<Rightarrow> u8"

record shm_os =
  os_names :: "u64 \<Rightarrow> nat option"
  os_regions :: "nat \<Rightarrow> shm_region option"
  os_next :: nat

definition os_init :: shm_os where
  "os_init = \<lparr>os_names = (\<lambda>_. None), os_regions = (\<lambda>_. None), os_next = 0\<rparr>"

datatype os_err = EINVAL | EOTHER

record os_env =
  env_create :: "nat \<Rightarrow> os_err option"
  env_truncate :: bool
  env_get :: bool
  env_stat :: bool
  env_attach :: bool
  env_remove :: bool

text \<open>No system call fails.\<close>

definition env_ok :: os_env where
  "env_ok = \<lparr>env_create = (\<lambda>_. None), env_truncate = False, env_get = False, env_stat = False,
     env_attach = False, env_remove = False\<rparr>"

datatype shm_ptr = NullPtr | MapFailed | Mapped nat

section \<open>Segment: fields\<close>

record segment =
  sg_init :: bool
  sg_conf :: shm_conf
  sg_channel_id :: u64
  sg_managed :: shm_ptr
  sg_state :: "nat option"
  sg_blocks :: "nat option"
  sg_arena_blocks :: "nat option"
  sg_block_buf_addrs :: "(u32, u64) umap"
  sg_arena_block_buf_addrs :: "(u32, u64) umap"

definition Segment :: "u64 \<Rightarrow> segment" where
  "Segment channel_id =
     \<lparr>sg_init = False, sg_conf = ShmConf, sg_channel_id = channel_id, sg_managed = NullPtr,
      sg_state = None, sg_blocks = None, sg_arena_blocks = None, sg_block_buf_addrs = [],
      sg_arena_block_buf_addrs = []\<rparr>"

definition seg_Reset :: "segment \<Rightarrow> segment" where
  "seg_Reset sg =
     sg\<lparr>sg_state := None, sg_blocks := None, sg_arena_blocks := None, sg_block_buf_addrs := [],
        sg_arena_block_buf_addrs := [],
        sg_managed := (if sg_managed sg \<noteq> NullPtr then NullPtr else sg_managed sg)\<rparr>"

text \<open>The loops that record the address of each buffer.\<close>

definition fill_addrs :: "(u32 \<Rightarrow> u64) \<Rightarrow> u32 \<Rightarrow> (u32, u64) umap \<Rightarrow> (u32, u64) umap" where
  "fill_addrs addr num m = fold (\<lambda>i. um_set (of_nat i) (addr (of_nat i))) [0 ..< unat num] m"

text \<open>What is constructed in new memory.\<close>

definition new_region :: "shm_conf \<Rightarrow> u64 \<Rightarrow> shm_region" where
  "new_region c sz =
     \<lparr>rg_size = sz, rg_state = State (ceiling_msg_size c),
      rg_blocks = replicate (unat (block_num c)) Block,
      rg_arena_blocks = replicate (unat ARENA_BLOCK_NUM) Block, rg_mem = (\<lambda>_. 0)\<rparr>"

definition upd_region :: "nat \<Rightarrow> (shm_region \<Rightarrow> shm_region) \<Rightarrow> shm_os \<Rightarrow> shm_os" where
  "upd_region r f os = os\<lparr>os_regions := (os_regions os)(r := map_option f (os_regions os r))\<rparr>"

text \<open>
  The last part of the two \<^verbatim>\<open>OpenOrCreate\<close> and of \<^verbatim>\<open>XsiSegment::OpenOnly\<close>: point the fields into
  the region \<open>r\<close>, whose state says what the configuration is.
\<close>

definition attach_region ::
  "u64 \<Rightarrow> u64 \<Rightarrow> nat \<Rightarrow> shm_region \<Rightarrow> segment \<Rightarrow> shm_os \<Rightarrow> bool \<times> segment \<times> shm_os" where
  "attach_region szState szBlock r rg sg os =
     (let c = conf_Update (ss_ceiling_msg_size (rg_state rg));
          sg' = sg\<lparr>sg_managed := Mapped r, sg_state := Some r, sg_conf := c, sg_blocks := Some r,
                  sg_arena_blocks := Some r,
                  sg_block_buf_addrs :=
                    fill_addrs (block_buf_offset szState szBlock c) (block_num c) (sg_block_buf_addrs sg),
                  sg_arena_block_buf_addrs :=
                    fill_addrs (arena_buf_offset szState szBlock c) ARENA_BLOCK_NUM
                      (sg_arena_block_buf_addrs sg),
                  sg_init := True\<rparr>;
          os' = upd_region r (\<lambda>rg. rg\<lparr>rg_state := IncreaseReferenceCounts (rg_state rg)\<rparr>) os
      in (True, sg', os'))"

section \<open>XsiSegment\<close>

text \<open>\<^verbatim>\<open>key_t\<close> is a 32-bit integer.\<close>

definition xsi_key :: "u64 \<Rightarrow> u64" where
  "xsi_key channel_id = ucast (ucast channel_id :: u32)"

definition xsi_Remove :: "os_env \<Rightarrow> segment \<Rightarrow> shm_os \<Rightarrow> bool \<times> shm_os" where
  "xsi_Remove env sg os =
     (let key = xsi_key (sg_channel_id sg) in
      if env_get env \<or> os_names os key = None \<or> env_remove env then (False, os)
      else (True, os\<lparr>os_names := (os_names os)(key := None)\<rparr>))"

definition xsi_OpenOnly :: "u64 \<Rightarrow> u64 \<Rightarrow> os_env \<Rightarrow> segment \<Rightarrow> shm_os \<Rightarrow> bool \<times> segment \<times> shm_os" where
  "xsi_OpenOnly szState szBlock env sg os =
     (if sg_init sg then (True, sg, os)
      else if env_get env then (False, sg, os)
      else case os_names os (xsi_key (sg_channel_id sg)) of
        None \<Rightarrow> (False, sg, os)
      | Some r \<Rightarrow>
          if env_attach env then (False, sg\<lparr>sg_managed := MapFailed\<rparr>, os)
          else case os_regions os r of
            None \<Rightarrow> (False, sg, os)
          | Some rg \<Rightarrow> attach_region szState szBlock r rg sg os)"

datatype create_result = CrCreated | CrExists | CrFailed

function xsi_create_loop ::
  "os_env \<Rightarrow> nat \<Rightarrow> segment \<Rightarrow> shm_os \<Rightarrow> create_result \<times> segment \<times> shm_os" where
  "xsi_create_loop env retry sg os =
     (if retry < 2 then
        (case env_create env retry of
           Some EINVAL \<Rightarrow>
             (let sg' = seg_Reset sg; os' = snd (xsi_Remove env sg' os)
              in xsi_create_loop env (retry + 1) sg' os')
         | Some EOTHER \<Rightarrow> (CrFailed, sg, os)
         | None \<Rightarrow>
             if os_names os (xsi_key (sg_channel_id sg)) \<noteq> None then (CrExists, sg, os)
             else (CrCreated, sg, os))
      else (CrFailed, sg, os))"
  by pat_completeness auto
termination by (relation "measure (\<lambda>(env, retry, sg, os). 2 - retry)") auto

definition xsi_OpenOrCreate ::
  "u64 \<Rightarrow> u64 \<Rightarrow> os_env \<Rightarrow> segment \<Rightarrow> shm_os \<Rightarrow> bool \<times> segment \<times> shm_os" where
  "xsi_OpenOrCreate szState szBlock env sg os =
     (if sg_init sg then (True, sg, os)
      else case xsi_create_loop env 0 sg os of
        (CrFailed, sg1, os1) \<Rightarrow> (False, sg1, os1)
      | (CrExists, sg1, os1) \<Rightarrow> xsi_OpenOnly szState szBlock env sg1 os1
      | (CrCreated, sg1, os1) \<Rightarrow>
          if env_attach env then (False, sg1\<lparr>sg_managed := MapFailed\<rparr>, os1)
          else
            (let key = xsi_key (sg_channel_id sg1); r = os_next os1;
                 rg = new_region (sg_conf sg1) (managed_shm_size (sg_conf sg1));
                 os2 = os1\<lparr>os_names := (os_names os1)(key \<mapsto> r),
                          os_regions := (os_regions os1)(r \<mapsto> rg), os_next := r + 1\<rparr>
             in attach_region szState szBlock r rg sg1 os2))"

section \<open>PosixSegment\<close>

definition posix_Remove :: "os_env \<Rightarrow> segment \<Rightarrow> shm_os \<Rightarrow> bool \<times> shm_os" where
  "posix_Remove env sg os =
     (if env_remove env \<or> os_names os (sg_channel_id sg) = None then (False, os)
      else (True, os\<lparr>os_names := (os_names os)(sg_channel_id sg := None)\<rparr>))"

text \<open>The loop of lines 253 to 266: its condition reads \<^verbatim>\<open>i\<close>, its step changes \<^verbatim>\<open>ai\<close>.\<close>

partial_function (option) posix_arena_loop ::
  "(u32 \<Rightarrow> u64) \<Rightarrow> u32 \<Rightarrow> u32 \<Rightarrow> (u32, u64) umap \<Rightarrow> (u32 \<times> (u32, u64) umap) option" where
  "posix_arena_loop addr i ai m =
     (if i < ARENA_BLOCK_NUM then posix_arena_loop addr i (ai + 1) (um_set ai (addr ai) m)
      else Some (ai, m))"

definition posix_OpenOnly ::
  "u64 \<Rightarrow> u64 \<Rightarrow> os_env \<Rightarrow> segment \<Rightarrow> shm_os \<Rightarrow> (bool \<times> segment \<times> shm_os) option" where
  "posix_OpenOnly szState szBlock env sg os =
     (if sg_init sg then Some (True, sg, os)
      else if env_get env then Some (False, sg, os)
      else case os_names os (sg_channel_id sg) of
        None \<Rightarrow> Some (False, sg, os)
      | Some r \<Rightarrow>
          if env_stat env then Some (False, sg, os)
          else if env_attach env then Some (False, sg\<lparr>sg_managed := MapFailed\<rparr>, os)
          else case os_regions os r of
            None \<Rightarrow> Some (False, sg, os)
          | Some rg \<Rightarrow>
              (let c = conf_Update (ss_ceiling_msg_size (rg_state rg));
                   i = block_num c;
                   addrs = fill_addrs (block_buf_offset szState szBlock c) i (sg_block_buf_addrs sg)
               in do {
                 (ai, arena_addrs) \<leftarrow> posix_arena_loop (arena_buf_offset szState szBlock c) i 0
                    (sg_arena_block_buf_addrs sg);
                 Some (if i \<noteq> block_num c \<or> ai \<noteq> ARENA_BLOCK_NUM then
                   (False,
                    sg\<lparr>sg_conf := c, sg_state := None, sg_blocks := None, sg_arena_blocks := None,
                       sg_block_buf_addrs := [], sg_arena_block_buf_addrs := [], sg_managed := NullPtr\<rparr>,
                    snd (posix_Remove (env\<lparr>env_remove := False\<rparr>) sg os))
                  else
                   (True,
                    sg\<lparr>sg_managed := Mapped r, sg_state := Some r, sg_conf := c, sg_blocks := Some r,
                       sg_arena_blocks := Some r, sg_block_buf_addrs := addrs,
                       sg_arena_block_buf_addrs := arena_addrs, sg_init := True\<rparr>,
                    upd_region r (\<lambda>rg. rg\<lparr>rg_state := IncreaseReferenceCounts (rg_state rg)\<rparr>) os))
               }))"

definition posix_OpenOrCreate ::
  "u64 \<Rightarrow> u64 \<Rightarrow> os_env \<Rightarrow> segment \<Rightarrow> shm_os \<Rightarrow> (bool \<times> segment \<times> shm_os) option" where
  "posix_OpenOrCreate szState szBlock env sg os =
     (if sg_init sg then Some (True, sg, os)
      else if os_names os (sg_channel_id sg) \<noteq> None then posix_OpenOnly szState szBlock env sg os
      else if env_create env 0 \<noteq> None then Some (False, sg, os)
      else
        (let r = os_next os; c = sg_conf sg;
             rg = new_region c (managed_shm_size c);
             os1 = os\<lparr>os_names := (os_names os)(sg_channel_id sg \<mapsto> r),
                      os_regions := (os_regions os)(r \<mapsto> rg), os_next := r + 1\<rparr>
         in
           if env_truncate env then Some (False, sg, os1)
           else if env_attach env then
             Some (False, sg\<lparr>sg_managed := MapFailed\<rparr>, os1\<lparr>os_names := (os_names os)(sg_channel_id sg := None)\<rparr>)
           else Some (attach_region szState szBlock r rg sg os1)))"

section \<open>Segment: the operations\<close>

record seg_vtable =
  vt_OpenOnly :: "segment \<Rightarrow> shm_os \<Rightarrow> (bool \<times> segment \<times> shm_os) option"
  vt_OpenOrCreate :: "segment \<Rightarrow> shm_os \<Rightarrow> (bool \<times> segment \<times> shm_os) option"
  vt_Remove :: "segment \<Rightarrow> shm_os \<Rightarrow> bool \<times> shm_os"

definition xsi_vtable :: "u64 \<Rightarrow> u64 \<Rightarrow> os_env \<Rightarrow> seg_vtable" where
  "xsi_vtable szState szBlock env =
     \<lparr>vt_OpenOnly = (\<lambda>sg os. Some (xsi_OpenOnly szState szBlock env sg os)),
      vt_OpenOrCreate = (\<lambda>sg os. Some (xsi_OpenOrCreate szState szBlock env sg os)),
      vt_Remove = xsi_Remove env\<rparr>"

definition posix_vtable :: "u64 \<Rightarrow> u64 \<Rightarrow> os_env \<Rightarrow> seg_vtable" where
  "posix_vtable szState szBlock env =
     \<lparr>vt_OpenOnly = posix_OpenOnly szState szBlock env,
      vt_OpenOrCreate = posix_OpenOrCreate szState szBlock env,
      vt_Remove = posix_Remove env\<rparr>"

definition seg_Remap :: "seg_vtable \<Rightarrow> segment \<Rightarrow> shm_os \<Rightarrow> (bool \<times> segment \<times> shm_os) option" where
  "seg_Remap vt sg os = vt_OpenOnly vt (seg_Reset (sg\<lparr>sg_init := False\<rparr>)) os"

definition seg_Recreate :: "seg_vtable \<Rightarrow> u64 \<Rightarrow> segment \<Rightarrow> shm_os \<Rightarrow> (bool \<times> segment \<times> shm_os) option" where
  "seg_Recreate vt msg_size sg os =
     (case sg_state sg of
        None \<Rightarrow> None
      | Some r \<Rightarrow>
          (let os1 = upd_region r (\<lambda>rg. rg\<lparr>rg_state := set_need_remap True (rg_state rg)\<rparr>) os;
               sg1 = seg_Reset (sg\<lparr>sg_init := False\<rparr>);
               os2 = snd (vt_Remove vt sg1 os1)
           in vt_OpenOrCreate vt (sg1\<lparr>sg_conf := conf_Update msg_size\<rparr>) os2))"

text \<open>
  The loop of \<^verbatim>\<open>GetNextWritableBlockIndex\<close> and \<^verbatim>\<open>GetNextArenaWritableBlockIndex\<close>, on the sequence
  number and the blocks. \<open>None\<close>: no block is ever free.
\<close>

partial_function (option) next_block_loop :: "u32 \<Rightarrow> u32 \<Rightarrow> block list \<Rightarrow> (u32 \<times> u32 \<times> block list) option" where
  "next_block_loop num seq bs =
     (let try_idx = seq mod num; (ok, b) = TryLockForWrite (bs ! unat try_idx)
      in if ok then Some (try_idx, seq + 1, bs[unat try_idx := b])
         else next_block_loop num (seq + 1) bs)"

definition GetNextWritableBlockIndex :: "segment \<Rightarrow> shm_os \<Rightarrow> (u32 \<times> shm_os) option" where
  "GetNextWritableBlockIndex sg os =
     do {
       r \<leftarrow> sg_state sg;
       rg \<leftarrow> os_regions os r;
       (idx, seq, bs) \<leftarrow> next_block_loop (block_num (sg_conf sg)) (ss_seq (rg_state rg)) (rg_blocks rg);
       Some (idx, upd_region r (\<lambda>rg. rg\<lparr>rg_state := (rg_state rg)\<lparr>ss_seq := seq\<rparr>, rg_blocks := bs\<rparr>) os)
     }"

definition GetNextArenaWritableBlockIndex :: "segment \<Rightarrow> shm_os \<Rightarrow> (u32 \<times> shm_os) option" where
  "GetNextArenaWritableBlockIndex sg os =
     do {
       r \<leftarrow> sg_state sg;
       rg \<leftarrow> os_regions os r;
       (idx, seq, bs) \<leftarrow> next_block_loop ARENA_BLOCK_NUM (ss_arena_seq (rg_state rg)) (rg_arena_blocks rg);
       Some (idx, upd_region r
         (\<lambda>rg. rg\<lparr>rg_state := (rg_state rg)\<lparr>ss_arena_seq := seq\<rparr>, rg_arena_blocks := bs\<rparr>) os)
     }"

text \<open>A block handed to the caller: its index, its region and the offset of its buffer.\<close>

record writable_block =
  wb_index :: u32
  wb_block :: nat
  wb_buf :: u64

text \<open>
  The first part of \<^verbatim>\<open>AcquireBlockToWrite\<close>: open the segment, remap it when another process has
  recreated it, recreate it when the message does not fit.
\<close>

definition seg_update :: "seg_vtable \<Rightarrow> segment \<Rightarrow> shm_os \<Rightarrow> (bool \<times> segment \<times> shm_os) option" where
  "seg_update vt sg os =
     do {
       rg \<leftarrow> Option.bind (sg_state sg) (os_regions os);
       if ss_need_remap (rg_state rg) then seg_Remap vt sg os else Some (True, sg, os)
     }"

definition seg_fit :: "seg_vtable \<Rightarrow> u64 \<Rightarrow> bool \<times> segment \<times> shm_os \<Rightarrow> (bool \<times> segment \<times> shm_os) option" where
  "seg_fit vt msg_size = (\<lambda>(result, sg, os).
     if ceiling_msg_size (sg_conf sg) < msg_size then seg_Recreate vt msg_size sg os
     else Some (result, sg, os))"

definition seg_open_write :: "seg_vtable \<Rightarrow> segment \<Rightarrow> shm_os \<Rightarrow> (bool \<times> segment \<times> shm_os) option" where
  "seg_open_write vt sg os = (if sg_init sg then Some (True, sg, os) else vt_OpenOrCreate vt sg os)"

definition seg_open_read :: "seg_vtable \<Rightarrow> segment \<Rightarrow> shm_os \<Rightarrow> (bool \<times> segment \<times> shm_os) option" where
  "seg_open_read vt sg os = (if sg_init sg then Some (True, sg, os) else vt_OpenOnly vt sg os)"

definition take_block :: "segment \<Rightarrow> shm_os \<Rightarrow> (writable_block option \<times> segment \<times> shm_os) option" where
  "take_block sg os =
     do {
       (index, os) \<leftarrow> GetNextWritableBlockIndex sg os;
       r \<leftarrow> sg_blocks sg;
       Some (Some \<lparr>wb_index = index, wb_block = r, wb_buf = um_at 0 index (sg_block_buf_addrs sg)\<rparr>,
         sg\<lparr>sg_block_buf_addrs := um_touch 0 index (sg_block_buf_addrs sg)\<rparr>, os)
     }"

definition AcquireBlockToWrite ::
  "seg_vtable \<Rightarrow> u64 \<Rightarrow> segment \<Rightarrow> shm_os \<Rightarrow> (writable_block option \<times> segment \<times> shm_os) option" where
  "AcquireBlockToWrite vt msg_size sg os =
     do {
       (opened, sg, os) \<leftarrow> seg_open_write vt sg os;
       if \<not> opened then Some (None, sg, os)
       else do {
         (result, sg, os) \<leftarrow> Option.bind (seg_update vt sg os) (seg_fit vt msg_size);
         if \<not> result then Some (None, sg, os) else take_block sg os
       }
     }"

definition AcquireArenaBlockToWrite ::
  "seg_vtable \<Rightarrow> u64 \<Rightarrow> segment \<Rightarrow> shm_os \<Rightarrow> (writable_block option \<times> segment \<times> shm_os) option" where
  "AcquireArenaBlockToWrite vt msg_size sg os =
     do {
       (opened, sg, os) \<leftarrow> seg_open_write vt sg os;
       if \<not> opened then Some (None, sg, os)
       else do {
         (_, sg, os) \<leftarrow> seg_update vt sg os;
         (index, os) \<leftarrow> GetNextArenaWritableBlockIndex sg os;
         r \<leftarrow> sg_arena_blocks sg;
         Some (Some \<lparr>wb_index = index, wb_block = r, wb_buf = um_at 0 index (sg_arena_block_buf_addrs sg)\<rparr>,
           sg\<lparr>sg_arena_block_buf_addrs := um_touch 0 index (sg_arena_block_buf_addrs sg)\<rparr>, os)
       }
     }"

definition AcquireBlockToRead ::
  "seg_vtable \<Rightarrow> u32 \<Rightarrow> segment \<Rightarrow> shm_os \<Rightarrow> (writable_block option \<times> segment \<times> shm_os) option" where
  "AcquireBlockToRead vt index sg os =
     do {
       (opened, sg, os) \<leftarrow> seg_open_read vt sg os;
       if \<not> opened then Some (None, sg, os)
       else if block_num (sg_conf sg) \<le> index then Some (None, sg, os)
       else do {
         (result, sg, os) \<leftarrow> seg_update vt sg os;
         if \<not> result then Some (None, sg, os)
         else do {
           r \<leftarrow> sg_blocks sg;
           rg \<leftarrow> os_regions os r;
           let (ok, b) = TryLockForRead (rg_blocks rg ! unat index);
           if \<not> ok then Some (None, sg, os)
           else Some (Some \<lparr>wb_index = index, wb_block = r, wb_buf = um_at 0 index (sg_block_buf_addrs sg)\<rparr>,
             sg\<lparr>sg_block_buf_addrs := um_touch 0 index (sg_block_buf_addrs sg)\<rparr>,
             upd_region r (\<lambda>rg. rg\<lparr>rg_blocks := (rg_blocks rg)[unat index := b]\<rparr>) os)
         }
       }
     }"

definition AcquireArenaBlockToRead ::
  "seg_vtable \<Rightarrow> u32 \<Rightarrow> segment \<Rightarrow> shm_os \<Rightarrow> (writable_block option \<times> segment \<times> shm_os) option" where
  "AcquireArenaBlockToRead vt index sg os =
     do {
       (opened, sg, os) \<leftarrow> seg_open_read vt sg os;
       if \<not> opened then Some (None, sg, os)
       else if ARENA_BLOCK_NUM \<le> index then Some (None, sg, os)
       else do {
         (result, sg, os) \<leftarrow> seg_update vt sg os;
         if \<not> result then Some (None, sg, os)
         else do {
           r \<leftarrow> sg_arena_blocks sg;
           rg \<leftarrow> os_regions os r;
           let (ok, b) = TryLockForRead (rg_arena_blocks rg ! unat index);
           if \<not> ok then Some (None, sg, os)
           else Some (Some \<lparr>wb_index = index, wb_block = r, wb_buf = um_at 0 index (sg_arena_block_buf_addrs sg)\<rparr>,
             sg\<lparr>sg_arena_block_buf_addrs := um_touch 0 index (sg_arena_block_buf_addrs sg)\<rparr>,
             upd_region r (\<lambda>rg. rg\<lparr>rg_arena_blocks := (rg_arena_blocks rg)[unat index := b]\<rparr>) os)
         }
       }
     }"

text \<open>Releasing a block, and the four lock calls by index: the block of the segment's region.\<close>

definition upd_block :: "u32 \<Rightarrow> (block \<Rightarrow> block) \<Rightarrow> segment \<Rightarrow> shm_os \<Rightarrow> shm_os option" where
  "upd_block index f sg os =
     do {
       r \<leftarrow> sg_blocks sg;
       rg \<leftarrow> os_regions os r;
       Some (upd_region r (\<lambda>rg. rg\<lparr>rg_blocks := (rg_blocks rg)[unat index := f (rg_blocks rg ! unat index)]\<rparr>) os)
     }"

definition upd_arena_block :: "u32 \<Rightarrow> (block \<Rightarrow> block) \<Rightarrow> segment \<Rightarrow> shm_os \<Rightarrow> shm_os option" where
  "upd_arena_block index f sg os =
     do {
       r \<leftarrow> sg_arena_blocks sg;
       rg \<leftarrow> os_regions os r;
       Some (upd_region r
         (\<lambda>rg. rg\<lparr>rg_arena_blocks := (rg_arena_blocks rg)[unat index := f (rg_arena_blocks rg ! unat index)]\<rparr>) os)
     }"

definition ReleaseWrittenBlock :: "writable_block \<Rightarrow> segment \<Rightarrow> shm_os \<Rightarrow> shm_os option" where
  "ReleaseWrittenBlock wb sg os =
     (if block_num (sg_conf sg) \<le> wb_index wb then Some os
      else upd_block (wb_index wb) ReleaseWriteLock sg os)"

definition ReleaseArenaWrittenBlock :: "writable_block \<Rightarrow> segment \<Rightarrow> shm_os \<Rightarrow> shm_os option" where
  "ReleaseArenaWrittenBlock wb sg os =
     (if ARENA_BLOCK_NUM \<le> wb_index wb then Some os
      else upd_arena_block (wb_index wb) ReleaseWriteLock sg os)"

definition ReleaseReadBlock :: "writable_block \<Rightarrow> segment \<Rightarrow> shm_os \<Rightarrow> shm_os option" where
  "ReleaseReadBlock rb sg os =
     (if block_num (sg_conf sg) \<le> wb_index rb then Some os
      else upd_block (wb_index rb) ReleaseReadLock sg os)"

definition ReleaseArenaReadBlock :: "writable_block \<Rightarrow> segment \<Rightarrow> shm_os \<Rightarrow> shm_os option" where
  "ReleaseArenaReadBlock rb sg os =
     (if ARENA_BLOCK_NUM \<le> wb_index rb then Some os
      else upd_arena_block (wb_index rb) ReleaseReadLock sg os)"

definition seg_InitOnly :: "seg_vtable \<Rightarrow> u64 \<Rightarrow> segment \<Rightarrow> shm_os \<Rightarrow> (bool \<times> segment \<times> shm_os) option" where
  "seg_InitOnly vt message_size sg os =
     (if sg_init sg then Some (True, sg, os)
      else vt_OpenOrCreate vt (sg\<lparr>sg_conf := conf_Update message_size\<rparr>) os)"

definition seg_Destroy :: "seg_vtable \<Rightarrow> segment \<Rightarrow> shm_os \<Rightarrow> (bool \<times> segment \<times> shm_os) option" where
  "seg_Destroy vt sg os =
     (if \<not> sg_init sg then Some (True, sg, os)
      else do {
        r \<leftarrow> sg_state sg;
        rg \<leftarrow> os_regions os r;
        let os1 = upd_region r (\<lambda>rg. rg\<lparr>rg_state := DecreaseReferenceCounts (rg_state rg)\<rparr>) os;
        let sg1 = sg\<lparr>sg_init := False\<rparr>;
        if ss_reference_count (DecreaseReferenceCounts (rg_state rg)) = 0 then
          (let (ok, os2) = vt_Remove vt sg1 os1 in Some (ok, sg1, os2))
        else Some (True, sg1, os1)
      })"

definition try_block :: "(block \<Rightarrow> bool \<times> block) \<Rightarrow> u32 \<Rightarrow> segment \<Rightarrow> shm_os \<Rightarrow> (bool \<times> shm_os) option" where
  "try_block f index sg os =
     do {
       r \<leftarrow> sg_blocks sg;
       rg \<leftarrow> os_regions os r;
       os' \<leftarrow> upd_block index (\<lambda>b. snd (f b)) sg os;
       Some (fst (f (rg_blocks rg ! unat index)), os')
     }"

definition try_arena_block :: "(block \<Rightarrow> bool \<times> block) \<Rightarrow> u32 \<Rightarrow> segment \<Rightarrow> shm_os \<Rightarrow> (bool \<times> shm_os) option" where
  "try_arena_block f index sg os =
     do {
       r \<leftarrow> sg_arena_blocks sg;
       rg \<leftarrow> os_regions os r;
       os' \<leftarrow> upd_arena_block index (\<lambda>b. snd (f b)) sg os;
       Some (fst (f (rg_arena_blocks rg ! unat index)), os')
     }"

definition LockBlockForWriteByIndex :: "u64 \<Rightarrow> segment \<Rightarrow> shm_os \<Rightarrow> (bool \<times> shm_os) option" where
  "LockBlockForWriteByIndex index sg os =
     (if ucast (block_num (sg_conf sg)) \<le> index then Some (False, os)
      else try_block TryLockForWrite (ucast index) sg os)"

definition ReleaseBlockForWriteByIndex :: "u64 \<Rightarrow> segment \<Rightarrow> shm_os \<Rightarrow> (bool \<times> shm_os) option" where
  "ReleaseBlockForWriteByIndex index sg os =
     (if ucast (block_num (sg_conf sg)) \<le> index then Some (False, os)
      else try_block (\<lambda>b. (True, ReleaseWriteLock b)) (ucast index) sg os)"

definition LockBlockForReadByIndex :: "u64 \<Rightarrow> segment \<Rightarrow> shm_os \<Rightarrow> (bool \<times> shm_os) option" where
  "LockBlockForReadByIndex index sg os =
     (if ucast (block_num (sg_conf sg)) \<le> index then Some (False, os)
      else try_block TryLockForRead (ucast index) sg os)"

definition ReleaseBlockForReadByIndex :: "u64 \<Rightarrow> segment \<Rightarrow> shm_os \<Rightarrow> (bool \<times> shm_os) option" where
  "ReleaseBlockForReadByIndex index sg os =
     (if ucast (block_num (sg_conf sg)) \<le> index then Some (False, os)
      else try_block (\<lambda>b. (True, ReleaseReadLock b)) (ucast index) sg os)"

definition LockArenaBlockForWriteByIndex :: "u64 \<Rightarrow> segment \<Rightarrow> shm_os \<Rightarrow> (bool \<times> shm_os) option" where
  "LockArenaBlockForWriteByIndex index sg os =
     (if ucast ARENA_BLOCK_NUM \<le> index then Some (False, os)
      else try_arena_block TryLockForWrite (ucast index) sg os)"

definition ReleaseArenaBlockForWriteByIndex :: "u64 \<Rightarrow> segment \<Rightarrow> shm_os \<Rightarrow> (bool \<times> shm_os) option" where
  "ReleaseArenaBlockForWriteByIndex index sg os =
     (if ucast ARENA_BLOCK_NUM \<le> index then Some (False, os)
      else try_arena_block (\<lambda>b. (True, ReleaseWriteLock b)) (ucast index) sg os)"

definition LockArenaBlockForReadByIndex :: "u64 \<Rightarrow> segment \<Rightarrow> shm_os \<Rightarrow> (bool \<times> shm_os) option" where
  "LockArenaBlockForReadByIndex index sg os =
     (if ucast ARENA_BLOCK_NUM \<le> index then Some (False, os)
      else try_arena_block TryLockForRead (ucast index) sg os)"

definition ReleaseArenaBlockForReadByIndex :: "u64 \<Rightarrow> segment \<Rightarrow> shm_os \<Rightarrow> (bool \<times> shm_os) option" where
  "ReleaseArenaBlockForReadByIndex index sg os =
     (if ucast ARENA_BLOCK_NUM \<le> index then Some (False, os)
      else try_arena_block (\<lambda>b. (True, ReleaseReadLock b)) (ucast index) sg os)"

section \<open>Well-formed memory and segments\<close>

definition region_ok :: "shm_region \<Rightarrow> bool" where
  "region_ok rg =
     (let c = conf_Update (ss_ceiling_msg_size (rg_state rg)) in
      ceiling_msg_size c = ss_ceiling_msg_size (rg_state rg) \<and>
      length (rg_blocks rg) = unat (block_num c) \<and> length (rg_arena_blocks rg) = unat ARENA_BLOCK_NUM)"

definition os_ok :: "shm_os \<Rightarrow> bool" where
  "os_ok os =
     ((\<forall>r rg. os_regions os r = Some rg \<longrightarrow> region_ok rg \<and> r < os_next os) \<and>
      (\<forall>k r. os_names os k = Some r \<longrightarrow> os_regions os r \<noteq> None))"

definition addrs_ok :: "(u32 \<Rightarrow> u64) \<Rightarrow> u32 \<Rightarrow> (u32, u64) umap \<Rightarrow> bool" where
  "addrs_ok addr num m = (\<forall>i < num. map_of m i = Some (addr i))"

definition seg_at :: "u64 \<Rightarrow> u64 \<Rightarrow> nat \<Rightarrow> shm_region \<Rightarrow> segment \<Rightarrow> bool" where
  "seg_at szState szBlock r rg sg =
     (sg_init sg \<and> sg_managed sg = Mapped r \<and> sg_state sg = Some r \<and> sg_blocks sg = Some r \<and>
      sg_arena_blocks sg = Some r \<and> sg_conf sg = conf_Update (ss_ceiling_msg_size (rg_state rg)) \<and>
      addrs_ok (block_buf_offset szState szBlock (sg_conf sg)) (block_num (sg_conf sg)) (sg_block_buf_addrs sg) \<and>
      addrs_ok (arena_buf_offset szState szBlock (sg_conf sg)) ARENA_BLOCK_NUM (sg_arena_block_buf_addrs sg))"

text \<open>A segment is either not open, or mapped to a region that exists.\<close>

definition seg_ok :: "u64 \<Rightarrow> u64 \<Rightarrow> segment \<Rightarrow> shm_os \<Rightarrow> bool" where
  "seg_ok szState szBlock sg os =
     ((\<exists>s. sg_conf sg = conf_Update s) \<and>
      (sg_init sg \<longrightarrow> (\<exists>r rg. os_regions os r = Some rg \<and> seg_at szState szBlock r rg sg)))"

lemmas seg_inv_defs = region_ok_def os_ok_def seg_ok_def seg_at_def addrs_ok_def

section \<open>Buffers and regions\<close>

lemma map_of_fill_addrs:
  "map_of (fill_addrs addr num m) i = (if i < num then Some (addr i) else map_of m i)"
proof -
  have "map_of (fold (\<lambda>i. um_set (of_nat i) (addr (of_nat i))) [0 ..< n] m) i =
      (if unat i < n then Some (addr i) else map_of m i)" if "n \<le> 2 ^ 32" for n
    using that
  proof (induction n)
    case 0
    then show ?case by simp
  next
    case (Suc n)
    have "unat (of_nat n :: u32) = n" using Suc.prems by (simp add: unat_of_nat)
    then have "of_nat n = i \<longleftrightarrow> n = unat i" by (auto simp: word_unat_eq_iff)
    with Suc show ?case by (auto simp: map_of_um_set less_Suc_eq)
  qed
  moreover have "unat num \<le> 2 ^ 32" using unat_lt_u32 [of num] by (simp add: less_imp_le)
  ultimately show ?thesis by (simp add: fill_addrs_def word_less_nat_alt)
qed

end
