(* ===== verification/Shm_SegmentFacts.thy ===== *)
theory Shm_SegmentFacts
  imports Shm_Segment
begin

text \<open>
  What a segment promises: finding a free block always ends when there is one, a block acquired for
  writing is exclusively locked and its buffer holds the message, both implementations of the virtual
  functions compared, and what goes wrong in \<^verbatim>\<open>PosixSegment::OpenOnly\<close>, after a failed remap and for
  messages of more than 32 MB.
\<close>

section \<open>Finding a free block\<close>

lemma unat_seq_mod:
  assumes "unat num dvd 2 ^ 32"
  shows "unat ((seq + of_nat d) mod num :: u32) = (unat seq + d) mod unat num"
proof -
  have "unat (seq + of_nat d :: u32) = (unat seq + d) mod 2 ^ 32"
    by (simp add: unat_word_ariths unat_of_nat mod_add_right_eq)
  then show ?thesis using assms by (simp add: unat_mod mod_mod_cancel del: unat_of_nat)
qed

lemma block_num_dvd: "unat (block_num (conf_Update s)) dvd 2 ^ 32" "0 < unat (block_num (conf_Update s))"
proof -
  have "\<forall>(c, n) \<in> set conf_classes. n dvd 2 ^ 32 \<and> 0 < n" by (simp add: conf_classes_def)
  then show "unat (block_num (conf_Update s)) dvd 2 ^ 32" "0 < unat (block_num (conf_Update s))"
    using conf_Update_class [of s] by blast+
qed

lemma arena_num_dvd: "unat ARENA_BLOCK_NUM dvd 2 ^ 32" "0 < unat ARENA_BLOCK_NUM"
  by (simp_all add: ARENA_BLOCK_NUM_def)

lemma next_block_loop_step:
  "next_block_loop num seq bs =
     (if blk_lock_num (bs ! unat (seq mod num)) = 0
      then Some (seq mod num, seq + 1,
        bs[unat (seq mod num) := (bs ! unat (seq mod num))\<lparr>blk_lock_num := -1\<rparr>])
      else next_block_loop num (seq + 1) bs)"
  by (subst next_block_loop.simps) (simp add: TryLockForWrite_def blk_cas_def Let_def)

lemma next_block_loop_at:
  assumes "blk_lock_num (bs ! unat ((seq + of_nat d) mod num)) = 0"
    and "\<And>e. e < d \<Longrightarrow> blk_lock_num (bs ! unat ((seq + of_nat e) mod num)) \<noteq> 0"
  shows "next_block_loop num seq bs =
    (let i = (seq + of_nat d) mod num
     in Some (i, seq + of_nat d + 1, bs[unat i := (bs ! unat i)\<lparr>blk_lock_num := -1\<rparr>]))"
  using assms
proof (induction d arbitrary: seq)
  case 0
  then show ?case by (subst next_block_loop_step) (simp add: Let_def)
next
  case (Suc d)
  have "blk_lock_num (bs ! unat (seq mod num)) \<noteq> 0" using Suc.prems(2) [of 0] by simp
  then have "next_block_loop num seq bs = next_block_loop num (seq + 1) bs"
    by (subst next_block_loop_step) simp
  also have "\<dots> = (let i = (seq + 1 + of_nat d) mod num
     in Some (i, seq + 1 + of_nat d + 1, bs[unat i := (bs ! unat i)\<lparr>blk_lock_num := -1\<rparr>]))"
  proof (rule Suc.IH)
    show "blk_lock_num (bs ! unat ((seq + 1 + of_nat d) mod num)) = 0"
      using Suc.prems(1) by (simp add: algebra_simps)
    show "blk_lock_num (bs ! unat ((seq + 1 + of_nat e) mod num)) \<noteq> 0" if "e < d" for e
      using Suc.prems(2) [of "Suc e"] that by (simp add: algebra_simps)
  qed
  finally show ?case by (simp add: algebra_simps)
qed

lemma next_block_loop_returns:
  assumes num: "unat num dvd 2 ^ 32" "0 < unat num"
    and free: "j < unat num" "blk_lock_num (bs ! j) = 0"
  obtains i seq' where "next_block_loop num seq bs =
      Some (i, seq', bs[unat i := (bs ! unat i)\<lparr>blk_lock_num := -1\<rparr>])"
    and "i < num" "blk_lock_num (bs ! unat i) = 0"
proof -
  let ?P = "\<lambda>d. blk_lock_num (bs ! unat ((seq + of_nat d) mod num)) = 0"
  let ?d = "j + unat num - unat seq mod unat num"
  have "(unat seq + ?d) mod unat num = j"
  proof -
    have "unat seq mod unat num \<le> j + unat num" using num(2) by (meson le_add2 le_trans mod_less_divisor less_imp_le)
    then have "unat seq mod unat num + ?d = j + unat num" by simp
    moreover have "(unat seq + ?d) mod unat num = (unat seq mod unat num + ?d) mod unat num"
      by (rule mod_add_left_eq [symmetric])
    ultimately show ?thesis using free(1) by simp
  qed
  then have "?P ?d" using free(2) unat_seq_mod [OF num(1), of seq ?d] by simp
  define d where "d = (LEAST d. ?P d)"
  have d: "?P d" "\<And>e. e < d \<Longrightarrow> \<not> ?P e"
    unfolding d_def using \<open>?P ?d\<close> by (auto intro: LeastI dest: not_less_Least)
  let ?i = "(seq + of_nat d) mod num"
  have "unat ?i < unat num" using unat_seq_mod [OF num(1), of seq d] num(2) by simp
  then have "?i < num" by (simp add: word_less_nat_alt)
  with next_block_loop_at [of bs seq d num] d show thesis
    using that [of ?i "seq + of_nat d + 1"] by (simp add: Let_def)
qed

lemma next_block_loop_Some:
  assumes "next_block_loop num seq bs = Some y"
  shows "\<exists>s. blk_lock_num (bs ! unat (s mod num)) = 0"
  by (rule next_block_loop.raw_induct [OF _ assms])
    (auto simp: TryLockForWrite_def blk_cas_def Let_def split: if_splits prod.splits)

text \<open>With every block locked the loop never returns.\<close>

lemma next_block_loop_stuck:
  assumes "0 < unat num" "\<forall>j < unat num. blk_lock_num (bs ! j) \<noteq> 0"
  shows "next_block_loop num seq bs = None"
proof (rule ccontr)
  assume "next_block_loop num seq bs \<noteq> None"
  then obtain s where "blk_lock_num (bs ! unat (s mod num)) = 0"
    using next_block_loop_Some by blast
  moreover have "unat (s mod num) < unat num" using assms(1) by (simp add: unat_mod)
  ultimately show False using assms(2) by blast
qed

text \<open>
  Claim C13. Looking for a block to write takes the next free block after the shared sequence number, round
  robin: it returns whenever some block is free, for every value of the 32-bit sequence number, also
  when that wraps around; the block it returns was free, is now locked for writing, and no other block
  changed. If every block is locked it spins.
\<close>

theorem next_writable_block:
  fixes s :: u64
  defines "num \<equiv> block_num (conf_Update s)"
  assumes "length bs = unat num"
  shows "((\<exists>b \<in> set bs. blk_lock_num b = 0) \<longrightarrow>
      (\<exists>i seq'. next_block_loop num seq bs = Some (i, seq', bs[unat i := (bs ! unat i)\<lparr>blk_lock_num := -1\<rparr>]) \<and>
        i < num \<and> blk_lock_num (bs ! unat i) = 0)) \<and>
    ((\<forall>b \<in> set bs. blk_lock_num b \<noteq> 0) \<longrightarrow> next_block_loop num seq bs = None)"
proof (intro conjI impI)
  assume "\<exists>b \<in> set bs. blk_lock_num b = 0"
  then obtain j where "j < unat num" "blk_lock_num (bs ! j) = 0"
    using assms(2) by (auto simp: in_set_conv_nth)
  then show "\<exists>i seq'. next_block_loop num seq bs =
      Some (i, seq', bs[unat i := (bs ! unat i)\<lparr>blk_lock_num := -1\<rparr>]) \<and> i < num \<and> blk_lock_num (bs ! unat i) = 0"
    using next_block_loop_returns block_num_dvd unfolding num_def by metis
next
  assume "\<forall>b \<in> set bs. blk_lock_num b \<noteq> 0"
  then show "next_block_loop num seq bs = None"
    using next_block_loop_stuck block_num_dvd(2) assms(2) unfolding num_def by (metis nth_mem)
qed

theorem next_writable_block_witness:
  "\<exists>i seq'. next_block_loop (block_num (conf_Update 100000)) (-1)
      ((replicate 128 (Block\<lparr>blk_lock_num := -1\<rparr>))[5 := Block]) =
      Some (i, seq', ((replicate 128 (Block\<lparr>blk_lock_num := -1\<rparr>))[5 := Block])
        [unat i := (((replicate 128 (Block\<lparr>blk_lock_num := -1\<rparr>))[5 := Block]) ! unat i)\<lparr>blk_lock_num := -1\<rparr>]) \<and>
    i < block_num (conf_Update 100000) \<and>
    blk_lock_num (((replicate 128 (Block\<lparr>blk_lock_num := -1\<rparr>))[5 := Block]) ! unat i) = 0"
proof -
  let ?bs = "(replicate 128 (Block\<lparr>blk_lock_num := -1\<rparr>))[5 := Block]"
  have num: "unat (block_num (conf_Update 100000)) = 128"
    by (simp add: conf_Update_def Let_def GetCeilingMessageSize_def GetBlockNum_def shm_const_defs)
  have len: "length ?bs = unat (block_num (conf_Update 100000))" by (simp add: num)
  have "?bs ! 5 \<in> set ?bs" by (rule nth_mem) simp
  then have "Block \<in> set ?bs" by simp
  then have "\<exists>b \<in> set ?bs. blk_lock_num b = 0" by (rule bexI [rotated]) (simp add: Block_def)
  then show ?thesis using next_writable_block [OF len, of "-1"] by blast
qed

section \<open>PosixSegment::OpenOnly\<close>

lemma posix_arena_loop_stuck:
  assumes "i < ARENA_BLOCK_NUM"
  shows "posix_arena_loop addr i ai m = None"
proof (rule ccontr)
  assume "posix_arena_loop addr i ai m \<noteq> None"
  then obtain y where y: "posix_arena_loop addr i ai m = Some y" by blast
  have "\<not> i < ARENA_BLOCK_NUM"
    by (rule posix_arena_loop.raw_induct [OF _ y]) (auto split: if_splits)
  with assms show False by contradiction
qed

lemma posix_arena_loop_skip:
  "\<not> i < ARENA_BLOCK_NUM \<Longrightarrow> posix_arena_loop addr i ai m = Some (ai, m)"
  by (subst posix_arena_loop.simps) simp

text \<open>
  Claim C14. \<^verbatim>\<open>PosixSegment::OpenOnly\<close> never opens a segment: whatever the operating system does, a segment
  that is not yet open is never reported as opened. The loop over the arena buffers tests \<^verbatim>\<open>i\<close>
  instead of \<^verbatim>\<open>ai\<close>: with fewer than 512 blocks it never ends, and with 512 blocks it is skipped, so the
  call fails and removes the existing shared memory object.
\<close>

theorem posix_open_only_never_opens:
  assumes "\<not> sg_init sg"
  shows "posix_OpenOnly szState szBlock env sg os \<noteq> Some (True, sg', os') \<and>
    (\<not> env_get env \<and> \<not> env_stat env \<and> \<not> env_attach env \<and>
     os_names os (sg_channel_id sg) = Some r \<and> os_regions os r = Some rg \<longrightarrow>
     (if block_num (conf_Update (ss_ceiling_msg_size (rg_state rg))) < ARENA_BLOCK_NUM
      then posix_OpenOnly szState szBlock env sg os = None
      else \<exists>sg2 os2. posix_OpenOnly szState szBlock env sg os = Some (False, sg2, os2) \<and>
        os_names os2 (sg_channel_id sg) = None))"
proof (intro conjI impI)
  have zero: "(0 :: u32) \<noteq> ARENA_BLOCK_NUM" by (simp add: ARENA_BLOCK_NUM_def)
  have loop: "posix_arena_loop addr i 0 m = (if i < ARENA_BLOCK_NUM then None else Some (0, m))" for addr i m
    by (simp add: posix_arena_loop_stuck posix_arena_loop_skip)
  show "posix_OpenOnly szState szBlock env sg os \<noteq> Some (True, sg', os')"
    using assms zero by (simp add: posix_OpenOnly_def loop Let_def split: option.splits)
  assume "\<not> env_get env \<and> \<not> env_stat env \<and> \<not> env_attach env \<and>
     os_names os (sg_channel_id sg) = Some r \<and> os_regions os r = Some rg"
  with assms zero show "if block_num (conf_Update (ss_ceiling_msg_size (rg_state rg))) < ARENA_BLOCK_NUM
      then posix_OpenOnly szState szBlock env sg os = None
      else \<exists>sg2 os2. posix_OpenOnly szState szBlock env sg os = Some (False, sg2, os2) \<and>
        os_names os2 (sg_channel_id sg) = None"
    by (simp add: posix_OpenOnly_def loop Let_def posix_Remove_def)
qed

theorem posix_open_only_never_opens_witness:
  "\<exists>sg os. posix_OpenOrCreate 32 24 env_ok (Segment 7) os_init = Some (True, sg, os) \<and>
     (\<forall>sg' os'. posix_OpenOnly 32 24 env_ok (Segment 7) os \<noteq> Some (True, sg', os'))"
proof -
  let ?r = "attach_region 32 24 0 (new_region ShmConf (managed_shm_size ShmConf)) (Segment 7)
    (os_init\<lparr>os_names := [7 \<mapsto> 0], os_regions := [0 \<mapsto> new_region ShmConf (managed_shm_size ShmConf)], os_next := 1\<rparr>)"
  have "posix_OpenOrCreate 32 24 env_ok (Segment 7) os_init = Some ?r"
    by (simp add: posix_OpenOrCreate_def Segment_def os_init_def env_ok_def Let_def)
  moreover have "fst ?r" by (simp add: attach_region_def Let_def)
  ultimately obtain sg os where "posix_OpenOrCreate 32 24 env_ok (Segment 7) os_init = Some (True, sg, os)"
    by (metis prod.collapse)
  moreover have "\<not> sg_init (Segment 7)" by (simp add: Segment_def)
  ultimately show ?thesis using posix_open_only_never_opens [of "Segment 7"] by blast
qed

section \<open>What an implementation of the virtual functions promises\<close>

text \<open>The memory only grows, and a region keeps its configuration.\<close>

definition os_le :: "shm_os \<Rightarrow> shm_os \<Rightarrow> bool" where
  "os_le os os' =
     (\<forall>r rg. os_regions os r = Some rg \<longrightarrow>
        (\<exists>rg'. os_regions os' r = Some rg' \<and>
           ss_ceiling_msg_size (rg_state rg') = ss_ceiling_msg_size (rg_state rg)))"

lemma os_le_refl [simp]: "os_le os os"
  by (simp add: os_le_def)

lemma os_le_trans: "os_le os1 os2 \<Longrightarrow> os_le os2 os3 \<Longrightarrow> os_le os1 os3"
  unfolding os_le_def by fastforce

lemma seg_ok_mono:
  assumes "seg_ok szState szBlock sg os" "os_le os os'"
  shows "seg_ok szState szBlock sg os'"
  using assms unfolding seg_ok_def seg_at_def os_le_def by fastforce

lemma seg_ok_Reset: "seg_ok szState szBlock sg os \<Longrightarrow> seg_ok szState szBlock (seg_Reset (sg\<lparr>sg_init := False\<rparr>)) os"
  by (auto simp: seg_ok_def seg_Reset_def)

lemma seg_ok_closed: "seg_ok szState szBlock (sg\<lparr>sg_init := False, sg_conf := conf_Update s\<rparr>) os"
  by (auto simp: seg_ok_def)

lemma upd_region_le:
  "(\<And>rg. ss_ceiling_msg_size (rg_state (f rg)) = ss_ceiling_msg_size (rg_state rg)) \<Longrightarrow> os_le os (upd_region r f os)"
  by (auto simp: os_le_def upd_region_def)

lemma upd_region_ok:
  "os_ok os \<Longrightarrow> (\<And>rg. region_ok rg \<Longrightarrow> region_ok (f rg)) \<Longrightarrow> os_ok (upd_region r f os)"
  by (auto simp: os_ok_def upd_region_def)

lemma next_block_loop_result:
  assumes "next_block_loop num seq bs = Some y" "0 < unat num"
  shows "fst y < num \<and> blk_lock_num (bs ! unat (fst y)) = 0 \<and>
    snd (snd y) = bs[unat (fst y) := (bs ! unat (fst y))\<lparr>blk_lock_num := -1\<rparr>]"
proof -
  have "unat (s mod num) < unat num" for s using assms(2) by (simp add: unat_mod)
  then have mod: "s mod num < num" for s by (simp add: word_less_nat_alt)
  have "0 < unat num \<longrightarrow> fst y < num \<and> blk_lock_num (bs ! unat (fst y)) = 0 \<and>
    snd (snd y) = bs[unat (fst y) := (bs ! unat (fst y))\<lparr>blk_lock_num := -1\<rparr>]"
    by (rule next_block_loop.raw_induct [OF _ assms(1)])
      (auto simp: TryLockForWrite_def blk_cas_def Let_def word_less_nat_alt unat_mod
        split: if_splits prod.splits)
  with assms(2) show ?thesis by blast
qed

text \<open>Writing a sequence number and the blocks keeps a region well formed.\<close>

lemma GetNextWritableBlockIndex_ok:
  assumes "os_ok os" "seg_ok szState szBlock sg os" "sg_init sg"
    and "GetNextWritableBlockIndex sg os = Some (i, os')"
  obtains r rg rg' where "seg_at szState szBlock r rg sg" "os_regions os r = Some rg"
    "os_regions os' r = Some rg'" "i < block_num (sg_conf sg)"
    "blk_lock_num (rg_blocks rg ! unat i) = 0"
    "rg_blocks rg' = (rg_blocks rg)[unat i := (rg_blocks rg ! unat i)\<lparr>blk_lock_num := -1\<rparr>]"
    "rg_mem rg' = rg_mem rg" "os_ok os'" "os_le os os'" "os_names os' = os_names os"
proof -
  obtain r rg where r: "os_regions os r = Some rg" "seg_at szState szBlock r rg sg"
    using assms(2,3) unfolding seg_ok_def by blast
  then have st: "sg_state sg = Some r" "sg_conf sg = conf_Update (ss_ceiling_msg_size (rg_state rg))"
    by (simp_all add: seg_at_def)
  obtain seq bs where nb: "next_block_loop (block_num (sg_conf sg)) (ss_seq (rg_state rg)) (rg_blocks rg) = Some (i, seq, bs)"
    and os': "os' = upd_region r (\<lambda>rg. rg\<lparr>rg_state := (rg_state rg)\<lparr>ss_seq := seq\<rparr>, rg_blocks := bs\<rparr>) os"
    using assms(4) st(1) r(1) by (auto simp: GetNextWritableBlockIndex_def split: bind_splits)
  have "0 < unat (block_num (sg_conf sg))" unfolding st(2) by (rule block_num_dvd)
  note res = next_block_loop_result [OF nb this]
  have len: "length bs = length (rg_blocks rg)" using res by simp
  have "os_ok os'"
    unfolding os_ok_def os' upd_region_def
    using assms(1) r(1) len by (auto simp: os_ok_def region_ok_def Let_def)
  moreover have "os_le os os'" unfolding os' by (rule upd_region_le) simp
  ultimately show thesis
    using that [OF r(2) r(1), of "rg\<lparr>rg_state := (rg_state rg)\<lparr>ss_seq := seq\<rparr>, rg_blocks := bs\<rparr>"] res
    by (simp add: os' upd_region_def r(1))
qed

locale segment_provider =
  fixes vt :: seg_vtable and szState szBlock :: u64
  assumes open_only: "os_ok os \<Longrightarrow> seg_ok szState szBlock sg os \<Longrightarrow> vt_OpenOnly vt sg os = Some (b, sg', os') \<Longrightarrow>
      os_ok os' \<and> seg_ok szState szBlock sg' os' \<and> os_le os os' \<and> (b \<longrightarrow> sg_init sg')"
    and open_or_create: "os_ok os \<Longrightarrow> seg_ok szState szBlock sg os \<Longrightarrow> vt_OpenOrCreate vt sg os = Some (b, sg', os') \<Longrightarrow>
      os_ok os' \<and> seg_ok szState szBlock sg' os' \<and> os_le os os' \<and> (b \<longrightarrow> sg_init sg')"
    and remove: "os_ok os \<Longrightarrow> os_ok (snd (vt_Remove vt sg os)) \<and>
      os_regions (snd (vt_Remove vt sg os)) = os_regions os"
begin

lemma remap:
  "os_ok os \<Longrightarrow> seg_ok szState szBlock sg os \<Longrightarrow> seg_Remap vt sg os = Some (b, sg', os') \<Longrightarrow>
   os_ok os' \<and> seg_ok szState szBlock sg' os' \<and> os_le os os' \<and> (b \<longrightarrow> sg_init sg')"
  unfolding seg_Remap_def using open_only seg_ok_Reset by blast

lemma recreate:
  assumes "os_ok os" "seg_ok szState szBlock sg os" "seg_Recreate vt m sg os = Some (b, sg', os')"
  shows "os_ok os' \<and> seg_ok szState szBlock sg' os' \<and> os_le os os' \<and> (b \<longrightarrow> sg_init sg')"
proof -
  obtain r where r: "sg_state sg = Some r"
    using assms(3) by (auto simp: seg_Recreate_def split: option.splits)
  let ?os1 = "upd_region r (\<lambda>rg. rg\<lparr>rg_state := set_need_remap True (rg_state rg)\<rparr>) os"
  let ?sg1 = "seg_Reset (sg\<lparr>sg_init := False\<rparr>)"
  let ?os2 = "snd (vt_Remove vt ?sg1 ?os1)"
  have ok1: "os_ok ?os1" using assms(1) by (intro upd_region_ok) (auto simp: region_ok_def set_need_remap_def)
  have le1: "os_le os ?os1" by (intro upd_region_le) (simp add: set_need_remap_def)
  have le2: "os_le ?os1 ?os2" using remove [OF ok1, of ?sg1] by (simp add: os_le_def)
  have "seg_ok szState szBlock (?sg1\<lparr>sg_conf := conf_Update m\<rparr>) ?os2"
    by (auto simp: seg_ok_def seg_Reset_def)
  from open_or_create [OF _ this] remove [OF ok1, of ?sg1] assms(3) r
  have "os_ok os' \<and> seg_ok szState szBlock sg' os' \<and> os_le ?os2 os' \<and> (b \<longrightarrow> sg_init sg')"
    by (simp add: seg_Recreate_def Let_def)
  then show ?thesis using le1 le2 os_le_trans by blast
qed

lemma update:
  assumes "os_ok os" "seg_ok szState szBlock sg os" "seg_update vt sg os = Some (b, sg', os')"
    and "sg_init sg"
  shows "os_ok os' \<and> seg_ok szState szBlock sg' os' \<and> os_le os os' \<and> (b \<longrightarrow> sg_init sg')"
  using assms(3) remap [OF assms(1,2)] assms(1,2,4)
  by (auto simp: seg_update_def bind_eq_Some_conv split: if_splits)

lemma fit:
  assumes "os_ok os" "seg_ok szState szBlock sg os" "seg_fit vt m (b, sg, os) = Some (b', sg', os')"
    and "b \<longrightarrow> sg_init sg"
  shows "os_ok os' \<and> seg_ok szState szBlock sg' os' \<and> os_le os os' \<and> (b' \<longrightarrow> sg_init sg')"
  using assms(3) recreate [OF assms(1,2), of m b' sg' os'] assms(1,2,4)
  by (auto simp: seg_fit_def split: if_splits)

text \<open>
  A block handed out for writing: exclusively locked, in the mapped region, with its own buffer; and
  the segment and the memory stay well formed, for every other process as well.
\<close>

lemma taken_block:
  assumes "os_ok os" "seg_ok szState szBlock sg os" "sg_init sg"
    and "take_block sg os = Some (Some wb, sg', os')"
  shows "os_ok os' \<and> seg_ok szState szBlock sg' os' \<and> os_le os os' \<and> sg_init sg' \<and>
    wb_index wb < block_num (sg_conf sg') \<and> sg_blocks sg' = Some (wb_block wb) \<and>
    wb_buf wb = block_buf_offset szState szBlock (sg_conf sg') (wb_index wb) \<and>
    (\<exists>rg. os_regions os' (wb_block wb) = Some rg \<and> blk_lock_num (rg_blocks rg ! unat (wb_index wb)) = -1)"
proof -
  obtain i r where 1: "GetNextWritableBlockIndex sg os = Some (i, os')" "sg_blocks sg = Some r"
      "wb = \<lparr>wb_index = i, wb_block = r, wb_buf = um_at 0 i (sg_block_buf_addrs sg)\<rparr>"
      "sg' = sg\<lparr>sg_block_buf_addrs := um_touch 0 i (sg_block_buf_addrs sg)\<rparr>"
    using assms(4) by (auto simp: take_block_def bind_eq_Some_conv)
  obtain r' rg rg' where n: "seg_at szState szBlock r' rg sg" "os_regions os r' = Some rg"
    "os_regions os' r' = Some rg'" "i < block_num (sg_conf sg)"
    "rg_blocks rg' = (rg_blocks rg)[unat i := (rg_blocks rg ! unat i)\<lparr>blk_lock_num := -1\<rparr>]"
    "os_ok os'" "os_le os os'"
    using assms(1-3) by (rule GetNextWritableBlockIndex_ok [OF _ _ _ 1(1)])
  have r: "r' = r" using n(1) 1(2) by (simp add: seg_at_def)
  have present: "map_of (sg_block_buf_addrs sg) i = Some (block_buf_offset szState szBlock (sg_conf sg) i)"
    using n(1,4) by (simp add: seg_at_def addrs_ok_def)
  then have sg': "sg' = sg" using 1(4) by simp
  have "unat i < length (rg_blocks rg)"
    using assms(1) n(1,2,4) by (simp add: os_ok_def region_ok_def seg_at_def Let_def word_less_nat_alt)
  then have "blk_lock_num (rg_blocks rg' ! unat i) = -1" using n(5) by simp
  moreover have "wb_buf wb = block_buf_offset szState szBlock (sg_conf sg) i"
    using present 1(3) by (simp add: um_at_def)
  ultimately show ?thesis
    using n r sg' 1(2,3) seg_ok_mono [OF assms(2)] assms(3) by simp
qed

lemma acquire_write:
  assumes "os_ok os" "seg_ok szState szBlock sg os"
    and "AcquireBlockToWrite vt m sg os = Some (Some wb, sg', os')"
  shows "os_ok os' \<and> seg_ok szState szBlock sg' os' \<and> os_le os os' \<and> sg_init sg' \<and>
    wb_index wb < block_num (sg_conf sg') \<and> sg_blocks sg' = Some (wb_block wb) \<and>
    wb_buf wb = block_buf_offset szState szBlock (sg_conf sg') (wb_index wb) \<and>
    (\<exists>rg. os_regions os' (wb_block wb) = Some rg \<and> blk_lock_num (rg_blocks rg ! unat (wb_index wb)) = -1)"
proof -
  obtain sg1 os1 b2 sg2 os2 sg3 os3 where
    1: "seg_open_write vt sg os = Some (True, sg1, os1)" and 2: "seg_update vt sg1 os1 = Some (b2, sg2, os2)"
    and 3: "seg_fit vt m (b2, sg2, os2) = Some (True, sg3, os3)" and 4: "take_block sg3 os3 = Some (Some wb, sg', os')"
    using assms(3) by (auto simp: AcquireBlockToWrite_def bind_eq_Some_conv split: if_splits)
  have ok1: "os_ok os1 \<and> seg_ok szState szBlock sg1 os1 \<and> os_le os os1 \<and> sg_init sg1"
    using 1 open_or_create [OF assms(1,2)] assms(1,2) by (auto simp: seg_open_write_def split: if_splits)
  then have ok2: "os_ok os2 \<and> seg_ok szState szBlock sg2 os2 \<and> os_le os1 os2 \<and> (b2 \<longrightarrow> sg_init sg2)"
    using update [OF _ _ 2] by blast
  then have ok3: "os_ok os3 \<and> seg_ok szState szBlock sg3 os3 \<and> os_le os2 os3 \<and> sg_init sg3"
    using fit [OF _ _ 3] by blast
  then show ?thesis using taken_block [OF _ _ _ 4] ok1 ok2 os_le_trans by blast
qed

end

section \<open>XsiSegment keeps the promise\<close>

lemma attach_region_ok:
  assumes "os_ok os" "os_regions os r = Some rg" "attach_region szState szBlock r rg sg os = (b, sg', os')"
  shows "os_ok os' \<and> seg_ok szState szBlock sg' os' \<and> os_le os os' \<and> b \<and> sg_init sg' \<and>
    sg_conf sg' = conf_Update (ss_ceiling_msg_size (rg_state rg)) \<and> sg_channel_id sg' = sg_channel_id sg"
proof -
  let ?c = "conf_Update (ss_ceiling_msg_size (rg_state rg))"
  have os': "os' = upd_region r (\<lambda>rg. rg\<lparr>rg_state := IncreaseReferenceCounts (rg_state rg)\<rparr>) os"
    using assms(3) by (simp add: attach_region_def Let_def)
  have "os_ok os'"
    unfolding os' using assms(1) by (intro upd_region_ok) (auto simp: region_ok_def IncreaseReferenceCounts_def)
  moreover have "os_le os os'"
    unfolding os' by (intro upd_region_le) (simp add: IncreaseReferenceCounts_def)
  moreover have "os_regions os' r = Some (rg\<lparr>rg_state := IncreaseReferenceCounts (rg_state rg)\<rparr>)"
    using assms(2) by (simp add: os' upd_region_def)
  moreover have "seg_at szState szBlock r (rg\<lparr>rg_state := IncreaseReferenceCounts (rg_state rg)\<rparr>) sg'"
    using assms(3) by (auto simp: attach_region_def Let_def seg_at_def addrs_ok_def map_of_fill_addrs
        IncreaseReferenceCounts_def)
  moreover have "sg_conf sg' = ?c" "b" "sg_init sg'" "sg_channel_id sg' = sg_channel_id sg"
    using assms(3) by (auto simp: attach_region_def Let_def)
  ultimately show ?thesis unfolding seg_ok_def by blast
qed

lemma seg_ok_managed: "seg_ok szState szBlock sg os \<Longrightarrow> \<not> sg_init sg \<Longrightarrow> seg_ok szState szBlock (sg\<lparr>sg_managed := p\<rparr>) os"
  by (simp add: seg_ok_def)

lemma xsi_OpenOnly_ok:
  assumes "os_ok os" "seg_ok szState szBlock sg os" "xsi_OpenOnly szState szBlock env sg os = (b, sg', os')"
  shows "os_ok os' \<and> seg_ok szState szBlock sg' os' \<and> os_le os os' \<and> (b \<longrightarrow> sg_init sg')"
proof (cases "os_names os (xsi_key (sg_channel_id sg))")
  case None
  then show ?thesis using assms by (auto simp: xsi_OpenOnly_def split: if_splits)
next
  case (Some r)
  then obtain rg where rg: "os_regions os r = Some rg" using assms(1) unfolding os_ok_def by blast
  consider "sg_init sg \<or> env_get env" | "\<not> sg_init sg" "\<not> env_get env" "env_attach env"
    | "\<not> sg_init sg" "\<not> env_get env" "\<not> env_attach env" by blast
  then show ?thesis
  proof cases
    case 1
    then show ?thesis using assms by (auto simp: xsi_OpenOnly_def split: if_splits)
  next
    case 2
    then show ?thesis using assms Some seg_ok_managed [OF assms(2)] by (auto simp: xsi_OpenOnly_def)
  next
    case 3
    then show ?thesis
      using assms(3) Some rg attach_region_ok [OF assms(1) rg, of szState szBlock sg b sg' os']
      by (simp add: xsi_OpenOnly_def)
  qed
qed

lemma xsi_Remove_ok:
  "os_ok os \<Longrightarrow> os_ok (snd (xsi_Remove env sg os)) \<and> os_regions (snd (xsi_Remove env sg os)) = os_regions os"
  by (auto simp: xsi_Remove_def Let_def os_ok_def)

lemma seg_Reset_simps [simp]:
  "sg_init (seg_Reset sg) = sg_init sg" "sg_conf (seg_Reset sg) = sg_conf sg"
  "sg_channel_id (seg_Reset sg) = sg_channel_id sg"
  by (simp_all add: seg_Reset_def)

declare xsi_create_loop.simps [simp del]

lemma xsi_create_loop_ok:
  "xsi_create_loop env retry sg os = (res, sg', os') \<Longrightarrow> os_ok os \<Longrightarrow> \<not> sg_init sg \<Longrightarrow>
   os_ok os' \<and> os_regions os' = os_regions os \<and> os_next os' = os_next os \<and> \<not> sg_init sg' \<and>
   sg_conf sg' = sg_conf sg \<and> sg_channel_id sg' = sg_channel_id sg \<and>
   (res = CrCreated \<longrightarrow> os_names os' (xsi_key (sg_channel_id sg)) = None)"
proof (induction "2 - retry" arbitrary: retry sg os)
  case 0
  then have "(res, sg', os') = (CrFailed, sg, os)" by (simp add: xsi_create_loop.simps)
  with 0 show ?case by simp
next
  case (Suc k)
  let ?os = "snd (xsi_Remove env (seg_Reset sg) os)"
  have rm: "os_ok ?os" "os_regions ?os = os_regions os" "os_next ?os = os_next os"
    using xsi_Remove_ok [OF Suc.prems(2)] by (auto simp: xsi_Remove_def Let_def)
  have retry: "retry < 2" "k = 2 - (retry + 1)" using Suc.hyps(2) by simp_all
  have step: "(res, sg', os') = (case env_create env retry of
       Some EINVAL \<Rightarrow> xsi_create_loop env (retry + 1) (seg_Reset sg) ?os
     | Some EOTHER \<Rightarrow> (CrFailed, sg, os)
     | None \<Rightarrow> if os_names os (xsi_key (sg_channel_id sg)) \<noteq> None then (CrExists, sg, os)
         else (CrCreated, sg, os))"
    using Suc.prems(1) unfolding xsi_create_loop.simps [of env retry sg os] Let_def if_P [OF retry(1)]
    by (rule sym)
  show ?case
  proof (cases "env_create env retry = Some EINVAL")
    case True
    with step have "xsi_create_loop env (retry + 1) (seg_Reset sg) ?os = (res, sg', os')" by simp
    from Suc.hyps(1) [OF retry(2) this rm(1)] rm Suc.prems(3) show ?thesis by simp
  next
    case False
    with step Suc.prems(2,3) show ?thesis
      by (cases "env_create env retry"; cases "the (env_create env retry)") (auto split: if_splits)
  qed
qed

lemma new_region_ok: "region_ok (new_region (conf_Update s) sz)"
  by (simp add: region_ok_def new_region_def State_def Let_def conf_Update_idem)

lemma os_ok_create:
  assumes "os_ok os" "region_ok rg"
  shows "os_ok (os\<lparr>os_names := (os_names os)(k \<mapsto> os_next os), os_regions := (os_regions os)(os_next os \<mapsto> rg),
      os_next := os_next os + 1\<rparr>)"
    and "os_le os (os\<lparr>os_names := (os_names os)(k \<mapsto> os_next os), os_regions := (os_regions os)(os_next os \<mapsto> rg),
      os_next := os_next os + 1\<rparr>)"
  using assms by (auto simp: os_ok_def os_le_def less_SucI)

lemma xsi_OpenOrCreate_ok:
  assumes "os_ok os" "seg_ok szState szBlock sg os" "xsi_OpenOrCreate szState szBlock env sg os = (b, sg', os')"
  shows "os_ok os' \<and> seg_ok szState szBlock sg' os' \<and> os_le os os' \<and> (b \<longrightarrow> sg_init sg')"
proof (cases "sg_init sg")
  case True
  then show ?thesis using assms by (simp add: xsi_OpenOrCreate_def)
next
  case False
  obtain res sg1 os1 where l: "xsi_create_loop env 0 sg os = (res, sg1, os1)" by (metis prod_cases3)
  note l' = xsi_create_loop_ok [OF l assms(1) False]
  obtain s where conf: "sg_conf sg1 = conf_Update s" using l' assms(2) by (auto simp: seg_ok_def)
  have le: "os_le os os1" using l' by (simp add: os_le_def)
  have sg1: "seg_ok szState szBlock sg1 os1" using l' conf unfolding seg_ok_def by blast
  let ?rg = "new_region (sg_conf sg1) (managed_shm_size (sg_conf sg1))"
  have rg: "region_ok ?rg" unfolding conf by (rule new_region_ok)
  show ?thesis
  proof (cases res)
    case CrCreated
    show ?thesis
    proof (cases "env_attach env")
      case True
      then show ?thesis
        using CrCreated False assms(3) l sg1 seg_ok_managed l' le by (auto simp: xsi_OpenOrCreate_def)
    next
      case attach: False
      have a: "attach_region szState szBlock (os_next os1) ?rg sg1
         (os1\<lparr>os_names := (os_names os1)(xsi_key (sg_channel_id sg1) \<mapsto> os_next os1),
              os_regions := (os_regions os1)(os_next os1 \<mapsto> ?rg), os_next := os_next os1 + 1\<rparr>) = (b, sg', os')"
        using CrCreated False attach assms(3) l by (simp add: xsi_OpenOrCreate_def Let_def)
      have os1: "os_ok os1" using l' by simp
      have "os_le os (os1\<lparr>os_names := (os_names os1)(xsi_key (sg_channel_id sg1) \<mapsto> os_next os1),
              os_regions := (os_regions os1)(os_next os1 \<mapsto> ?rg), os_next := os_next os1 + 1\<rparr>)"
        by (rule os_le_trans [OF le os_ok_create(2) [OF os1 rg]])
      with attach_region_ok [OF os_ok_create(1) [OF os1 rg] _ a] show ?thesis
        using os_le_trans by simp
    qed
  next
    case CrExists
    then have "xsi_OpenOnly szState szBlock env sg1 os1 = (b, sg', os')"
      using False assms(3) l by (simp add: xsi_OpenOrCreate_def)
    from xsi_OpenOnly_ok [OF _ sg1 this] l' le show ?thesis using os_le_trans by blast
  next
    case CrFailed
    then show ?thesis using False assms(3) l sg1 l' le by (simp add: xsi_OpenOrCreate_def)
  qed
qed

interpretation xsi: segment_provider "xsi_vtable szState szBlock env" szState szBlock
proof (unfold_locales, unfold xsi_vtable_def seg_vtable.select_convs option.inject)
qed (fact xsi_OpenOnly_ok xsi_OpenOrCreate_ok xsi_Remove_ok)+

section \<open>A message finds room\<close>

lemma xsi_create_ok_env:
  "os_names os (xsi_key (sg_channel_id sg)) = None \<Longrightarrow> xsi_create_loop env_ok 0 sg os = (CrCreated, sg, os)"
  by (simp add: xsi_create_loop.simps env_ok_def)

definition created :: "u64 \<Rightarrow> segment \<Rightarrow> shm_os \<Rightarrow> shm_os" where
  "created s sg os = (let rg = new_region (conf_Update s) (managed_shm_size (conf_Update s)) in
     os\<lparr>os_names := (os_names os)(xsi_key (sg_channel_id sg) \<mapsto> os_next os),
        os_regions := (os_regions os)(os_next os \<mapsto> rg), os_next := os_next os + 1\<rparr>)"

lemma xsi_OpenOrCreate_new:
  assumes "\<not> sg_init sg" "os_names os (xsi_key (sg_channel_id sg)) = None" "sg_conf sg = conf_Update s"
  shows "xsi_OpenOrCreate szState szBlock env_ok sg os =
    attach_region szState szBlock (os_next os) (new_region (conf_Update s) (managed_shm_size (conf_Update s))) sg
      (created s sg os)"
  using assms by (simp add: xsi_OpenOrCreate_def xsi_create_ok_env created_def Let_def)
    (simp add: env_ok_def)

lemma xsi_Recreate_new:
  assumes "sg_state sg = Some r"
  shows "\<exists>os2 sg2. seg_Recreate (xsi_vtable szState szBlock env_ok) m sg os =
    Some (attach_region szState szBlock (os_next os2) (new_region (conf_Update m) (managed_shm_size (conf_Update m)))
      sg2 (created m sg2 os2))"
proof -
  let ?os1 = "upd_region r (\<lambda>rg. rg\<lparr>rg_state := set_need_remap True (rg_state rg)\<rparr>) os"
  let ?sg1 = "seg_Reset (sg\<lparr>sg_init := False\<rparr>)"
  let ?sg2 = "?sg1\<lparr>sg_conf := conf_Update m\<rparr>"
  let ?os2 = "snd (xsi_Remove env_ok ?sg1 ?os1)"
  have "os_names ?os2 (xsi_key (sg_channel_id ?sg2)) = None"
    by (simp add: xsi_Remove_def Let_def env_ok_def)
  then have "xsi_OpenOrCreate szState szBlock env_ok ?sg2 ?os2 =
    attach_region szState szBlock (os_next ?os2) (new_region (conf_Update m) (managed_shm_size (conf_Update m)))
      ?sg2 (created m ?sg2 ?os2)"
    by (intro xsi_OpenOrCreate_new) auto
  then show ?thesis using assms by (auto simp: seg_Recreate_def Let_def xsi_vtable_def)
qed

lemma attach_conf: "attach_region szState szBlock r rg sg os = (b, sg', os') \<Longrightarrow>
    sg_conf sg' = conf_Update (ss_ceiling_msg_size (rg_state rg))"
  by (auto simp: attach_region_def Let_def)

lemma new_region_conf: "conf_Update (ss_ceiling_msg_size (rg_state (new_region (conf_Update s) sz))) = conf_Update s"
  by (simp add: new_region_def State_def conf_Update_idem)

lemma take_block_conf: "take_block sg os = Some (w, sg', os') \<Longrightarrow> sg_conf sg' = sg_conf sg"
  by (auto simp: take_block_def bind_eq_Some_conv)

lemma xsi_acquire_fits:
  assumes "AcquireBlockToWrite (xsi_vtable szState szBlock env_ok) m sg os = Some (Some wb, sg', os')"
    and "unat m \<le> 33554432"
  shows "m \<le> ceiling_msg_size (sg_conf sg')"
proof -
  let ?vt = "xsi_vtable szState szBlock env_ok"
  obtain b sg2 os2 sg3 os3 where fit: "seg_fit ?vt m (b, sg2, os2) = Some (True, sg3, os3)"
    and take: "take_block sg3 os3 = Some (Some wb, sg', os')"
    using assms(1) by (auto simp: AcquireBlockToWrite_def bind_eq_Some_conv split: if_splits)
  have "m \<le> ceiling_msg_size (sg_conf sg3)"
  proof (cases "ceiling_msg_size (sg_conf sg2) < m")
    case True
    then have "seg_Recreate ?vt m sg2 os2 = Some (True, sg3, os3)" using fit by (simp add: seg_fit_def)
    moreover from this obtain r where "sg_state sg2 = Some r"
      by (auto simp: seg_Recreate_def split: option.splits)
    ultimately have "sg_conf sg3 = conf_Update m"
      using xsi_Recreate_new [of sg2 r szState szBlock m os2] attach_conf new_region_conf by fastforce
    then show ?thesis using ceiling_least [OF assms(2)] by (simp add: word_le_nat_alt)
  next
    case False
    then show ?thesis using fit by (auto simp: seg_fit_def)
  qed
  then show ?thesis using take_block_conf [OF take] by simp
qed

lemma take_block_returns:
  assumes "os_regions os r = Some rg" "seg_at szState szBlock r rg sg"
    and "j < unat (block_num (sg_conf sg))" "blk_lock_num (rg_blocks rg ! j) = 0"
  shows "\<exists>wb os'. take_block sg os = Some (Some wb, sg, os')"
proof -
  have sg: "sg_state sg = Some r" "sg_blocks sg = Some r" "sg_conf sg = conf_Update (ss_ceiling_msg_size (rg_state rg))"
    "addrs_ok (block_buf_offset szState szBlock (sg_conf sg)) (block_num (sg_conf sg)) (sg_block_buf_addrs sg)"
    using assms(2) unfolding seg_at_def by blast+
  obtain i seq' bs' where n: "next_block_loop (block_num (sg_conf sg)) (ss_seq (rg_state rg)) (rg_blocks rg) = Some (i, seq', bs')"
    "i < block_num (sg_conf sg)"
    using block_num_dvd [of "ss_ceiling_msg_size (rg_state rg)"] assms(3,4) unfolding sg(3)
    by (blast elim: next_block_loop_returns)
  then have "map_of (sg_block_buf_addrs sg) i \<noteq> None" using sg(4) by (simp add: addrs_ok_def)
  with n(1) show ?thesis
    using sg(1,2) assms(1) by (simp add: take_block_def GetNextWritableBlockIndex_def)
qed

text \<open>A segment that was just created is mapped, current, and all its blocks are free.\<close>

definition brand_new :: "u64 \<Rightarrow> u64 \<Rightarrow> u64 \<Rightarrow> segment \<Rightarrow> shm_os \<Rightarrow> bool" where
  "brand_new szState szBlock s sg os =
     (\<exists>r rg. os_regions os r = Some rg \<and> seg_at szState szBlock r rg sg \<and> \<not> ss_need_remap (rg_state rg) \<and>
        sg_conf sg = conf_Update s \<and> rg_blocks rg = replicate (unat (block_num (conf_Update s))) Block)"

lemma attach_brand_new:
  assumes "attach_region szState szBlock (os_next os) (new_region (conf_Update s) (managed_shm_size (conf_Update s))) sg
    (created s sg os) = (b, sg', os')"
  shows "b \<and> brand_new szState szBlock s sg' os'"
  using assms
  by (auto simp: attach_region_def Let_def brand_new_def seg_at_def addrs_ok_def map_of_fill_addrs created_def
      upd_region_def new_region_def State_def IncreaseReferenceCounts_def conf_Update_idem)

lemma brand_new_take:
  assumes "brand_new szState szBlock s sg os"
  shows "\<exists>wb os'. take_block sg os = Some (Some wb, sg, os')"
proof -
  obtain r rg where r: "os_regions os r = Some rg" "seg_at szState szBlock r rg sg"
    "sg_conf sg = conf_Update s" "rg_blocks rg = replicate (unat (block_num (conf_Update s))) Block"
    using assms unfolding brand_new_def by blast
  have "blk_lock_num (rg_blocks rg ! 0) = 0" using r(4) block_num_dvd(2) [of s] by (simp add: Block_def)
  then show ?thesis using take_block_returns [OF r(1,2), of 0] r(3) block_num_dvd(2) [of s] by simp
qed

lemma xsi_first_acquire:
  "\<exists>wb sg os. AcquireBlockToWrite (xsi_vtable szState szBlock env_ok) m (Segment ch) os_init = Some (Some wb, sg, os)"
proof -
  let ?vt = "xsi_vtable szState szBlock env_ok"
  have conf: "sg_conf (Segment ch) = conf_Update MESSAGE_SIZE_16K" "\<not> sg_init (Segment ch)"
    "os_names os_init (xsi_key (sg_channel_id (Segment ch))) = None"
    by (simp_all add: Segment_def ShmConf_def os_init_def)
  obtain b sg1 os1 where o: "xsi_OpenOrCreate szState szBlock env_ok (Segment ch) os_init = (b, sg1, os1)"
    by (metis prod_cases3)
  then have 1: "xsi_OpenOrCreate szState szBlock env_ok (Segment ch) os_init = (True, sg1, os1)"
    "brand_new szState szBlock MESSAGE_SIZE_16K sg1 os1"
    using attach_brand_new [OF o [unfolded xsi_OpenOrCreate_new [OF conf(2,3,1)]]] by auto
  then obtain r rg where r: "os_regions os1 r = Some rg" "sg_state sg1 = Some r" "\<not> ss_need_remap (rg_state rg)"
    by (auto simp: brand_new_def seg_at_def)
  have upd: "seg_update ?vt sg1 os1 = Some (True, sg1, os1)" using r by (simp add: seg_update_def)
  obtain sg2 os2 s where fit: "seg_fit ?vt m (True, sg1, os1) = Some (True, sg2, os2)" "brand_new szState szBlock s sg2 os2"
  proof (cases "ceiling_msg_size (sg_conf sg1) < m")
    case True
    obtain os' sg' where rec: "seg_Recreate ?vt m sg1 os1 =
        Some (attach_region szState szBlock (os_next os') (new_region (conf_Update m) (managed_shm_size (conf_Update m)))
          sg' (created m sg' os'))"
      using xsi_Recreate_new [OF r(2)] by blast
    obtain b2 sg2 os2 where a: "attach_region szState szBlock (os_next os')
        (new_region (conf_Update m) (managed_shm_size (conf_Update m))) sg' (created m sg' os') = (b2, sg2, os2)"
      by (metis prod_cases3)
    from attach_brand_new [OF a] have "b2" "brand_new szState szBlock m sg2 os2" by auto
    then show ?thesis using that [of sg2 os2 m] True rec a by (simp add: seg_fit_def)
  next
    case False
    then show ?thesis using that 1(2) by (simp add: seg_fit_def)
  qed
  have "seg_open_write ?vt (Segment ch) os_init = Some (True, sg1, os1)"
    using 1(1) conf(2) by (simp add: seg_open_write_def xsi_vtable_def)
  with upd fit(1) brand_new_take [OF fit(2)] show ?thesis by (auto simp: AcquireBlockToWrite_def)
qed

lemma os_ok_init: "os_ok os_init" "seg_ok szState szBlock (Segment ch) os_init"
  by (auto simp: os_ok_def os_init_def seg_ok_def Segment_def ShmConf_def)



section \<open>Where the promise ends\<close>

text \<open>
  A message of more than 32 MB plus 1 KB (the largest buffer) is still given a block, and the
  buffer of that block is smaller than the message: the writer that fills it overruns the buffer.
\<close>

lemma oversized_message_overruns:
  assumes "os_ok os" and "seg_ok szState szBlock sg os" and "33555456 < unat m"
    and "AcquireBlockToWrite (xsi_vtable szState szBlock env) m sg os = Some (Some wb, sg', os')"
  shows "unat (block_buf_size (sg_conf sg')) < unat m"
proof -
  obtain s where conf: "sg_conf sg' = conf_Update s"
    using xsi.acquire_write [OF assms(1,2,4)] by (auto simp: seg_ok_def)
  have "unat (ceiling_msg_size (conf_Update s)) \<le> 33554432"
    using conf_Update_class [of s] by (auto simp: conf_classes_def)
  then show ?thesis unfolding conf conf_Update_sizes(1) using assms(3) by linarith
qed

lemma oversized_message_overruns_witness:
  "\<exists>wb sg os. AcquireBlockToWrite (xsi_vtable 32 24 env_ok) 40000000 (Segment 7) os_init = Some (Some wb, sg, os) \<and>
     unat (block_buf_size (sg_conf sg)) < unat (40000000 :: u64)"
proof -
  obtain wb sg os where a: "AcquireBlockToWrite (xsi_vtable 32 24 env_ok) 40000000 (Segment 7) os_init = Some (Some wb, sg, os)"
    using xsi_first_acquire by blast
  then show ?thesis using oversized_message_overruns [OF os_ok_init _ a] by auto
qed

text \<open>
  When another process has removed a segment to recreate it, a writer that has it mapped and
  wants to send a larger message fails to remap it and then dereferences the null state pointer in
  \<^verbatim>\<open>Recreate\<close>.
\<close>

lemma failed_remap_then_recreate:
  assumes "sg_init sg" and "sg_state sg = Some r" and "os_regions os r = Some rg"
    and "ss_need_remap (rg_state rg)" and "os_names os (xsi_key (sg_channel_id sg)) = None"
    and "ceiling_msg_size (sg_conf sg) < m"
  shows "AcquireBlockToWrite (xsi_vtable szState szBlock env) m sg os = None"
proof -
  let ?vt = "xsi_vtable szState szBlock env"
  let ?sg = "seg_Reset (sg\<lparr>sg_init := False\<rparr>)"
  have "seg_Remap ?vt sg os = Some (False, ?sg, os)"
    using assms(5) by (simp add: seg_Remap_def xsi_vtable_def xsi_OpenOnly_def)
  then have "seg_update ?vt sg os = Some (False, ?sg, os)" using assms(2-4) by (simp add: seg_update_def)
  moreover have "seg_fit ?vt m (False, ?sg, os) = None"
    using assms(6) by (simp add: seg_fit_def seg_Recreate_def seg_Reset_def)
  ultimately show ?thesis using assms(1) by (simp add: AcquireBlockToWrite_def seg_open_write_def)
qed

lemma failed_remap_then_recreate_witness:
  "AcquireBlockToWrite (xsi_vtable 32 24 env_ok) 100000
     ((Segment 7)\<lparr>sg_init := True, sg_state := Some 0\<rparr>)
     (os_init\<lparr>os_regions := [0 \<mapsto> (new_region ShmConf 0)\<lparr>rg_state := set_need_remap True (State 16384)\<rparr>]\<rparr>) = None"
  by (rule failed_remap_then_recreate [of _ 0 _ "(new_region ShmConf 0)\<lparr>rg_state := set_need_remap True (State 16384)\<rparr>"])
    (simp_all add: Segment_def os_init_def set_need_remap_def ShmConf_def conf_Update_def Let_def
      GetCeilingMessageSize_def shm_const_defs)

end
