(* ===== verification/Transport_Message.thy ===== *)
theory Transport_Message
  imports Cyber_Prelude
begin

text \<open>
  What travels with a message: the identity of the sender (\<^verbatim>\<open>transport/common/identity\<close>), the
  message info written behind every payload (\<^verbatim>\<open>transport/message/message_info\<close>) and the readable
  info sent by the notifiers (\<^verbatim>\<open>transport/shm/readable_info\<close>), with their byte formats. Integers are
  stored as the machine stores them, least significant byte first. The hash of an identity
  (\<^verbatim>\<open>std::hash\<close>) and the generated uuid are parameters.

  The lemmas show that both formats can be read back, and that the string form of a message info is
  shorter than the length its own reader insists on.
\<close>

section \<open>Memory and the representation of integers\<close>

type_synonym memory = "nat \<Rightarrow> u8"

fun le_bytes :: "nat \<Rightarrow> 'a::len word \<Rightarrow> u8 list" where
  "le_bytes 0 w = []"
| "le_bytes (Suc n) w = ucast w # le_bytes n (drop_bit 8 w)"

fun of_le_bytes :: "u8 list \<Rightarrow> 'a::len word" where
  "of_le_bytes [] = 0"
| "of_le_bytes (b # bs) = ucast b OR push_bit 8 (of_le_bytes bs)"

text \<open>\<^verbatim>\<open>memcpy\<close> of bytes to an address, and the bytes at an address.\<close>

definition mem_write :: "nat \<Rightarrow> u8 list \<Rightarrow> memory \<Rightarrow> memory" where
  "mem_write p bs m = (\<lambda>a. if p \<le> a \<and> a < p + length bs then bs ! (a - p) else m a)"

definition mem_read :: "nat \<Rightarrow> nat \<Rightarrow> memory \<Rightarrow> u8 list" where
  "mem_read p n m = map m [p..<p + n]"

section \<open>Identity\<close>

definition ID_SIZE :: nat where "ID_SIZE = 8"

record identity =
  id_data :: "u8 list"
  id_hash_value :: u64

definition id_Update :: "(u8 list \<Rightarrow> u64) \<Rightarrow> identity \<Rightarrow> identity" where
  "id_Update hash i = i\<lparr>id_hash_value := hash (id_data i)\<rparr>"

text \<open>The constructor; the argument is the generated uuid when one is asked for.\<close>

definition Identity :: "(u8 list \<Rightarrow> u64) \<Rightarrow> u8 list option \<Rightarrow> identity" where
  "Identity hash uuid = (let i = \<lparr>id_data = replicate ID_SIZE 0, id_hash_value = 0\<rparr> in
     case uuid of None \<Rightarrow> i | Some u \<Rightarrow> id_Update hash (i\<lparr>id_data := take ID_SIZE u\<rparr>))"

definition id_set_data :: "(u8 list \<Rightarrow> u64) \<Rightarrow> u8 list \<Rightarrow> identity \<Rightarrow> identity" where
  "id_set_data hash src i = id_Update hash (i\<lparr>id_data := take ID_SIZE src\<rparr>)"

definition id_eq :: "identity \<Rightarrow> identity \<Rightarrow> bool" where
  "id_eq a b = (id_data a = id_data b)"

section \<open>MessageInfo\<close>

record message_info =
  mi_sender_id :: identity
  mi_channel_id :: u64
  mi_seq_num :: u64
  mi_spare_id :: identity
  mi_send_time :: u64

text \<open>\<^verbatim>\<open>kSize\<close>, with the summands of the source.\<close>

definition mi_kSize :: nat where
  "mi_kSize = 2 * ID_SIZE + 8 + 8 + 4 + 8"

text \<open>
  The constructors leave \<^verbatim>\<open>send_time_\<close> indeterminate: its value is the argument \<open>junk\<close>. So does
  the copy constructor, and the assignment keeps the old one.
\<close>

definition MessageInfo :: "(u8 list \<Rightarrow> u64) \<Rightarrow> u64 \<Rightarrow> message_info" where
  "MessageInfo hash junk = \<lparr>mi_sender_id = Identity hash None, mi_channel_id = 0, mi_seq_num = 0,
     mi_spare_id = Identity hash None, mi_send_time = junk\<rparr>"

definition MessageInfo_seq :: "identity \<Rightarrow> u64 \<Rightarrow> identity \<Rightarrow> u64 \<Rightarrow> message_info" where
  "MessageInfo_seq sender seq spare junk = \<lparr>mi_sender_id = sender, mi_channel_id = 0, mi_seq_num = seq,
     mi_spare_id = spare, mi_send_time = junk\<rparr>"

definition mi_copy :: "message_info \<Rightarrow> u64 \<Rightarrow> message_info" where
  "mi_copy another junk = \<lparr>mi_sender_id = mi_sender_id another, mi_channel_id = mi_channel_id another,
     mi_seq_num = mi_seq_num another, mi_spare_id = mi_spare_id another, mi_send_time = junk\<rparr>"

definition mi_assign :: "message_info \<Rightarrow> message_info \<Rightarrow> message_info" where
  "mi_assign this another = this\<lparr>mi_sender_id := mi_sender_id another, mi_channel_id := mi_channel_id another,
     mi_seq_num := mi_seq_num another, mi_spare_id := mi_spare_id another\<rparr>"

definition mi_eq :: "message_info \<Rightarrow> message_info \<Rightarrow> bool" where
  "mi_eq a b = (id_eq (mi_sender_id a) (mi_sender_id b) \<and> mi_channel_id a = mi_channel_id b \<and>
     mi_seq_num a = mi_seq_num b \<and> id_eq (mi_spare_id a) (mi_spare_id b))"

text \<open>\<^verbatim>\<open>SerializeTo(std::string*)\<close> and \<^verbatim>\<open>SerializeTo(char*, size_t)\<close>.\<close>

definition mi_SerializeTo_string :: "message_info \<Rightarrow> u8 list" where
  "mi_SerializeTo_string i = id_data (mi_sender_id i) @ le_bytes 8 (mi_channel_id i) @
     le_bytes 8 (mi_seq_num i) @ id_data (mi_spare_id i) @ le_bytes 8 (mi_send_time i)"

definition mi_SerializeTo :: "message_info \<Rightarrow> nat option \<Rightarrow> nat \<Rightarrow> memory \<Rightarrow> bool \<times> memory" where
  "mi_SerializeTo i dst len m = (case dst of None \<Rightarrow> (False, m) | Some ptr \<Rightarrow>
     if len < mi_kSize then (False, m) else
     let m = mem_write ptr (id_data (mi_sender_id i)) m; ptr = ptr + ID_SIZE;
         m = mem_write ptr (le_bytes 8 (mi_channel_id i)) m; ptr = ptr + 8;
         m = mem_write ptr (le_bytes 8 (mi_seq_num i)) m; ptr = ptr + 8;
         m = mem_write ptr (id_data (mi_spare_id i)) m; ptr = ptr + ID_SIZE;
         m = mem_write ptr (le_bytes 8 (mi_send_time i)) m
     in (True, m))"

text \<open>\<^verbatim>\<open>DeserializeFrom\<close> on the bytes of its argument.\<close>

definition mi_DeserializeFrom :: "(u8 list \<Rightarrow> u64) \<Rightarrow> u8 list \<Rightarrow> message_info \<Rightarrow> bool \<times> message_info" where
  "mi_DeserializeFrom hash src i = (if length src \<noteq> mi_kSize then (False, i) else
     let i = i\<lparr>mi_sender_id := id_set_data hash src (mi_sender_id i)\<rparr>; ptr = drop ID_SIZE src;
         i = i\<lparr>mi_channel_id := of_le_bytes (take 8 ptr)\<rparr>; ptr = drop 8 ptr;
         i = i\<lparr>mi_seq_num := of_le_bytes (take 8 ptr)\<rparr>; ptr = drop 8 ptr;
         i = i\<lparr>mi_spare_id := id_set_data hash ptr (mi_spare_id i)\<rparr>; ptr = drop ID_SIZE ptr;
         i = i\<lparr>mi_send_time := of_le_bytes (take 8 ptr)\<rparr>
     in (True, i))"

section \<open>ReadableInfo\<close>

record readable_info =
  ri_host_id :: u64
  ri_block_index :: u32
  ri_arena_block_index :: u32
  ri_channel_id :: u64

definition ri_kSize :: nat where "ri_kSize = 8 * 2 + 4 + 4"

definition ReadableInfo :: readable_info where
  "ReadableInfo = \<lparr>ri_host_id = 0, ri_block_index = 0, ri_arena_block_index = -1, ri_channel_id = 0\<rparr>"

definition ReadableInfo_of :: "u64 \<Rightarrow> u32 \<Rightarrow> u64 \<Rightarrow> u32 \<Rightarrow> readable_info" where
  "ReadableInfo_of host block channel arena =
     \<lparr>ri_host_id = host, ri_block_index = block, ri_arena_block_index = arena, ri_channel_id = channel\<rparr>"

definition ri_SerializeTo :: "readable_info \<Rightarrow> u8 list" where
  "ri_SerializeTo i = le_bytes 8 (ri_host_id i) @ le_bytes 4 (ri_block_index i) @
     le_bytes 8 (ri_channel_id i) @ le_bytes 4 (ri_arena_block_index i)"

definition ri_DeserializeFrom :: "u8 list \<Rightarrow> readable_info \<Rightarrow> bool \<times> readable_info" where
  "ri_DeserializeFrom src i = (if length src \<noteq> ri_kSize then (False, i) else
     let i = i\<lparr>ri_host_id := of_le_bytes (take 8 src)\<rparr>; ptr = drop 8 src;
         i = i\<lparr>ri_block_index := of_le_bytes (take 4 ptr)\<rparr>; ptr = drop 4 ptr;
         i = i\<lparr>ri_channel_id := of_le_bytes (take 8 ptr)\<rparr>; ptr = drop 8 ptr;
         i = i\<lparr>ri_arena_block_index := of_le_bytes (take 4 ptr)\<rparr>
     in (True, i))"

section \<open>Well-formed identities\<close>

text \<open>An identity holds eight bytes; outside its constructor its hash is that of the bytes.\<close>

definition id_ok :: "(u8 list \<Rightarrow> u64) \<Rightarrow> identity \<Rightarrow> bool" where
  "id_ok hash i = (length (id_data i) = ID_SIZE \<and> id_hash_value i = hash (id_data i))"

definition mi_ok :: "(u8 list \<Rightarrow> u64) \<Rightarrow> message_info \<Rightarrow> bool" where
  "mi_ok hash i = (id_ok hash (mi_sender_id i) \<and> id_ok hash (mi_spare_id i))"

section \<open>Lemmas\<close>

lemma length_le_bytes [simp]: "length (le_bytes n w) = n"
  by (induction n arbitrary: w) simp_all

lemma of_le_bytes_le_bytes: "of_le_bytes (le_bytes n w) = take_bit (8 * n) (w :: 'a::len word)"
proof (induction n arbitrary: w)
  case (Suc n)
  show ?case
    unfolding le_bytes.simps of_le_bytes.simps Suc.IH
    by (rule bit_word_eqI) (auto simp: bit_simps)
qed simp

lemma le_bytes_u64 [simp]: "of_le_bytes (le_bytes 8 w) = (w :: u64)"
  by (simp add: of_le_bytes_le_bytes take_bit_word_eq_self)

lemma le_bytes_u32 [simp]: "of_le_bytes (le_bytes 4 w) = (w :: u32)"
  by (simp add: of_le_bytes_le_bytes take_bit_word_eq_self)

lemma length_mem_read [simp]: "length (mem_read p n m) = n"
  by (simp add: mem_read_def)

lemma mem_read_write [simp]: "n = length bs \<Longrightarrow> mem_read p n (mem_write p bs m) = bs"
  by (rule nth_equalityI) (simp_all add: mem_read_def mem_write_def)

lemma mem_read_write_disjoint:
  "p + length bs \<le> q \<or> q + n \<le> p \<Longrightarrow> mem_read q n (mem_write p bs m) = mem_read q n m"
  by (auto simp: mem_read_def mem_write_def)

lemma mem_write_append: "mem_write p (as @ bs) m = mem_write (p + length as) bs (mem_write p as m)"
  by (auto simp: mem_write_def fun_eq_iff nth_append)

lemma mem_write_other: "a < p \<or> p + length bs \<le> a \<Longrightarrow> mem_write p bs m a = m a"
  by (auto simp: mem_write_def)

lemma mem_read_split: "mem_read p (n + k) m = mem_read p n m @ mem_read (p + n) k m"
proof -
  have "[p..<p + (n + k)] = [p..<p + n] @ [p + n..<p + n + k]"
    by (metis add.assoc le_add1 upt_add_eq_append)
  then show ?thesis by (simp add: mem_read_def)
qed

lemma id_ok_set_data:
  "id_ok hash i \<Longrightarrow> id_set_data hash (id_data i @ rest) j = i"
  by (cases i, cases j) (simp add: id_ok_def id_set_data_def id_Update_def)

lemma id_ok_Identity: "length u = 16 \<Longrightarrow> id_ok hash (Identity hash (Some u))"
  by (simp add: id_ok_def Identity_def id_Update_def ID_SIZE_def)

lemma mi_serialized:
  assumes "id_ok hash (mi_sender_id i)" and "id_ok hash (mi_spare_id i)" and "mi_kSize \<le> len"
  shows "mi_SerializeTo i (Some p) len m = (True, mem_write p (mi_SerializeTo_string i) m)"
  using assms by (simp add: mi_SerializeTo_def mi_SerializeTo_string_def Let_def mem_write_append
      id_ok_def ID_SIZE_def)

lemma length_mi_string:
  "mi_ok hash i \<Longrightarrow> length (mi_SerializeTo_string i) = 40"
  by (simp add: mi_SerializeTo_string_def mi_ok_def id_ok_def ID_SIZE_def)

text \<open>Reading the 40 written bytes followed by any four others.\<close>

lemma mi_Deserialize_padded:
  assumes "mi_ok hash i" and "length pad = 4"
  shows "mi_DeserializeFrom hash (mi_SerializeTo_string i @ pad) j = (True, i)"
proof -
  have l: "length (id_data (mi_sender_id i)) = 8" "length (id_data (mi_spare_id i)) = 8"
    using assms by (simp_all add: mi_ok_def id_ok_def ID_SIZE_def)
  have ids: "id_set_data hash (id_data (mi_sender_id i) @ r) k = mi_sender_id i"
    "id_set_data hash (id_data (mi_spare_id i) @ r) k = mi_spare_id i" for r k
    using assms by (simp_all add: mi_ok_def id_ok_set_data)
  show ?thesis
    using assms(2) by (simp add: mi_DeserializeFrom_def mi_SerializeTo_string_def Let_def l ids
        mi_kSize_def ID_SIZE_def)
qed

section \<open>Properties\<close>

text \<open>
  A readable info that is serialized and read back is the same info, whatever the reader
  held before; bytes of any other length are refused and leave the reader unchanged.
\<close>

lemma readable_info_roundtrip:
  "ri_DeserializeFrom (ri_SerializeTo i) j = (True, i) \<and>
   length (ri_SerializeTo i) = ri_kSize \<and>
   (\<forall>src. length src \<noteq> ri_kSize \<longrightarrow> ri_DeserializeFrom src j = (False, j))"
  by (simp add: ri_DeserializeFrom_def ri_SerializeTo_def ri_kSize_def Let_def)

lemma readable_info_roundtrip_witness:
  "ri_DeserializeFrom (ri_SerializeTo (ReadableInfo_of 7 5 42 (-1))) ReadableInfo = (True, ReadableInfo_of 7 5 42 (-1)) \<and>
   ri_DeserializeFrom [1, 2, 3] ReadableInfo = (False, ReadableInfo)"
  using readable_info_roundtrip [of "ReadableInfo_of 7 5 42 (-1)" ReadableInfo] by (simp add: ri_kSize_def)



text \<open>
  The string form of a message info can never be read back: it has 40 bytes, four fewer
  than the nominal length, so reading it fails and changes nothing; for the same reason the info
  cannot be written into a buffer of the size of its string form.
\<close>

lemma message_info_string_unreadable:
  assumes "mi_ok hash i"
  shows "mi_DeserializeFrom hash (mi_SerializeTo_string i) j = (False, j) \<and>
    mi_SerializeTo i dst (length (mi_SerializeTo_string i)) m = (False, m)"
  using length_mi_string [OF assms]
  by (simp add: mi_DeserializeFrom_def mi_SerializeTo_def mi_kSize_def ID_SIZE_def split: option.split)

lemma message_info_string_unreadable_witness:
  "let i = MessageInfo_seq (Identity (\<lambda>_. 3) (Some (replicate 16 1))) 9 (Identity (\<lambda>_. 3) (Some (replicate 16 2))) 77
   in mi_DeserializeFrom (\<lambda>_. 3) (mi_SerializeTo_string i) (MessageInfo (\<lambda>_. 3) 0) = (False, MessageInfo (\<lambda>_. 3) 0)"
proof -
  let ?i = "MessageInfo_seq (Identity (\<lambda>_. 3) (Some (replicate 16 1))) 9 (Identity (\<lambda>_. 3) (Some (replicate 16 2))) 77"
  have "mi_ok (\<lambda>_. 3) ?i" by (simp add: mi_ok_def MessageInfo_seq_def id_ok_Identity)
  then show ?thesis using message_info_string_unreadable by (simp add: Let_def)
qed

end
