(* ===== verification/Shm_Notifier.thy ===== *)
theory Shm_Notifier
  imports Cyber_Interfaces Transport_Message Shm_Segment "HOL-Library.Sublist"
begin

text \<open>
  The notifiers of the shared memory transport (\<^verbatim>\<open>transport/shm/condition_notifier\<close> and
  \<^verbatim>\<open>multicast_notifier\<close>). The condition notifier is a ring of 4096 readable infos in a shared
  region that every process maps under one key; each process keeps its own read position.

  A region is an entry of the store \<open>notifier_os\<close>; failures of the system calls are those of
  \<open>os_env\<close>, as for the segments. A result \<open>None\<close> is a read through a null pointer.

  The lemmas relate the ring to the list of everything ever notified: a listener hears a
  subsequence in order, and everything as long as it lags by no more than the ring.
\<close>

section \<open>ConditionNotifier: the shared ring\<close>

definition kBufLength :: u64 where "kBufLength = 4096"

record indicator =
  in_next_seq :: u64
  in_infos :: "readable_info list"
  in_seqs :: "u64 list"

definition Indicator :: indicator where
  "Indicator = \<lparr>in_next_seq = 0, in_infos = replicate 4096 ReadableInfo, in_seqs = replicate 4096 0\<rparr>"

text \<open>The three accesses of \<^verbatim>\<open>Notify\<close>, and their composition.\<close>

definition nt_fetch_add :: "indicator \<Rightarrow> u64 \<times> indicator" where
  "nt_fetch_add ind = (in_next_seq ind, ind\<lparr>in_next_seq := in_next_seq ind + 1\<rparr>)"

definition nt_store_info :: "u64 \<Rightarrow> readable_info \<Rightarrow> indicator \<Rightarrow> indicator" where
  "nt_store_info seq info ind = ind\<lparr>in_infos := (in_infos ind)[unat (seq mod kBufLength) := info]\<rparr>"

definition nt_store_seq :: "u64 \<Rightarrow> indicator \<Rightarrow> indicator" where
  "nt_store_seq seq ind = ind\<lparr>in_seqs := (in_seqs ind)[unat (seq mod kBufLength) := seq]\<rparr>"

definition in_notify :: "readable_info \<Rightarrow> indicator \<Rightarrow> indicator" where
  "in_notify info ind = (case nt_fetch_add ind of (seq, ind') \<Rightarrow> nt_store_seq seq (nt_store_info seq info ind'))"

text \<open>One round of \<^verbatim>\<open>Listen\<close>: the info read and the new position.\<close>

definition listen_once :: "indicator \<Rightarrow> u64 \<Rightarrow> (readable_info \<times> u64) option" where
  "listen_once ind next =
     (if in_next_seq ind \<noteq> next then
        let idx = unat (next mod kBufLength); actual_seq = in_seqs ind ! idx
        in if next \<le> actual_seq then Some (in_infos ind ! idx, actual_seq + 1) else None
      else None)"

section \<open>ConditionNotifier: processes\<close>

record notifier_os =
  no_name :: "nat option"
  no_regions :: "nat \<Rightarrow> indicator option"
  no_next :: nat

definition no_init :: notifier_os where
  "no_init = \<lparr>no_name = None, no_regions = (\<lambda>_. None), no_next = 0\<rparr>"

record condition_notifier =
  cn_managed :: shm_ptr
  cn_indicator :: "nat option"
  cn_next_seq :: u64
  cn_is_shutdown :: bool

definition cn_Reset :: "condition_notifier \<Rightarrow> condition_notifier" where
  "cn_Reset cn = cn\<lparr>cn_indicator := None, cn_managed := NullPtr\<rparr>"

definition cn_Remove :: "os_env \<Rightarrow> notifier_os \<Rightarrow> bool \<times> notifier_os" where
  "cn_Remove env os = (if env_get env \<or> no_name os = None \<or> env_remove env then (False, os)
     else (True, os\<lparr>no_name := None\<rparr>))"

definition cn_OpenOnly :: "os_env \<Rightarrow> condition_notifier \<Rightarrow> notifier_os \<Rightarrow> bool \<times> condition_notifier" where
  "cn_OpenOnly env cn os = (if env_get env then (False, cn) else
     case no_name os of None \<Rightarrow> (False, cn)
     | Some r \<Rightarrow> if env_attach env then (False, cn\<lparr>cn_managed := MapFailed\<rparr>)
         else (True, cn\<lparr>cn_managed := Mapped r, cn_indicator := Some r\<rparr>))"

function cn_create_loop ::
  "os_env \<Rightarrow> nat \<Rightarrow> condition_notifier \<Rightarrow> notifier_os \<Rightarrow> create_result \<times> condition_notifier \<times> notifier_os" where
  "cn_create_loop env retry cn os =
     (if retry < 2 then
        (case env_create env retry of
           Some EINVAL \<Rightarrow> cn_create_loop env (retry + 1) (cn_Reset cn) (snd (cn_Remove env os))
         | Some EOTHER \<Rightarrow> (CrFailed, cn, os)
         | None \<Rightarrow> if no_name os \<noteq> None then (CrExists, cn, os) else (CrCreated, cn, os))
      else (CrFailed, cn, os))"
  by pat_completeness auto
termination by (relation "measure (\<lambda>(env, retry, cn, os). 2 - retry)") auto

definition cn_OpenOrCreate ::
  "os_env \<Rightarrow> condition_notifier \<Rightarrow> notifier_os \<Rightarrow> bool \<times> condition_notifier \<times> notifier_os" where
  "cn_OpenOrCreate env cn os = (case cn_create_loop env 0 cn os of
     (CrFailed, cn1, os1) \<Rightarrow> (False, cn1, os1)
   | (CrExists, cn1, os1) \<Rightarrow> (let (ok, cn2) = cn_OpenOnly env cn1 os1 in (ok, cn2, os1))
   | (CrCreated, cn1, os1) \<Rightarrow>
       if env_attach env then (False, cn1\<lparr>cn_managed := MapFailed\<rparr>, os1)
       else (let r = no_next os1 in
         (True, cn1\<lparr>cn_managed := Mapped r, cn_indicator := Some r\<rparr>,
          os1\<lparr>no_name := Some r, no_regions := (no_regions os1)(r \<mapsto> Indicator), no_next := r + 1\<rparr>)))"

definition ConditionNotifier :: "os_env \<Rightarrow> notifier_os \<Rightarrow> (condition_notifier \<times> notifier_os) option" where
  "ConditionNotifier env os =
     (case cn_OpenOrCreate env \<lparr>cn_managed = NullPtr, cn_indicator = None, cn_next_seq = 0, cn_is_shutdown = False\<rparr> os of
        (False, cn, os') \<Rightarrow> Some (cn\<lparr>cn_is_shutdown := True\<rparr>, os')
      | (True, cn, os') \<Rightarrow> do { r \<leftarrow> cn_indicator cn; ind \<leftarrow> no_regions os' r;
          Some (cn\<lparr>cn_next_seq := in_next_seq ind\<rparr>, os') })"

definition cn_Shutdown :: "condition_notifier \<Rightarrow> condition_notifier" where
  "cn_Shutdown cn = (if cn_is_shutdown cn then cn else cn_Reset (cn\<lparr>cn_is_shutdown := True\<rparr>))"

definition cn_Notify :: "readable_info \<Rightarrow> condition_notifier \<Rightarrow> notifier_os \<Rightarrow> (bool \<times> notifier_os) option" where
  "cn_Notify info cn os = (if cn_is_shutdown cn then Some (False, os) else
     do { r \<leftarrow> cn_indicator cn; ind \<leftarrow> no_regions os r;
          Some (True, os\<lparr>no_regions := (no_regions os)(r \<mapsto> in_notify info ind)\<rparr>) })"

text \<open>
  The waiting loop. \<open>others k\<close> is what other threads and processes do to the store during the k-th
  sleep, and \<open>stop k\<close> says that this notifier has been shut down by then.
\<close>

function cn_Listen_loop ::
  "(nat \<Rightarrow> notifier_os \<Rightarrow> notifier_os) \<Rightarrow> (nat \<Rightarrow> bool) \<Rightarrow> nat \<Rightarrow> int \<Rightarrow> condition_notifier \<Rightarrow> notifier_os \<Rightarrow>
   (readable_info option \<times> condition_notifier \<times> notifier_os) option" where
  "cn_Listen_loop others stop k timeout_us cn os =
     (if stop k then Some (None, cn, os) else
      do { r \<leftarrow> cn_indicator cn; ind \<leftarrow> no_regions os r;
           case listen_once ind (cn_next_seq cn) of
             Some (info, next) \<Rightarrow> Some (Some info, cn\<lparr>cn_next_seq := next\<rparr>, os)
           | None \<Rightarrow> if 0 < timeout_us then cn_Listen_loop others stop (Suc k) (timeout_us - 50) cn (others k os)
                     else Some (None, cn, os) })"
  by pat_completeness auto
termination by (relation "measure (\<lambda>(others, stop, k, t, cn, os). nat t)") auto

definition cn_Listen ::
  "(nat \<Rightarrow> notifier_os \<Rightarrow> notifier_os) \<Rightarrow> (nat \<Rightarrow> bool) \<Rightarrow> int \<Rightarrow> condition_notifier \<Rightarrow> notifier_os \<Rightarrow>
   (readable_info option \<times> condition_notifier \<times> notifier_os) option" where
  "cn_Listen others stop timeout_ms cn os =
     (if cn_is_shutdown cn then Some (None, cn, os)
      else cn_Listen_loop others stop 0 (timeout_ms * 1000) cn os)"

declare cn_Listen_loop.simps [simp del] cn_create_loop.simps [simp del]

section \<open>MulticastNotifier\<close>

text \<open>
  The sockets are the operating system's: the network is the list of datagrams waiting at the
  listening socket. \<open>sent\<close> says whether \<^verbatim>\<open>sendto\<close> succeeds.
\<close>

record multicast_notifier =
  mn_notify_fd :: bool
  mn_listen_fd :: bool
  mn_is_shutdown :: bool

definition mn_Shutdown :: "multicast_notifier \<Rightarrow> multicast_notifier" where
  "mn_Shutdown mn = (if mn_is_shutdown mn then mn
     else mn\<lparr>mn_is_shutdown := True, mn_notify_fd := False, mn_listen_fd := False\<rparr>)"

text \<open>\<^verbatim>\<open>Init\<close> on the outcomes of its calls, in their order; the constructor shuts down on failure.\<close>

record mn_env =
  me_notify_socket :: bool
  me_listen_socket :: bool
  me_nonblock :: bool
  me_reuseaddr :: bool
  me_bind :: bool
  me_loop :: bool
  me_membership :: bool

definition mn_Init :: "mn_env \<Rightarrow> bool \<times> multicast_notifier" where
  "mn_Init e = (let mn = \<lparr>mn_notify_fd = False, mn_listen_fd = False, mn_is_shutdown = False\<rparr> in
     if \<not> me_notify_socket e then (False, mn) else
     let mn = mn\<lparr>mn_notify_fd := True\<rparr> in
     if \<not> me_listen_socket e then (False, mn) else
     let mn = mn\<lparr>mn_listen_fd := True\<rparr> in
     (me_nonblock e \<and> me_reuseaddr e \<and> me_bind e \<and> me_loop e \<and> me_membership e, mn))"

definition MulticastNotifier :: "mn_env \<Rightarrow> multicast_notifier" where
  "MulticastNotifier e = (let (ok, mn) = mn_Init e in if ok then mn else mn_Shutdown mn)"

definition mn_Notify :: "bool \<Rightarrow> readable_info \<Rightarrow> multicast_notifier \<Rightarrow> u8 list list \<Rightarrow> bool \<times> u8 list list" where
  "mn_Notify sent info mn net = (if mn_is_shutdown mn then (False, net) else
     if sent then (True, net @ [ri_SerializeTo info]) else (False, net))"

definition mn_Listen :: "multicast_notifier \<Rightarrow> readable_info \<Rightarrow> u8 list list \<Rightarrow> bool \<times> readable_info \<times> u8 list list" where
  "mn_Listen mn info net = (if mn_is_shutdown mn then (False, info, net) else
     case net of [] \<Rightarrow> (False, info, net)
     | d # net' \<Rightarrow> (let (ok, info') = ri_DeserializeFrom (take 32 d) info in (ok, info', net')))"

section \<open>Specification\<close>

text \<open>
  \<open>ind_rep hist ind\<close>: the ring after everything in \<open>hist\<close> was notified. The last 4096 notifications
  are in their slots with their sequence numbers; slots never used hold 0.
\<close>

definition ind_rep :: "readable_info list \<Rightarrow> indicator \<Rightarrow> bool" where
  "ind_rep hist ind =
     (unat (in_next_seq ind) = length hist \<and> length (in_infos ind) = 4096 \<and> length (in_seqs ind) = 4096 \<and>
      (\<forall>s < length hist. length hist \<le> s + 4096 \<longrightarrow>
         unat (in_seqs ind ! (s mod 4096)) = s \<and> in_infos ind ! (s mod 4096) = hist ! s))"

text \<open>The notification a listener at position \<open>next\<close> hears: the last one in its slot.\<close>

definition heard :: "nat \<Rightarrow> nat \<Rightarrow> nat" where
  "heard n next = next + 4096 * ((n - 1 - next) div 4096)"

text \<open>Schedules of notifications (by any attached process) and polls of one listener.\<close>

datatype nt_event = Published condition_notifier readable_info | Polled

abbreviation poll :: "condition_notifier \<Rightarrow> notifier_os \<Rightarrow> (readable_info option \<times> condition_notifier \<times> notifier_os) option" where
  "poll \<equiv> cn_Listen (\<lambda>_ os. os) (\<lambda>_. False) 0"

fun nt_run :: "nt_event list \<Rightarrow> condition_notifier \<Rightarrow> notifier_os \<Rightarrow>
    (readable_info list \<times> condition_notifier \<times> notifier_os) option" where
  "nt_run [] l os = Some ([], l, os)"
| "nt_run (Published p i # es) l os = do { (ok, os') \<leftarrow> cn_Notify i p os; nt_run es l os' }"
| "nt_run (Polled # es) l os = do { (got, l', os') \<leftarrow> poll l os; (rest, l'', os'') \<leftarrow> nt_run es l' os';
     Some (case got of None \<Rightarrow> rest | Some i \<Rightarrow> i # rest, l'', os'') }"

fun published :: "nt_event list \<Rightarrow> readable_info list" where
  "published [] = []"
| "published (Published p i # es) = i # published es"
| "published (Polled # es) = published es"

text \<open>\<open>backlog k es\<close>: notifications not yet heard after \<open>es\<close> when none is lost, starting with \<open>k\<close>.\<close>

fun backlog :: "nat \<Rightarrow> nt_event list \<Rightarrow> nat" where
  "backlog k [] = k"
| "backlog k (Published p i # es) = backlog (k + 1) es"
| "backlog k (Polled # es) = backlog (k - 1) es"

fun keeps_up :: "nat \<Rightarrow> nt_event list \<Rightarrow> bool" where
  "keeps_up k [] = True"
| "keeps_up k (Published p i # es) = (k < 4096 \<and> keeps_up (k + 1) es)"
| "keeps_up k (Polled # es) = keeps_up (k - 1) es"

definition attached :: "nat \<Rightarrow> condition_notifier \<Rightarrow> bool" where
  "attached r cn = (\<not> cn_is_shutdown cn \<and> cn_indicator cn = Some r)"

fun event_ok :: "nat \<Rightarrow> nt_event \<Rightarrow> bool" where
  "event_ok r (Published p i) = attached r p"
| "event_ok r Polled = True"

text \<open>The store when \<open>hist\<close> was notified through the ring that the name stands for.\<close>

definition no_rep :: "readable_info list \<Rightarrow> notifier_os \<Rightarrow> bool" where
  "no_rep hist os = (case no_name os of None \<Rightarrow> hist = []
     | Some r \<Rightarrow> \<exists>ind. no_regions os r = Some ind \<and> ind_rep hist ind)"

text \<open>The store after \<open>j\<close> sleeps of a waiting listener.\<close>

fun after_sleeps :: "(nat \<Rightarrow> notifier_os \<Rightarrow> notifier_os) \<Rightarrow> nat \<Rightarrow> nat \<Rightarrow> notifier_os \<Rightarrow> notifier_os" where
  "after_sleeps others k 0 os = os"
| "after_sleeps others k (Suc j) os = after_sleeps others (Suc k) j (others k os)"

text \<open>The multicast notifier as a queue of the datagrams in flight.\<close>

definition mn_contents :: "multicast_notifier \<times> u8 list list \<Rightarrow> readable_info list" where
  "mn_contents s = map (\<lambda>d. snd (ri_DeserializeFrom d ReadableInfo)) (snd s)"

definition mn_invar :: "multicast_notifier \<times> u8 list list \<Rightarrow> bool" where
  "mn_invar s = (\<not> mn_is_shutdown (fst s) \<and> (\<forall>d \<in> set (snd s). \<exists>i. d = ri_SerializeTo i))"

definition mn_enq :: "readable_info \<Rightarrow> multicast_notifier \<times> u8 list list \<Rightarrow> bool \<times> multicast_notifier \<times> u8 list list" where
  "mn_enq i s = (case mn_Notify True i (fst s) (snd s) of (ok, net) \<Rightarrow> (ok, fst s, net))"

definition mn_deq :: "multicast_notifier \<times> u8 list list \<Rightarrow> readable_info option \<times> multicast_notifier \<times> u8 list list" where
  "mn_deq s = (case mn_Listen (fst s) ReadableInfo (snd s) of (ok, i, net) \<Rightarrow> (if ok then Some i else None, fst s, net))"

section \<open>The ring and the history\<close>

lemma unat_mod_kBufLength: "unat (x mod kBufLength) = unat x mod 4096"
  by (simp add: kBufLength_def unat_mod)

lemma ind_rep_Indicator: "ind_rep [] Indicator"
  by (simp add: ind_rep_def Indicator_def)

lemma ring_keep:
  assumes "s < n" and "n \<le> s + 4095"
  shows "xs[n mod 4096 := x] ! (s mod 4096) = xs ! (s mod 4096)"
proof -
  have "\<not> 4096 dvd n - s" using assms by (auto dest: dvd_imp_le)
  then have "n mod 4096 \<noteq> s mod 4096" using assms(1) mod_eq_dvd_iff_nat [of s n 4096] by auto
  then show ?thesis by simp
qed

lemma ind_rep_notify:
  assumes rep: "ind_rep hist ind" and room: "length hist + 1 < 2 ^ 64"
  shows "ind_rep (hist @ [i]) (in_notify i ind)"
proof -
  let ?n = "length hist"
  have n: "unat (in_next_seq ind) = ?n" using rep by (simp add: ind_rep_def)
  have nx: "unat (in_next_seq ind + 1) = ?n + 1"
    using unat_plus_one_u64 [of "in_next_seq ind"] n room by simp
  show ?thesis
    using rep nx
    by (auto simp: ind_rep_def in_notify_def nt_fetch_add_def nt_store_info_def nt_store_seq_def
        unat_mod_kBufLength n nth_append less_Suc_eq ring_keep)
qed

lemma heard_bounds:
  assumes "next < n"
  shows "next \<le> heard n next" "heard n next < n" "n \<le> heard n next + 4096"
    "heard n next mod 4096 = next mod 4096"
proof -
  have "4096 * ((n - 1 - next) div 4096) \<le> n - 1 - next" by simp
  then show "heard n next < n" using assms by (simp add: heard_def)
  have "n - 1 - next < 4096 * ((n - 1 - next) div 4096) + 4096"
    by (metis dividend_less_div_times mult.commute zero_less_numeral add.commute)
  then show "n \<le> heard n next + 4096" using assms by (simp add: heard_def)
qed (simp_all add: heard_def)

lemma heard_prompt: "next < n \<Longrightarrow> n \<le> next + 4096 \<Longrightarrow> heard n next = next"
  by (simp add: heard_def)

lemma listen_once_rep:
  assumes rep: "ind_rep hist ind" and le: "unat next \<le> length hist" and room: "length hist < 2 ^ 64"
  shows "listen_once ind next = (if unat next = length hist then None
    else Some (hist ! heard (length hist) (unat next), of_nat (heard (length hist) (unat next) + 1)))"
proof (cases "unat next = length hist")
  case True
  then have "unat (in_next_seq ind) = unat next" using rep by (simp add: ind_rep_def)
  then have "in_next_seq ind = next" by (rule unsigned_word_eqI)
  then show ?thesis using True by (simp add: listen_once_def)
next
  case False
  let ?s = "heard (length hist) (unat next)"
  note b = heard_bounds [of "unat next" "length hist"]
  have lt: "unat next < length hist" using False le by simp
  have "unat (in_seqs ind ! (?s mod 4096)) = ?s" "in_infos ind ! (?s mod 4096) = hist ! ?s"
    using rep b(2,3) [OF lt] by (auto simp: ind_rep_def)
  then have slot: "unat (in_seqs ind ! (unat next mod 4096)) = ?s" "in_infos ind ! (unat next mod 4096) = hist ! ?s"
    unfolding b(4) [OF lt] by simp_all
  then have seq: "in_seqs ind ! (unat next mod 4096) = of_nat ?s" unfolding slot(1) [symmetric] by simp
  have "in_next_seq ind \<noteq> next" using rep False by (auto simp: ind_rep_def)
  moreover have "next \<le> in_seqs ind ! (unat next mod 4096)"
    unfolding word_le_nat_alt slot(1) by (rule b(1) [OF lt])
  ultimately show ?thesis
    using False by (simp add: listen_once_def unat_mod_kBufLength Let_def slot(2) seq)
qed

section \<open>Notifications reach the listeners\<close>

lemma cn_Notify_rep:
  assumes "attached r p" and "no_regions os r = Some ind"
  shows "cn_Notify i p os = Some (True, os\<lparr>no_regions := (no_regions os)(r \<mapsto> in_notify i ind)\<rparr>)"
  using assms by (simp add: cn_Notify_def attached_def)

lemma poll_rep:
  assumes "attached r l" and "no_regions os r = Some ind"
  shows "poll l os = (case listen_once ind (cn_next_seq l) of None \<Rightarrow> Some (None, l, os)
    | Some (i, next) \<Rightarrow> Some (Some i, l\<lparr>cn_next_seq := next\<rparr>, os))"
  using assms by (simp add: cn_Listen_def cn_Listen_loop.simps attached_def split: option.split)

text \<open>What a run gives a listener at position \<open>pos\<close> of the history.\<close>

lemma nt_run_correct:
  assumes "attached r l" and "no_regions os r = Some ind" and "ind_rep hist ind"
    and "unat (cn_next_seq l) \<le> length hist" and "\<forall>e \<in> set es. event_ok r e" and "length hist + length es < 2 ^ 64"
  shows "\<exists>got l' os'. nt_run es l os = Some (got, l', os') \<and>
    subseq got (drop (unat (cn_next_seq l)) hist @ published es) \<and>
    (length hist \<le> unat (cn_next_seq l) + 4096 \<and> keeps_up (length hist - unat (cn_next_seq l)) es \<longrightarrow>
      got = take (length got) (drop (unat (cn_next_seq l)) hist @ published es) \<and>
      length got + backlog (length hist - unat (cn_next_seq l)) es =
        length hist - unat (cn_next_seq l) + length (published es))"
  using assms
proof (induction es arbitrary: l os ind hist)
  case Nil
  then show ?case by simp
next
  case (Cons e es)
  let ?pos = "unat (cn_next_seq l)"
  show ?case
  proof (cases e)
    case (Published p i)
    let ?os = "os\<lparr>no_regions := (no_regions os)(r \<mapsto> in_notify i ind)\<rparr>"
    have step: "nt_run (e # es) l os = nt_run es l ?os"
      using Published Cons.prems cn_Notify_rep [of r p os ind i] by simp
    have rep: "ind_rep (hist @ [i]) (in_notify i ind)"
      using Cons.prems by (intro ind_rep_notify) simp_all
    have tail: "drop ?pos (hist @ [i]) @ published es = drop ?pos hist @ published (e # es)"
      "length (hist @ [i]) - ?pos = length hist - ?pos + 1"
      using Published Cons.prems(4) by simp_all
    obtain got l' os' where "nt_run es l ?os = Some (got, l', os')"
      and "subseq got (drop ?pos hist @ published (e # es))"
      and "length (hist @ [i]) \<le> ?pos + 4096 \<and> keeps_up (length hist - ?pos + 1) es \<longrightarrow>
          got = take (length got) (drop ?pos hist @ published (e # es)) \<and>
          length got + backlog (length hist - ?pos + 1) es = length hist - ?pos + 1 + length (published es)"
      using Cons.IH [of l ?os "in_notify i ind" "hist @ [i]", unfolded tail] Cons.prems rep by auto
    then show ?thesis unfolding step using Published by auto
  next
    case Polled
    show ?thesis
    proof (cases "?pos = length hist")
      case True
      then have "nt_run (e # es) l os = nt_run es l os"
        using Polled Cons.prems poll_rep [of r l os ind] listen_once_rep [of hist ind "cn_next_seq l"]
        by (cases "nt_run es l os") auto
      then show ?thesis
        using Cons.IH [of l os ind hist] Cons.prems Polled True by simp
    next
      case False
      let ?s = "heard (length hist) ?pos"
      let ?l = "l\<lparr>cn_next_seq := of_nat (?s + 1)\<rparr>"
      have lt: "?pos < length hist" using False Cons.prems by simp
      note b = heard_bounds [OF lt]
      have pos: "unat (cn_next_seq ?l) = ?s + 1"
        using b(2) Cons.prems(6) by (simp add: unat_of_nat del: of_nat_add of_nat_Suc)
      have step: "nt_run (e # es) l os = map_option (\<lambda>(rest, x). (hist ! ?s # rest, x)) (nt_run es ?l os)"
        using Polled Cons.prems poll_rep [of r l os ind] listen_once_rep [of hist ind "cn_next_seq l"] False
        by (cases "nt_run es ?l os") (auto simp del: of_nat_add of_nat_Suc)
      obtain got l' os' where run: "nt_run es ?l os = Some (got, l', os')"
        and sub: "subseq got (drop (?s + 1) hist @ published es)"
        and all: "length hist \<le> ?s + 1 + 4096 \<and> keeps_up (length hist - (?s + 1)) es \<longrightarrow>
          got = take (length got) (drop (?s + 1) hist @ published es) \<and>
          length got + backlog (length hist - (?s + 1)) es = length hist - (?s + 1) + length (published es)"
        using Cons.IH [of ?l os ind hist, unfolded pos] Cons.prems b(2) by (auto simp: attached_def)
      have "drop ?pos hist = take (?s - ?pos) (drop ?pos hist) @ hist ! ?s # drop (?s + 1) hist"
        using b(1,2) by (metis Cons_nth_drop_Suc Suc_eq_plus1 append_take_drop_id drop_drop le_add_diff_inverse2)
      then have "drop ?pos hist @ published es =
          take (?s - ?pos) (drop ?pos hist) @ hist ! ?s # drop (?s + 1) hist @ published es" by simp
      then have "subseq (hist ! ?s # got) (drop ?pos hist @ published es)"
        using sub by (simp only: subseq_drop_many subseq_Cons2)
      moreover have "?s = ?pos" if "length hist \<le> ?pos + 4096"
        using heard_prompt [OF lt that] .
      moreover have "drop ?pos hist = hist ! ?pos # drop (?pos + 1) hist"
        using lt by (simp add: Cons_nth_drop_Suc)
      ultimately show ?thesis
        unfolding step run using all Polled lt by auto
    qed
  qed
qed

lemma no_rep_Remove: "no_rep hist os \<Longrightarrow> \<exists>h. no_rep h (snd (cn_Remove env os)) \<and> (h = hist \<or> h = [])"
  by (cases "snd (cn_Remove env os) = os") (auto simp: cn_Remove_def no_rep_def split: if_splits)

lemma cn_create_loop_rep:
  "cn_create_loop env k cn os = (res, cn', os') \<Longrightarrow> no_rep hist os \<Longrightarrow>
   \<exists>h. no_rep h os' \<and> (h = hist \<or> h = [])"
proof (induction env k cn os arbitrary: hist rule: cn_create_loop.induct)
  case (1 env retry cn os)
  show ?case
  proof (cases "retry < 2 \<and> env_create env retry = Some EINVAL")
    case True
    obtain h where h: "no_rep h (snd (cn_Remove env os))" "h = hist \<or> h = []"
      using no_rep_Remove [OF "1.prems"(2), of env] by blast
    have "cn_create_loop env (retry + 1) (cn_Reset cn) (snd (cn_Remove env os)) = (res, cn', os')"
      using "1.prems"(1) True by (simp add: cn_create_loop.simps [of env retry])
    then show ?thesis using "1.IH" [of EINVAL h] True h by fastforce
  next
    case False
    then have "os' = os"
      using "1.prems"(1) by (simp add: cn_create_loop.simps [of env retry] split: if_splits option.splits os_err.splits)
    then show ?thesis using "1.prems"(2) by blast
  qed
qed

lemma cn_OpenOrCreate_rep:
  assumes "no_rep hist os" and "cn_OpenOrCreate env cn os = (True, cn', os')"
  shows "\<exists>r ind h. cn_indicator cn' = Some r \<and> no_regions os' r = Some ind \<and> ind_rep h ind \<and> (h = hist \<or> h = [])"
proof -
  obtain res cn1 os1 where loop: "cn_create_loop env 0 cn os = (res, cn1, os1)" by (metis prod_cases3)
  obtain h where h: "no_rep h os1" "h = hist \<or> h = []" using cn_create_loop_rep [OF loop assms(1)] by blast
  show ?thesis
  proof (cases res)
    case CrExists
    then show ?thesis
      using assms(2) loop h by (auto simp: cn_OpenOrCreate_def cn_OpenOnly_def no_rep_def split: if_splits option.splits)
  next
    case CrCreated
    then have "cn_indicator cn' = Some (no_next os1)" "no_regions os' (no_next os1) = Some Indicator"
      using assms(2) loop by (auto simp: cn_OpenOrCreate_def Let_def split: if_splits)
    then show ?thesis using ind_rep_Indicator by blast
  qed (use assms(2) loop in \<open>simp add: cn_OpenOrCreate_def\<close>)
qed

lemma ConditionNotifier_attached:
  assumes rep: "no_rep hist os" and new: "ConditionNotifier env os = Some (l, os1)" and up: "\<not> cn_is_shutdown l"
  shows "\<exists>r ind h. attached r l \<and> no_regions os1 r = Some ind \<and> ind_rep h ind \<and>
    unat (cn_next_seq l) = length h \<and> (h = hist \<or> h = [])"
proof -
  let ?new = "\<lparr>cn_managed = NullPtr, cn_indicator = None, cn_next_seq = 0, cn_is_shutdown = False\<rparr>"
  obtain ok cn os' where open_: "cn_OpenOrCreate env ?new os = (ok, cn, os')"
    using prod_cases3 [of "cn_OpenOrCreate env ?new os"] by blast
  have ok using new up open_ by (cases ok) (auto simp: ConditionNotifier_def)
  then have "cn_OpenOrCreate env ?new os = (True, cn, os')" using open_ by simp
  then obtain r ind h where r: "cn_indicator cn = Some r" "no_regions os' r = Some ind" "ind_rep h ind" "h = hist \<or> h = []"
    using cn_OpenOrCreate_rep [OF rep] by blast
  then have "l = cn\<lparr>cn_next_seq := in_next_seq ind\<rparr>" "os1 = os'"
    using new open_ \<open>ok\<close> by (auto simp: ConditionNotifier_def)
  then show ?thesis using r up by (auto simp: attached_def ind_rep_def)
qed

section \<open>Waiting\<close>

lemma listen_loop_hears:
  assumes "attached r l" and "\<And>k. \<not> stop k"
    and "\<And>i. i \<le> j \<Longrightarrow> \<exists>ind. no_regions (after_sleeps others k i os) r = Some ind"
    and "no_regions (after_sleeps others k j os) r = Some ind" and "listen_once ind (cn_next_seq l) \<noteq> None"
    and "50 * int j < t + 50"
  shows "\<exists>i l' os'. cn_Listen_loop others stop k t l os = Some (Some i, l', os')"
  using assms(3-)
proof (induction j arbitrary: k t os)
  case 0
  then show ?case using assms(1,2) by (subst cn_Listen_loop.simps) (auto simp: attached_def)
next
  case (Suc j)
  obtain ind0 where ind0: "no_regions os r = Some ind0" using Suc.prems(1) [of 0] by auto
  show ?case
  proof (cases "listen_once ind0 (cn_next_seq l)")
    case None
    have "\<exists>ind. no_regions (after_sleeps others (Suc k) i (others k os)) r = Some ind" if "i \<le> j" for i
      using Suc.prems(1) [of "Suc i"] that by simp
    then have "\<exists>i l' os'. cn_Listen_loop others stop (Suc k) (t - 50) l (others k os) = Some (Some i, l', os')"
      using Suc.prems by (intro Suc.IH) auto
    then show ?thesis
      using None ind0 assms(1,2) Suc.prems(4) by (subst cn_Listen_loop.simps) (auto simp: attached_def)
  qed (use ind0 assms(1,2) in \<open>subst cn_Listen_loop.simps, auto simp: attached_def\<close>)
qed

section \<open>The multicast notifier as a queue\<close>

lemma ri_read_back [simp]: "ri_DeserializeFrom (ri_SerializeTo i) j = (True, i)"
  by (simp add: ri_DeserializeFrom_def ri_SerializeTo_def ri_kSize_def Let_def)

lemma length_ri_SerializeTo [simp]: "length (ri_SerializeTo i) = 24"
  by (simp add: ri_SerializeTo_def)

interpretation mn: fifo_queue mn_contents mn_enq mn_deq "\<lambda>s. k" mn_invar
  by unfold_locales
    (auto simp: mn_contents_def mn_enq_def mn_deq_def mn_invar_def mn_Notify_def mn_Listen_def Cons_eq_map_conv)

section \<open>Properties\<close>



text \<open>
  The first notification of a ring can be lost: a listener that polls after the sequence
  number was taken and before the info was stored hears the empty readable info (the initial
  sequence numbers are already 0), moves on, and hears nothing when the notification is complete.
\<close>

lemma first_notification_read_early:
  "listen_once (snd (nt_fetch_add Indicator)) 0 = Some (ReadableInfo, 1) \<and>
   in_notify i Indicator = nt_store_seq 0 (nt_store_info 0 i (snd (nt_fetch_add Indicator))) \<and>
   listen_once (in_notify i Indicator) 1 = None"
  by (simp add: listen_once_def nt_fetch_add_def nt_store_info_def nt_store_seq_def in_notify_def Indicator_def
      kBufLength_def)

text \<open>
  A waiting listener returns an info when one it has not heard is in the ring at any of
  its rounds before the timeout, whatever other processes do to the store meanwhile.
\<close>

lemma listen_hears_within_timeout:
  assumes "attached r l" and "\<And>k. \<not> stop k"
    and "\<And>i. i \<le> j \<Longrightarrow> \<exists>ind. no_regions (after_sleeps others 0 i os) r = Some ind"
    and "no_regions (after_sleeps others 0 j os) r = Some ind" and "ind_rep hist ind"
    and "unat (cn_next_seq l) < length hist" and "length hist < 2 ^ 64"
    and "50 * int j < timeout_ms * 1000 + 50"
  shows "\<exists>i l' os'. cn_Listen others stop timeout_ms l os = Some (Some i, l', os')"
proof -
  have "listen_once ind (cn_next_seq l) \<noteq> None"
    using listen_once_rep [OF assms(5)] assms(6,7) by simp
  then show ?thesis
    using listen_loop_hears [OF assms(1,2,3,4)] assms(1,8) by (simp add: cn_Listen_def attached_def)
qed

theorem listen_hears_within_timeout_witness:
  "let l = \<lparr>cn_managed = Mapped 0, cn_indicator = Some 0, cn_next_seq = 0, cn_is_shutdown = False\<rparr>;
       os = \<lparr>no_name = Some 0, no_regions = [0 \<mapsto> Indicator], no_next = 1\<rparr>;
       others = (\<lambda>k os. if k = 1 then os\<lparr>no_regions := [0 \<mapsto> in_notify (ReadableInfo_of 1 2 3 4) Indicator]\<rparr> else os)
   in \<exists>i l' os'. cn_Listen others (\<lambda>_. False) 100 l os = Some (Some i, l', os')"
proof -
  let ?l = "\<lparr>cn_managed = Mapped 0, cn_indicator = Some 0, cn_next_seq = 0, cn_is_shutdown = False\<rparr>"
  let ?os = "\<lparr>no_name = Some 0, no_regions = [0 \<mapsto> Indicator], no_next = 1\<rparr>"
  let ?i = "ReadableInfo_of 1 2 3 4"
  let ?others = "\<lambda>k os :: notifier_os. if k = 1 then os\<lparr>no_regions := [0 \<mapsto> in_notify ?i Indicator]\<rparr> else os"
  have "ind_rep [?i] (in_notify ?i Indicator)" using ind_rep_notify [OF ind_rep_Indicator] by simp
  moreover have two: "after_sleeps ?others 0 (Suc (Suc 0)) ?os = ?os\<lparr>no_regions := [0 \<mapsto> in_notify ?i Indicator]\<rparr>"
    "after_sleeps ?others 0 (Suc 0) ?os = ?os" by simp_all
  moreover have "\<exists>ind. no_regions (after_sleeps ?others 0 i ?os) 0 = Some ind" if "i \<le> Suc (Suc 0)" for i
  proof -
    have "i = 0 \<or> i = Suc 0 \<or> i = Suc (Suc 0)" using that by auto
    then show ?thesis using two by auto
  qed
  ultimately have "\<exists>i l' os'. cn_Listen ?others (\<lambda>_. False) 100 ?l ?os = Some (Some i, l', os')"
    by (intro listen_hears_within_timeout [where r = 0 and j = "Suc (Suc 0)" and ind = "in_notify ?i Indicator" and hist = "[?i]"])
      (simp_all add: attached_def)
  then show ?thesis by (simp add: Let_def)
qed

text \<open>
  Infos sent through a multicast notifier are read back from the datagrams unchanged and
  in order.
\<close>

lemma multicast_in_order:
  assumes "\<not> mn_is_shutdown m"
  shows "fst (mn.deqs (length is) (mn.enqs is (m, []))) = map Some is"
  using mn.fifo_order [of "(m, [])" "is" "length is"] assms by (simp add: mn_invar_def mn_contents_def)

theorem multicast_in_order_witness:
  "let m = MulticastNotifier \<lparr>me_notify_socket = True, me_listen_socket = True, me_nonblock = True, me_reuseaddr = True,
     me_bind = True, me_loop = True, me_membership = True\<rparr>; xs = [ReadableInfo_of 1 2 3 4, ReadableInfo_of 5 6 7 8]
   in fst (mn.deqs (length xs) (mn.enqs xs (m, []))) = map Some xs"
  unfolding Let_def by (rule multicast_in_order) (simp add: MulticastNotifier_def mn_Init_def)

end
