(* ===== verification/Transport_Listener.thy ===== *)
theory Transport_Listener
  imports Base_HashMap Transport_Message
begin

text \<open>
  From a received message to the callbacks: \<^verbatim>\<open>base/signal.h\<close> (slots and connections),
  \<^verbatim>\<open>transport/message/listener_handler.h\<close> (the listeners of one channel, some of them bound to one
  sender) and the registration in \<^verbatim>\<open>transport/dispatcher/dispatcher.h\<close>.

  Slots are shared objects: a signal has a heap of slots and the list of those it calls, and a
  connection is the address of its slot. A callback is a value of the type \<open>'cb\<close>; running a signal
  gives the list of the callbacks that were called. Callbacks that change the signal while it runs
  are not covered.
\<close>

section \<open>Signal, Slot, Connection\<close>

record 'cb slot =
  sl_cb :: "'cb option"
  sl_connected :: bool

record 'cb signal =
  si_heap :: "nat \<Rightarrow> 'cb slot"
  si_slots :: "nat list"
  si_next :: nat

definition Slot :: "'cb option \<Rightarrow> 'cb slot" where
  "Slot cb = \<lparr>sl_cb = cb, sl_connected = True\<rparr>"

definition Signal :: "'cb signal" where
  "Signal = \<lparr>si_heap = (\<lambda>_. Slot None), si_slots = [], si_next = 0\<rparr>"

definition sl_call :: "'cb slot \<Rightarrow> 'cb list" where
  "sl_call s = (if sl_connected s then (case sl_cb s of Some cb \<Rightarrow> [cb] | None \<Rightarrow> []) else [])"

definition sl_Disconnect :: "'cb slot \<Rightarrow> 'cb slot" where
  "sl_Disconnect s = s\<lparr>sl_connected := False\<rparr>"

definition si_ClearDisconnectedSlots :: "'cb signal \<Rightarrow> 'cb signal" where
  "si_ClearDisconnectedSlots s = s\<lparr>si_slots := filter (\<lambda>a. sl_connected (si_heap s a)) (si_slots s)\<rparr>"

definition si_call :: "'cb signal \<Rightarrow> 'cb list \<times> 'cb signal" where
  "si_call s = (let slots = si_slots s in
     (concat (map (\<lambda>a. sl_call (si_heap s a)) slots), si_ClearDisconnectedSlots s))"

definition si_Connect :: "'cb option \<Rightarrow> 'cb signal \<Rightarrow> nat \<times> 'cb signal" where
  "si_Connect cb s = (si_next s,
     s\<lparr>si_heap := (si_heap s)(si_next s := Slot cb), si_slots := si_slots s @ [si_next s], si_next := si_next s + 1\<rparr>)"

definition si_Disconnect :: "nat \<Rightarrow> 'cb signal \<Rightarrow> bool \<times> 'cb signal" where
  "si_Disconnect conn s =
     (if conn \<in> set (si_slots s)
      then (True, si_ClearDisconnectedSlots (s\<lparr>si_heap := (si_heap s)(conn := sl_Disconnect (si_heap s conn))\<rparr>))
      else (False, s))"

definition si_DisconnectAllSlots :: "'cb signal \<Rightarrow> 'cb signal" where
  "si_DisconnectAllSlots s =
     s\<lparr>si_heap := (\<lambda>a. if a \<in> set (si_slots s) then sl_Disconnect (si_heap s a) else si_heap s a), si_slots := []\<rparr>"

definition conn_IsConnected :: "nat \<Rightarrow> 'cb signal \<Rightarrow> bool" where
  "conn_IsConnected conn s = sl_connected (si_heap s conn)"

section \<open>ListenerHandler\<close>

type_synonym connection_map = "(u64, nat) umap"

record 'cb listener_handler =
  lh_signal :: "'cb signal"
  lh_signal_conns :: connection_map
  lh_signals :: "(u64, 'cb signal) umap"
  lh_signals_conns :: "(u64, connection_map) umap"

definition ListenerHandler :: "'cb listener_handler" where
  "ListenerHandler = \<lparr>lh_signal = Signal, lh_signal_conns = [], lh_signals = [], lh_signals_conns = []\<rparr>"

definition lh_Connect :: "u64 \<Rightarrow> 'cb option \<Rightarrow> 'cb listener_handler \<Rightarrow> 'cb listener_handler" where
  "lh_Connect self_id cb h =
     (let (conn, s) = si_Connect cb (lh_signal h); h = h\<lparr>lh_signal := s\<rparr> in
      if \<not> conn_IsConnected conn s then h
      else h\<lparr>lh_signal_conns := um_set self_id conn (lh_signal_conns h)\<rparr>)"

definition lh_Connect_oppo :: "u64 \<Rightarrow> u64 \<Rightarrow> 'cb option \<Rightarrow> 'cb listener_handler \<Rightarrow> 'cb listener_handler" where
  "lh_Connect_oppo self_id oppo_id cb h =
     (let h = (if map_of (lh_signals h) oppo_id = None then h\<lparr>lh_signals := um_set oppo_id Signal (lh_signals h)\<rparr> else h);
          (conn, s) = si_Connect cb (um_at Signal oppo_id (lh_signals h));
          h = h\<lparr>lh_signals := um_set oppo_id s (lh_signals h)\<rparr>
      in if \<not> conn_IsConnected conn s then h
         else let h = (if map_of (lh_signals_conns h) oppo_id = None
                       then h\<lparr>lh_signals_conns := um_set oppo_id [] (lh_signals_conns h)\<rparr> else h)
              in h\<lparr>lh_signals_conns :=
                     um_set oppo_id (um_set self_id conn (um_at [] oppo_id (lh_signals_conns h))) (lh_signals_conns h)\<rparr>)"

definition lh_Disconnect :: "u64 \<Rightarrow> 'cb listener_handler \<Rightarrow> 'cb listener_handler" where
  "lh_Disconnect self_id h =
     (case map_of (lh_signal_conns h) self_id of None \<Rightarrow> h
      | Some conn \<Rightarrow> h\<lparr>lh_signal := snd (si_Disconnect conn (lh_signal h)),
                      lh_signal_conns := um_erase self_id (lh_signal_conns h)\<rparr>)"

definition lh_Disconnect_oppo :: "u64 \<Rightarrow> u64 \<Rightarrow> 'cb listener_handler \<Rightarrow> 'cb listener_handler" where
  "lh_Disconnect_oppo self_id oppo_id h =
     (case map_of (lh_signals_conns h) oppo_id of None \<Rightarrow> h
      | Some conns \<Rightarrow>
         (case map_of conns self_id of None \<Rightarrow> h
          | Some conn \<Rightarrow>
              h\<lparr>lh_signals := um_set oppo_id (snd (si_Disconnect conn (um_at Signal oppo_id (lh_signals h)))) (lh_signals h),
                lh_signals_conns := um_set oppo_id (um_erase self_id conns) (lh_signals_conns h)\<rparr>))"

text \<open>\<^verbatim>\<open>Run\<close>: the callbacks called, in order, and the handler afterwards.\<close>

definition lh_Run :: "message_info \<Rightarrow> 'cb listener_handler \<Rightarrow> 'cb list \<times> 'cb listener_handler" where
  "lh_Run msg_info h =
     (let (called, s) = si_call (lh_signal h); h = h\<lparr>lh_signal := s\<rparr>;
          oppo_id = id_hash_value (mi_sender_id msg_info)
      in case map_of (lh_signals h) oppo_id of None \<Rightarrow> (called, h)
         | Some so \<Rightarrow> (let (called', so') = si_call so
             in (called @ called', h\<lparr>lh_signals := um_set oppo_id so' (lh_signals h)\<rparr>)))"

text \<open>\<^verbatim>\<open>RunFromString\<close>; the parser is a parameter.\<close>

definition lh_RunFromString ::
  "(u8 list \<Rightarrow> 'm option) \<Rightarrow> u8 list \<Rightarrow> message_info \<Rightarrow> 'cb listener_handler \<Rightarrow> ('m \<times> 'cb list) option \<times> 'cb listener_handler" where
  "lh_RunFromString parse str msg_info h =
     (case parse str of None \<Rightarrow> (None, h)
      | Some m \<Rightarrow> (let (called, h') = lh_Run msg_info h in (Some (m, called), h')))"

section \<open>Dispatcher\<close>

text \<open>
  Handlers are shared objects in a store; the type of the messages of a handler, which decides the
  dynamic cast, is a number.
\<close>

record 'cb dispatcher =
  d_is_shutdown :: bool
  d_msg_listeners :: "nat atomic_hash_map"
  d_handlers :: "(nat \<times> 'cb listener_handler) list"

definition Dispatcher :: "'cb dispatcher" where
  "Dispatcher = \<lparr>d_is_shutdown = False, d_msg_listeners = AtomicHashMap 128, d_handlers = []\<rparr>"

definition d_Shutdown :: "'cb dispatcher \<Rightarrow> 'cb dispatcher" where
  "d_Shutdown d = d\<lparr>d_is_shutdown := True\<rparr>"

definition d_HasChannel :: "u64 \<Rightarrow> 'cb dispatcher \<Rightarrow> bool" where
  "d_HasChannel channel_id d = ahm_Has (d_msg_listeners d) channel_id"

text \<open>The handler of a channel for messages of type \<open>ty\<close>, created when there is none.\<close>

definition d_handler_for :: "nat \<Rightarrow> u64 \<Rightarrow> 'cb dispatcher \<Rightarrow> nat option \<times> 'cb dispatcher" where
  "d_handler_for ty channel_id d =
     (case ahm_Get (d_msg_listeners d) channel_id of
        Some a \<Rightarrow> (if fst (d_handlers d ! a) = ty then Some a else None, d)
      | None \<Rightarrow> (let a = List.length (d_handlers d) in
          (Some a, d\<lparr>d_handlers := d_handlers d @ [(ty, ListenerHandler)],
                     d_msg_listeners := ahm_Set channel_id a (d_msg_listeners d)\<rparr>)))"

definition upd_handler :: "nat \<Rightarrow> ('cb listener_handler \<Rightarrow> 'cb listener_handler) \<Rightarrow> 'cb dispatcher \<Rightarrow> 'cb dispatcher" where
  "upd_handler a f d = d\<lparr>d_handlers := (d_handlers d)[a := (fst (d_handlers d ! a), f (snd (d_handlers d ! a)))]\<rparr>"

definition d_AddListener :: "nat \<Rightarrow> u64 \<Rightarrow> u64 \<Rightarrow> 'cb \<Rightarrow> 'cb dispatcher \<Rightarrow> 'cb dispatcher" where
  "d_AddListener ty channel_id self_id cb d =
     (if d_is_shutdown d then d else
      case d_handler_for ty channel_id d of (None, d') \<Rightarrow> d'
      | (Some a, d') \<Rightarrow> upd_handler a (lh_Connect self_id (Some cb)) d')"

definition d_AddListener_oppo :: "nat \<Rightarrow> u64 \<Rightarrow> u64 \<Rightarrow> u64 \<Rightarrow> 'cb \<Rightarrow> 'cb dispatcher \<Rightarrow> 'cb dispatcher" where
  "d_AddListener_oppo ty channel_id self_id oppo_id cb d =
     (if d_is_shutdown d then d else
      case d_handler_for ty channel_id d of (None, d') \<Rightarrow> d'
      | (Some a, d') \<Rightarrow> upd_handler a (lh_Connect_oppo self_id oppo_id (Some cb)) d')"

definition d_RemoveListener :: "u64 \<Rightarrow> u64 \<Rightarrow> 'cb dispatcher \<Rightarrow> 'cb dispatcher" where
  "d_RemoveListener channel_id self_id d =
     (if d_is_shutdown d then d else
      case ahm_Get (d_msg_listeners d) channel_id of None \<Rightarrow> d
      | Some a \<Rightarrow> upd_handler a (lh_Disconnect self_id) d)"

definition d_RemoveListener_oppo :: "u64 \<Rightarrow> u64 \<Rightarrow> u64 \<Rightarrow> 'cb dispatcher \<Rightarrow> 'cb dispatcher" where
  "d_RemoveListener_oppo channel_id self_id oppo_id d =
     (if d_is_shutdown d then d else
      case ahm_Get (d_msg_listeners d) channel_id of None \<Rightarrow> d
      | Some a \<Rightarrow> upd_handler a (lh_Disconnect_oppo self_id oppo_id) d)"

text \<open>
  A message of a channel is given to its handler (\<^verbatim>\<open>OnMessage\<close> of the derived dispatchers): the
  callbacks called.
\<close>

definition d_OnMessage :: "u64 \<Rightarrow> message_info \<Rightarrow> 'cb dispatcher \<Rightarrow> 'cb list \<times> 'cb dispatcher" where
  "d_OnMessage channel_id msg_info d =
     (if d_is_shutdown d then ([], d) else
      case ahm_Get (d_msg_listeners d) channel_id of None \<Rightarrow> ([], d)
      | Some a \<Rightarrow> (let (called, h) = lh_Run msg_info (snd (d_handlers d ! a)) in (called, upd_handler a (\<lambda>_. h) d)))"

section \<open>Specification: subscriptions\<close>

text \<open>
  A subscription is the id of the reader, the id of the sender it is bound to (if any) and the
  callback. \<open>subscribe\<close> appends, \<open>unsubscribe\<close> removes by both ids.
\<close>

type_synonym 'cb subscription = "(u64 \<times> u64 option) \<times> 'cb"

datatype 'cb lh_event = Conn u64 "u64 option" 'cb | Disc u64 "u64 option"

fun lh_apply :: "'cb lh_event \<Rightarrow> 'cb listener_handler \<Rightarrow> 'cb listener_handler" where
  "lh_apply (Conn s None cb) = lh_Connect s (Some cb)"
| "lh_apply (Conn s (Some p) cb) = lh_Connect_oppo s p (Some cb)"
| "lh_apply (Disc s None) = lh_Disconnect s"
| "lh_apply (Disc s (Some p)) = lh_Disconnect_oppo s p"

fun subs_apply :: "'cb lh_event \<Rightarrow> 'cb subscription list \<Rightarrow> 'cb subscription list" where
  "subs_apply (Conn s p cb) subs = subs @ [((s, p), cb)]"
| "subs_apply (Disc s p) subs = filter (\<lambda>x. fst x \<noteq> (s, p)) subs"

text \<open>Nobody subscribes twice under the same ids without unsubscribing in between.\<close>

fun no_double :: "'cb lh_event list \<Rightarrow> 'cb subscription list \<Rightarrow> bool" where
  "no_double [] subs = True"
| "no_double (Conn s p cb # es) subs = ((s, p) \<notin> fst ` set subs \<and> no_double es (subs_apply (Conn s p cb) subs))"
| "no_double (Disc s p # es) subs = no_double es (subs_apply (Disc s p) subs)"

text \<open>The callbacks bound to a sender, or to none.\<close>

definition bound_to :: "u64 option \<Rightarrow> 'cb subscription list \<Rightarrow> (u64 \<times> 'cb) list" where
  "bound_to p subs = map (\<lambda>((s, _), cb). (s, cb)) (filter (\<lambda>((_, q), _). q = p) subs)"

text \<open>A signal and its connections hold exactly these readers.\<close>

definition sig_rep :: "'cb signal \<Rightarrow> connection_map \<Rightarrow> (u64 \<times> 'cb) list \<Rightarrow> bool" where
  "sig_rep s conns kvs =
     (\<exists>zs :: (u64 \<times> 'cb \<times> nat) list.
        kvs = map (\<lambda>(k, cb, a). (k, cb)) zs \<and> si_slots s = map (\<lambda>(k, cb, a). a) zs \<and>
        distinct (map (\<lambda>(k, cb, a). k) zs) \<and> distinct (map (\<lambda>(k, cb, a). a) zs) \<and>
        (\<forall>(k, cb, a) \<in> set zs. a < si_next s \<and> si_heap s a = Slot (Some cb)) \<and>
        map_of conns = map_of (map (\<lambda>(k, cb, a). (k, a)) zs))"

definition lh_rep :: "'cb listener_handler \<Rightarrow> 'cb subscription list \<Rightarrow> bool" where
  "lh_rep h subs =
     (sig_rep (lh_signal h) (lh_signal_conns h) (bound_to None subs) \<and>
      (\<forall>p. sig_rep (um_at Signal p (lh_signals h)) (um_at [] p (lh_signals_conns h)) (bound_to (Some p) subs)) \<and>
      (\<forall>p. map_of (lh_signals h) p = None \<longleftrightarrow> map_of (lh_signals_conns h) p = None))"

text \<open>Registrations at a dispatcher, on any channel; \<open>subs\<close> gives the subscriptions of each channel.\<close>

fun d_apply :: "nat \<Rightarrow> u64 \<times> 'cb lh_event \<Rightarrow> 'cb dispatcher \<Rightarrow> 'cb dispatcher" where
  "d_apply ty (c, Conn s None cb) = d_AddListener ty c s cb"
| "d_apply ty (c, Conn s (Some p) cb) = d_AddListener_oppo ty c s p cb"
| "d_apply ty (c, Disc s None) = d_RemoveListener c s"
| "d_apply ty (c, Disc s (Some p)) = d_RemoveListener_oppo c s p"

definition events_of :: "u64 \<Rightarrow> (u64 \<times> 'cb lh_event) list \<Rightarrow> 'cb lh_event list" where
  "events_of c es = map snd (filter (\<lambda>x. fst x = c) es)"

definition chan_rep :: "nat \<Rightarrow> 'cb dispatcher \<Rightarrow> u64 \<Rightarrow> 'cb subscription list \<Rightarrow> bool" where
  "chan_rep ty d c subs = (case ahm_Get (d_msg_listeners d) c of None \<Rightarrow> subs = []
     | Some a \<Rightarrow> a < length (d_handlers d) \<and> fst (d_handlers d ! a) = ty \<and> lh_rep (snd (d_handlers d ! a)) subs)"

definition d_rep :: "nat \<Rightarrow> 'cb dispatcher \<Rightarrow> (u64 \<Rightarrow> 'cb subscription list) \<Rightarrow> bool" where
  "d_rep ty d subs =
     (\<not> d_is_shutdown d \<and> ahm_ok (d_msg_listeners d) \<and> (\<forall>c. chan_rep ty d c (subs c)) \<and>
      (\<forall>c c' a. ahm_Get (d_msg_listeners d) c = Some a \<and> ahm_Get (d_msg_listeners d) c' = Some a \<longrightarrow> c = c'))"

section \<open>Signals keep their readers\<close>

lemma sig_rep_Signal: "sig_rep Signal [] []"
  by (auto simp: sig_rep_def Signal_def)

lemma sig_rep_call:
  assumes "sig_rep s conns kvs"
  shows "si_call s = (map snd kvs, s)"
proof -
  obtain zs :: "(u64 \<times> 'a \<times> nat) list" where z: "kvs = map (\<lambda>(k, cb, a). (k, cb)) zs" "si_slots s = map (\<lambda>(k, cb, a). a) zs"
    "\<forall>(k, cb, a) \<in> set zs. si_heap s a = Slot (Some cb)"
    using assms unfolding sig_rep_def by fast
  have "concat (map (\<lambda>a. sl_call (si_heap s a)) (map (\<lambda>(k, cb, a). a) zs)) = map snd (map (\<lambda>(k, cb, a). (k, cb)) zs)"
    using z(3) by (induction zs) (auto simp: sl_call_def Slot_def)
  moreover have "filter (\<lambda>a. sl_connected (si_heap s a)) (si_slots s) = si_slots s"
    unfolding z(2) using z(3) by (auto simp: filter_id_conv Slot_def)
  ultimately show ?thesis by (simp add: si_call_def si_ClearDisconnectedSlots_def z(1,2) Let_def)
qed

lemma sig_rep_Connect:
  assumes "sig_rep s conns kvs" and "k \<notin> fst ` set kvs"
  shows "sig_rep (snd (si_Connect (Some cb) s)) (um_set k (fst (si_Connect (Some cb) s)) conns) (kvs @ [(k, cb)])"
proof -
  obtain zs :: "(u64 \<times> 'a \<times> nat) list" where z: "kvs = map (\<lambda>(k, cb, a). (k, cb)) zs" "si_slots s = map (\<lambda>(k, cb, a). a) zs"
    "distinct (map (\<lambda>(k, cb, a). k) zs)" "distinct (map (\<lambda>(k, cb, a). a) zs)"
    "\<forall>(k, cb, a) \<in> set zs. a < si_next s \<and> si_heap s a = Slot (Some cb)"
    "map_of conns = map_of (map (\<lambda>(k, cb, a). (k, a)) zs)"
    using assms(1) unfolding sig_rep_def by fast
  have k: "k \<notin> (\<lambda>(k, cb, a). k) ` set zs" using assms(2) unfolding z(1) by force
  then have "map_of (map (\<lambda>(k, cb, a). (k, a)) zs) k = None"
    by (auto simp: map_of_eq_None_iff image_image split_beta)
  then have "map_of (map (\<lambda>(k, cb, a). (k, a)) (zs @ [(k, cb, si_next s)])) = (map_of (map (\<lambda>(k, cb, a). (k, a)) zs))(k \<mapsto> si_next s)"
    by (auto simp: map_add_def fun_eq_iff split: option.split)
  then show ?thesis
    unfolding sig_rep_def
    by (intro exI [of _ "zs @ [(k, cb, si_next s)]"])
      (use z k in \<open>auto simp: si_Connect_def\<close>)
qed

lemma sig_rep_Disconnect:
  assumes "sig_rep s conns kvs" and "map_of conns k = Some a"
  shows "sig_rep (snd (si_Disconnect a s)) (um_erase k conns) (filter (\<lambda>x. fst x \<noteq> k) kvs)"
proof -
  obtain zs :: "(u64 \<times> 'a \<times> nat) list" where z: "kvs = map (\<lambda>(k, cb, a). (k, cb)) zs" "si_slots s = map (\<lambda>(k, cb, a). a) zs"
    "distinct (map (\<lambda>(k, cb, a). k) zs)" "distinct (map (\<lambda>(k, cb, a). a) zs)"
    "\<forall>(k, cb, a) \<in> set zs. a < si_next s \<and> si_heap s a = Slot (Some cb)"
    "map_of conns = map_of (map (\<lambda>(k, cb, a). (k, a)) zs)"
    using assms(1) unfolding sig_rep_def by fast
  obtain cb where mem: "(k, cb, a) \<in> set zs"
    using assms(2) unfolding z(6) by (auto dest!: map_of_SomeD)
  have iff: "fst z \<noteq> k \<longleftrightarrow> snd (snd z) \<noteq> a" if "z \<in> set zs" for z
    using mem that z(3,4) by (metis (no_types, lifting) case_prod_beta' distinct_map fst_conv inj_onD snd_conv)
  let ?F = "filter (\<lambda>z. snd (snd z) \<noteq> a) zs"
  let ?s = "s\<lparr>si_heap := (si_heap s)(a := sl_Disconnect (si_heap s a))\<rparr>"
  have F: "?F = filter (\<lambda>z. fst z \<noteq> k) zs" using iff by (intro filter_cong) auto
  have slots: "filter (\<lambda>b. sl_connected (si_heap ?s b)) (map (\<lambda>(k, cb, a). a) zs) = map (\<lambda>(k, cb, a). a) ?F"
    using z(5) by (induction zs) (auto simp: Slot_def sl_Disconnect_def)
  have kvs: "filter (\<lambda>x. fst x \<noteq> k) kvs = map (\<lambda>(k, cb, a). (k, cb)) ?F"
    unfolding F z(1) by (induction zs) auto
  have "map_of (map (\<lambda>(k, cb, a). (k, a)) (filter (\<lambda>z. fst z \<noteq> k) zs)) x =
      (if x = k then None else map_of (map (\<lambda>(k, cb, a). (k, a)) zs) x)" for x
    by (induction zs) auto
  then have conns: "map_of (um_erase k conns) = map_of (map (\<lambda>(k, cb, a). (k, a)) ?F)"
    unfolding F map_of_um_erase z(6) by (simp add: fun_eq_iff)
  have "a \<in> set (si_slots s)" using mem unfolding z(2) by force
  then have "snd (si_Disconnect a s) = ?s\<lparr>si_slots := map (\<lambda>(k, cb, a). a) ?F\<rparr>"
    using slots z(2) by (simp add: si_Disconnect_def si_ClearDisconnectedSlots_def)
  then show ?thesis
    unfolding sig_rep_def using z(3-5) kvs conns
    by (intro exI [of _ ?F]) (auto simp: distinct_map_filter)
qed

section \<open>Handlers keep the subscriptions\<close>

lemma bound_to_Conn:
  "bound_to q (subs @ [((s, p), cb)]) = (if q = p then bound_to p subs @ [(s, cb)] else bound_to q subs)"
  by (auto simp: bound_to_def)

lemma bound_to_Disc:
  "bound_to q (filter (\<lambda>x. fst x \<noteq> (s, p)) subs) =
     (if q = p then filter (\<lambda>x. fst x \<noteq> s) (bound_to p subs) else bound_to q subs)"
  by (induction subs) (auto simp: bound_to_def)

lemma bound_to_fresh: "(s, p) \<notin> fst ` set subs \<Longrightarrow> s \<notin> fst ` set (bound_to p subs)"
  by (force simp: bound_to_def)

lemma sig_rep_absent:
  assumes "sig_rep s conns kvs" and "map_of conns k = None"
  shows "filter (\<lambda>x. fst x \<noteq> k) kvs = kvs"
proof -
  obtain zs :: "(u64 \<times> 'a \<times> nat) list" where z: "kvs = map (\<lambda>(k, cb, a). (k, cb)) zs"
    "map_of conns = map_of (map (\<lambda>(k, cb, a). (k, a)) zs)"
    using assms(1) unfolding sig_rep_def by fast
  have "map_of (map (\<lambda>(k, cb, a). (k, a)) zs) k = None" using assms(2) unfolding z(2) .
  then show ?thesis unfolding z(1) by (force simp: filter_id_conv map_of_eq_None_iff)
qed

lemma si_Connect_connected: "conn_IsConnected (fst (si_Connect cb s)) (snd (si_Connect cb s))"
  by (simp add: conn_IsConnected_def si_Connect_def Slot_def)

lemma lh_Connect_eq:
  "lh_Connect s cb h = h\<lparr>lh_signal := snd (si_Connect cb (lh_signal h)),
     lh_signal_conns := um_set s (fst (si_Connect cb (lh_signal h))) (lh_signal_conns h)\<rparr>"
  using si_Connect_connected [of cb "lh_signal h"] by (simp add: lh_Connect_def split_beta Let_def)

lemma lh_Connect_oppo_maps:
  fixes h :: "'cb listener_handler" and cb :: "'cb option" and p :: u64
  defines "c \<equiv> si_Connect cb (um_at Signal p (lh_signals h))"
  shows "lh_signal (lh_Connect_oppo s p cb h) = lh_signal h"
    "lh_signal_conns (lh_Connect_oppo s p cb h) = lh_signal_conns h"
    "map_of (lh_signals (lh_Connect_oppo s p cb h)) = (map_of (lh_signals h))(p \<mapsto> snd c)"
    "map_of (lh_signals_conns (lh_Connect_oppo s p cb h)) =
       (map_of (lh_signals_conns h))(p \<mapsto> um_set s (fst c) (um_at [] p (lh_signals_conns h)))"
  using si_Connect_connected [of cb "um_at Signal p (lh_signals h)"] si_Connect_connected [of cb Signal]
  by (auto simp: lh_Connect_oppo_def c_def Let_def split_beta um_at_def fun_eq_iff split: option.splits)

lemma lh_rep_Connect:
  assumes "lh_rep h subs" and "(s, None) \<notin> fst ` set subs"
  shows "lh_rep (lh_Connect s (Some cb) h) (subs @ [((s, None), cb)])"
  using assms sig_rep_Connect [OF _ bound_to_fresh [OF assms(2)]]
  by (simp add: lh_rep_def lh_Connect_eq bound_to_Conn)

lemma lh_rep_Connect_oppo:
  assumes "lh_rep h subs" and "(s, Some p) \<notin> fst ` set subs"
  shows "lh_rep (lh_Connect_oppo s p (Some cb) h) (subs @ [((s, Some p), cb)])"
proof -
  have "sig_rep (um_at Signal p (lh_signals h)) (um_at [] p (lh_signals_conns h)) (bound_to (Some p) subs)"
    using assms(1) by (simp add: lh_rep_def)
  note new = sig_rep_Connect [OF this bound_to_fresh [OF assms(2)], of cb]
  show ?thesis
    using assms(1) new by (auto simp: lh_rep_def lh_Connect_oppo_maps bound_to_Conn um_at_def)
qed

lemma lh_rep_Disconnect:
  assumes "lh_rep h subs"
  shows "lh_rep (lh_Disconnect s h) (filter (\<lambda>x. fst x \<noteq> (s, None)) subs)"
proof (cases "map_of (lh_signal_conns h) s")
  case None
  then show ?thesis
    using assms sig_rep_absent [of "lh_signal h" "lh_signal_conns h" "bound_to None subs" s]
    by (simp add: lh_rep_def lh_Disconnect_def bound_to_Disc)
next
  case (Some a)
  then show ?thesis
    using assms sig_rep_Disconnect [of "lh_signal h" "lh_signal_conns h" "bound_to None subs" s a]
    by (simp add: lh_rep_def lh_Disconnect_def bound_to_Disc)
qed

lemma lh_rep_Disconnect_oppo:
  assumes "lh_rep h subs"
  shows "lh_rep (lh_Disconnect_oppo s p h) (filter (\<lambda>x. fst x \<noteq> (s, Some p)) subs)"
proof -
  have sig: "sig_rep (um_at Signal p (lh_signals h)) (um_at [] p (lh_signals_conns h)) (bound_to (Some p) subs)"
    using assms by (simp add: lh_rep_def)
  show ?thesis
  proof (cases "map_of (um_at [] p (lh_signals_conns h)) s")
    case None
    then have "lh_Disconnect_oppo s p h = h"
      by (auto simp: lh_Disconnect_oppo_def um_at_def split: option.splits)
    then show ?thesis
      using assms sig_rep_absent [OF sig None] by (auto simp: lh_rep_def bound_to_Disc)
  next
    case (Some a)
    then obtain conns where c: "map_of (lh_signals_conns h) p = Some conns" "map_of conns s = Some a"
      by (auto simp: um_at_def split: option.splits)
    then show ?thesis
      using assms sig_rep_Disconnect [OF sig Some]
      by (auto simp: lh_rep_def lh_Disconnect_oppo_def bound_to_Disc um_at_def)
  qed
qed

lemma lh_rep_apply:
  assumes "lh_rep h subs" and "no_double (e # es) subs"
  shows "lh_rep (lh_apply e h) (subs_apply e subs) \<and> no_double es (subs_apply e subs)"
proof (cases e)
  case (Conn s p cb)
  then show ?thesis using assms lh_rep_Connect lh_rep_Connect_oppo by (cases p) auto
next
  case (Disc s p)
  then show ?thesis using assms lh_rep_Disconnect lh_rep_Disconnect_oppo by (cases p) auto
qed

lemma lh_rep_fold:
  "lh_rep h subs \<Longrightarrow> no_double es subs \<Longrightarrow> lh_rep (fold lh_apply es h) (fold subs_apply es subs)"
proof (induction es arbitrary: h subs)
  case (Cons e es)
  then show ?case using lh_rep_apply [OF Cons.prems] by simp
qed simp

lemma lh_rep_new: "lh_rep ListenerHandler []"
  by (simp add: lh_rep_def ListenerHandler_def bound_to_def sig_rep_Signal)

lemma lh_rep_Run:
  assumes "lh_rep h subs"
  shows "\<exists>h'. lh_Run i h = (map snd (bound_to None subs) @
      map snd (bound_to (Some (id_hash_value (mi_sender_id i))) subs), h') \<and> lh_rep h' subs"
proof -
  let ?p = "id_hash_value (mi_sender_id i)"
  have sig: "sig_rep (lh_signal h) (lh_signal_conns h) (bound_to None subs)"
    "sig_rep (um_at Signal ?p (lh_signals h)) (um_at [] ?p (lh_signals_conns h)) (bound_to (Some ?p) subs)"
    using assms by (auto simp: lh_rep_def)
  note call = sig_rep_call [OF sig(1)] sig_rep_call [OF sig(2)]
  show ?thesis
  proof (cases "map_of (lh_signals h) ?p")
    case None
    then have "bound_to (Some ?p) subs = []"
      using sig(2) by (auto simp: um_at_def sig_rep_def Signal_def)
    then show ?thesis using None call(1) assms by (simp add: lh_Run_def)
  next
    case (Some so)
    then have "si_call so = (map snd (bound_to (Some ?p) subs), so)" using call(2) by (simp add: um_at_def)
    moreover have "map_of (um_set ?p so (lh_signals h)) = map_of (lh_signals h)" using Some by auto
    ultimately show ?thesis
      using Some call(1) assms
      by (intro exI [of _ "h\<lparr>lh_signals := um_set ?p so (lh_signals h)\<rparr>"])
        (simp add: lh_Run_def lh_rep_def um_at_def Let_def del: map_of_um_set)
  qed
qed

section \<open>Dispatchers keep the subscriptions of every channel\<close>

lemma upd_handler_fields [simp]:
  "d_is_shutdown (upd_handler a f d) = d_is_shutdown d" "d_msg_listeners (upd_handler a f d) = d_msg_listeners d"
  "length (d_handlers (upd_handler a f d)) = length (d_handlers d)"
  by (simp_all add: upd_handler_def)

lemma d_repD:
  assumes "d_rep ty d subs"
  shows "\<not> d_is_shutdown d" "ahm_ok (d_msg_listeners d)" "chan_rep ty d c (subs c)"
    "ahm_Get (d_msg_listeners d) c = Some a \<Longrightarrow> ahm_Get (d_msg_listeners d) c' = Some a \<Longrightarrow> c = c'"
  using assms unfolding d_rep_def by blast+

lemma chan_rep_Some:
  "chan_rep ty d c ss \<Longrightarrow> ahm_Get (d_msg_listeners d) c = Some a \<Longrightarrow>
   a < length (d_handlers d) \<and> fst (d_handlers d ! a) = ty \<and> lh_rep (snd (d_handlers d ! a)) ss"
  by (simp add: chan_rep_def)

lemma d_rep_upd:
  assumes rep: "d_rep ty d subs" and get: "ahm_Get (d_msg_listeners d) c = Some a"
    and new: "lh_rep (f (snd (d_handlers d ! a))) subs'"
  shows "d_rep ty (upd_handler a f d) (subs(c := subs'))"
proof -
  note lt = chan_rep_Some [OF d_repD(3) [OF rep] get]
  have chan: "chan_rep ty (upd_handler a f d) c' ((subs(c := subs')) c')" for c'
  proof (cases "c' = c")
    case True
    then show ?thesis using get new lt by (simp add: chan_rep_def upd_handler_def)
  next
    case False
    then have "ahm_Get (d_msg_listeners d) c' \<noteq> Some a" using d_repD(4) [OF rep get] by blast
    then show ?thesis
      using d_repD(3) [OF rep, of c'] False
      by (auto simp: chan_rep_def upd_handler_def split: option.splits)
  qed
  then show ?thesis unfolding d_rep_def using d_repD(1,2,4) [OF rep] by simp
qed

lemma d_rep_handler_for:
  assumes rep: "d_rep ty d subs"
  shows "\<exists>a d'. d_handler_for ty c d = (Some a, d') \<and> d_rep ty d' subs \<and> ahm_Get (d_msg_listeners d') c = Some a"
proof (cases "ahm_Get (d_msg_listeners d) c")
  case (Some a)
  then show ?thesis using chan_rep_Some [OF d_repD(3) [OF rep] Some] rep by (simp add: d_handler_for_def)
next
  case None
  let ?a = "length (d_handlers d)"
  let ?d = "d\<lparr>d_handlers := d_handlers d @ [(ty, ListenerHandler)], d_msg_listeners := ahm_Set c ?a (d_msg_listeners d)\<rparr>"
  note get = ahm_Get_Set [OF d_repD(2) [OF rep]]
  have empty: "subs c = []" using d_repD(3) [OF rep, of c] None by (simp add: chan_rep_def)
  have chan: "chan_rep ty ?d c' (subs c')" for c'
    using d_repD(3) [OF rep, of c'] empty
    by (auto simp: chan_rep_def get nth_append lh_rep_new split: option.splits)
  have old: "ahm_Get (d_msg_listeners d) c' \<noteq> Some ?a" for c'
    using chan_rep_Some [OF d_repD(3) [OF rep, of c']] by blast
  have "d_rep ty ?d subs"
    unfolding d_rep_def using chan d_repD(1,4) [OF rep] ahm_ok_Set [OF d_repD(2) [OF rep]] old
    by (auto simp: get)
  then show ?thesis using None by (simp add: d_handler_for_def get Let_def)
qed

text \<open>One registration changes the subscriptions of its own channel and of no other.\<close>

lemma d_rep_apply:
  assumes rep: "d_rep ty d subs" and nd: "no_double (e # es) (subs c)"
  shows "d_rep ty (d_apply ty (c, e) d) (subs(c := subs_apply e (subs c)))"
proof (cases e)
  case (Conn s p cb)
  obtain a d' where d': "d_handler_for ty c d = (Some a, d')" "d_rep ty d' subs" "ahm_Get (d_msg_listeners d') c = Some a"
    using d_rep_handler_for [OF rep] by blast
  have "lh_rep (lh_apply e (snd (d_handlers d' ! a))) (subs_apply e (subs c))"
    using lh_rep_apply [OF _ nd] chan_rep_Some [OF d_repD(3) [OF d'(2)] d'(3)] by blast
  from d_rep_upd [where f = "lh_apply e", OF d'(2,3) this] show ?thesis
    using Conn d'(1) d_repD(1) [OF rep] by (cases p) (simp_all add: d_AddListener_def d_AddListener_oppo_def)
next
  case (Disc s p)
  show ?thesis
  proof (cases "ahm_Get (d_msg_listeners d) c")
    case None
    then have "subs c = []" using d_repD(3) [OF rep, of c] by (simp add: chan_rep_def)
    then have "subs(c := subs_apply e (subs c)) = subs" using Disc by (simp add: fun_upd_idem)
    moreover have "d_apply ty (c, e) d = d"
      using Disc None by (cases p) (simp_all add: d_RemoveListener_def d_RemoveListener_oppo_def)
    ultimately show ?thesis using rep by simp
  next
    case (Some a)
    have "lh_rep (lh_apply e (snd (d_handlers d ! a))) (subs_apply e (subs c))"
      using lh_rep_apply [OF _ nd] chan_rep_Some [OF d_repD(3) [OF rep] Some] by blast
    from d_rep_upd [where f = "lh_apply e", OF rep Some this] show ?thesis
      using Disc Some d_repD(1) [OF rep] by (cases p) (simp_all add: d_RemoveListener_def d_RemoveListener_oppo_def)
  qed
qed

lemma d_rep_fold:
  assumes "d_rep ty d subs" and "\<And>c. no_double (events_of c es) (subs c)"
  shows "d_rep ty (fold (d_apply ty) es d) (\<lambda>c. fold subs_apply (events_of c es) (subs c))"
  using assms
proof (induction es arbitrary: d subs)
  case Nil
  then show ?case by (simp add: events_of_def)
next
  case (Cons x es)
  obtain c e where x: "x = (c, e)" by (cases x)
  let ?subs = "subs(c := subs_apply e (subs c))"
  have nd: "no_double (e # events_of c es) (subs c)" using Cons.prems(2) [of c] x by (simp add: events_of_def)
  have "no_double (events_of c' es) (?subs c')" for c'
  proof (cases "c' = c")
    case True
    then show ?thesis using nd by (cases e) simp_all
  next
    case False
    then show ?thesis using Cons.prems(2) [of c'] x by (simp add: events_of_def)
  qed
  from Cons.IH [OF d_rep_apply [OF Cons.prems(1) nd] this]
  have "d_rep ty (fold (d_apply ty) (x # es) d) (\<lambda>c'. fold subs_apply (events_of c' es) (?subs c'))" using x by simp
  moreover have "fold subs_apply (events_of c' es) (?subs c') = fold subs_apply (events_of c' (x # es)) (subs c')" for c'
    using x by (simp add: events_of_def)
  ultimately show ?case by simp
qed

lemma d_rep_new: "d_rep ty Dispatcher (\<lambda>_. [])"
proof -
  have none: "ahm_Get (AtomicHashMap 128 :: nat atomic_hash_map) c = None" for c
    by (rule ahm_Get_new) simp_all
  show ?thesis by (simp add: d_rep_def Dispatcher_def ahm_ok_new chan_rep_def none)
qed

section \<open>Properties\<close>

text \<open>
  Claim C16. After any sequence of registrations and removals at a dispatcher, on any channels, bound
  to a sender or not, in which no reader registers twice under the same ids, a message of a channel
  is given to exactly the listeners registered for that channel: first those bound to no sender,
  then those bound to the sender of the message, each group in the order of registration.
\<close>

theorem dispatcher_calls_subscribers:
  assumes "\<And>c. no_double (events_of c es) []"
  shows "fst (d_OnMessage c i (fold (d_apply ty) es Dispatcher)) =
    (let subs = fold subs_apply (events_of c es) [] in
     map snd (bound_to None subs) @ map snd (bound_to (Some (id_hash_value (mi_sender_id i))) subs))"
proof -
  let ?d = "fold (d_apply ty) es Dispatcher" and ?subs = "fold subs_apply (events_of c es) []"
  have rep: "d_rep ty ?d (\<lambda>c. fold subs_apply (events_of c es) [])"
    using d_rep_fold [OF d_rep_new assms] .
  show ?thesis
  proof (cases "ahm_Get (d_msg_listeners ?d) c")
    case None
    then have "?subs = []" using d_repD(3) [OF rep, of c] by (simp add: chan_rep_def)
    then show ?thesis using None by (simp add: d_OnMessage_def bound_to_def)
  next
    case (Some a)
    then have "lh_rep (snd (d_handlers ?d ! a)) ?subs" using chan_rep_Some [OF d_repD(3) [OF rep]] by blast
    from lh_rep_Run [OF this, of i] show ?thesis
      using Some d_repD(1) [OF rep] by (auto simp: d_OnMessage_def Let_def)
  qed
qed

theorem dispatcher_calls_subscribers_witness:
  "fst (d_OnMessage 7 (MessageInfo_seq \<lparr>id_data = replicate 8 0, id_hash_value = 42\<rparr> 1 \<lparr>id_data = [], id_hash_value = 0\<rparr> 0)
     (fold (d_apply 3) [(7, Conn 1 None ''all''), (7, Conn 2 (Some 42) ''bound''), (7, Conn 3 (Some 5) ''other''),
        (9, Conn 1 None ''elsewhere''), (7, Conn 4 None ''gone''), (7, Disc 4 None)] Dispatcher)) = [''all'', ''bound'']"
proof -
  let ?es = "[(7, Conn 1 None ''all''), (7, Conn 2 (Some 42) ''bound''), (7, Conn 3 (Some 5) ''other''),
        (9, Conn 1 None ''elsewhere''), (7, Conn 4 None ''gone''), (7, Disc 4 None)] :: (u64 \<times> string lh_event) list"
  have "no_double (events_of c ?es) []" for c by (simp add: events_of_def)
  from dispatcher_calls_subscribers [OF this] show ?thesis
    by (simp add: events_of_def bound_to_def MessageInfo_seq_def)
qed

end
