(* ===== verification/Shm_Transport.thy ===== *)
theory Shm_Transport
  imports Shm_SegmentFacts Shm_Notifier Transport_Listener
begin

text \<open>
  The two ends of the shared memory transport: \<^verbatim>\<open>transport/transmitter/shm_transmitter.h\<close> and
  \<^verbatim>\<open>transport/dispatcher/shm_dispatcher\<close>. A transmitter writes a message and its info into a block of
  the segment of the channel and notifies the index; the dispatcher thread of a process listens to
  the notifier, reads the block and runs the handler of the channel.

  The serialization of messages (protobuf) and the arena wrapper of a message (the bytes that
  \<^verbatim>\<open>SerializeToArenaMessageWrapper\<close> leaves in the wrapper) are parameters, collected in
  \<open>message_traits\<close>. \<open>None\<close> as the result of an operation means a read through a null pointer or a loop
  that does not end, as for the segments.
\<close>

section \<open>ShmTransmitter\<close>

record 'm message_traits =
  mt_ByteSize :: "'m \<Rightarrow> u64"
  mt_SerializeToArray :: "'m \<Rightarrow> u32 \<Rightarrow> u8 list option"
  mt_SerializeToArena :: "'m \<Rightarrow> u8 list option"

record shm_transmitter =
  st_enabled :: bool
  st_segment :: "segment option"
  st_channel_id :: u64
  st_host_id :: u64
  st_notifier :: bool
  st_serialized_receiver_count :: int
  st_arena_receiver_count :: int
  st_arena_transmit :: bool

text \<open>
  The constructor; \<open>arena\<close> is the configuration of the channel combined with the type of its messages.
\<close>

definition ShmTransmitter :: "u64 \<Rightarrow> u64 \<Rightarrow> bool \<Rightarrow> shm_transmitter" where
  "ShmTransmitter channel_id host_id arena =
     \<lparr>st_enabled = False, st_segment = None, st_channel_id = channel_id, st_host_id = host_id, st_notifier = False,
      st_serialized_receiver_count = 0, st_arena_receiver_count = 0, st_arena_transmit = arena\<rparr>"

text \<open>\<^verbatim>\<open>Enable()\<close>; \<open>arena_ok\<close> is whether the arena manager could be enabled for the channel.\<close>

definition st_Enable :: "bool \<Rightarrow> shm_transmitter \<Rightarrow> shm_transmitter" where
  "st_Enable arena_ok st =
     (if st_enabled st then st
      else if st_serialized_receiver_count st = 0 \<and> st_arena_receiver_count st = 0 then st
      else if st_arena_transmit st \<and> \<not> arena_ok then st
      else st\<lparr>st_segment := Some (Segment (st_channel_id st)), st_notifier := True, st_enabled := True\<rparr>)"

text \<open>\<^verbatim>\<open>Disable()\<close>; dropping the segment runs its destructor.\<close>

definition st_Disable :: "seg_vtable \<Rightarrow> shm_transmitter \<Rightarrow> shm_os \<Rightarrow> (shm_transmitter \<times> shm_os) option" where
  "st_Disable vt st os =
     (if st_enabled st then do {
        sg \<leftarrow> st_segment st;
        (_, _, os') \<leftarrow> seg_Destroy vt sg os;
        Some (st\<lparr>st_segment := None, st_notifier := False, st_enabled := False\<rparr>, os')
      } else Some (st, os))"

text \<open>\<^verbatim>\<open>Enable(opposite_attr)\<close> and \<^verbatim>\<open>Disable(opposite_attr)\<close>; \<open>raw\<close>: the opposite reads raw or Python messages.\<close>

definition st_Enable_oppo :: "bool \<Rightarrow> bool \<Rightarrow> shm_transmitter \<Rightarrow> shm_transmitter" where
  "st_Enable_oppo arena_ok raw st =
     (let st = (if st_arena_transmit st \<and> \<not> raw
                then st\<lparr>st_arena_receiver_count := st_arena_receiver_count st + 1\<rparr>
                else st\<lparr>st_serialized_receiver_count := st_serialized_receiver_count st + 1\<rparr>)
      in if \<not> st_enabled st then st_Enable arena_ok st else st)"

definition st_Disable_oppo :: "seg_vtable \<Rightarrow> bool \<Rightarrow> shm_transmitter \<Rightarrow> shm_os \<Rightarrow> (shm_transmitter \<times> shm_os) option" where
  "st_Disable_oppo vt raw st os =
     (if st_enabled st then
        if st_arena_transmit st then
          (let st = (if raw then st\<lparr>st_serialized_receiver_count := st_serialized_receiver_count st - 1\<rparr>
                     else st\<lparr>st_arena_receiver_count := st_arena_receiver_count st - 1\<rparr>)
           in if st_serialized_receiver_count st \<le> 0 \<and> st_arena_receiver_count st \<le> 0 then st_Disable vt st os
              else Some (st, os))
        else
          (let st = st\<lparr>st_serialized_receiver_count := st_serialized_receiver_count st - 1\<rparr>
           in if st_serialized_receiver_count st \<le> 0 then st_Disable vt st os else Some (st, os))
      else Some (st, os))"

text \<open>Stores through \<^verbatim>\<open>wb.buf\<close> and \<^verbatim>\<open>wb.block\<close>; the destination of the info is the byte behind the message.\<close>

definition store_payload :: "writable_block \<Rightarrow> u8 list \<Rightarrow> u64 \<Rightarrow> shm_region \<Rightarrow> shm_region" where
  "store_payload wb bs msg_size rg =
     (let i = unat (wb_index wb) in
      rg\<lparr>rg_mem := mem_write (unat (wb_buf wb)) bs (rg_mem rg),
         rg_blocks := (rg_blocks rg)[i := (rg_blocks rg ! i)\<lparr>blk_msg_size := msg_size\<rparr>]\<rparr>)"

definition store_info_size :: "writable_block \<Rightarrow> memory \<Rightarrow> shm_region \<Rightarrow> shm_region" where
  "store_info_size wb mem rg =
     (let i = unat (wb_index wb) in
      rg\<lparr>rg_mem := mem,
         rg_blocks := (rg_blocks rg)[i := (rg_blocks rg ! i)\<lparr>blk_msg_info_size := of_nat mi_kSize\<rparr>]\<rparr>)"

definition store_arena_payload :: "writable_block \<Rightarrow> u8 list \<Rightarrow> u64 \<Rightarrow> shm_region \<Rightarrow> shm_region" where
  "store_arena_payload wb bs msg_size rg =
     (let i = unat (wb_index wb) in
      rg\<lparr>rg_mem := mem_write (unat (wb_buf wb)) bs (rg_mem rg),
         rg_arena_blocks := (rg_arena_blocks rg)[i := (rg_arena_blocks rg ! i)\<lparr>blk_msg_size := msg_size\<rparr>]\<rparr>)"

definition store_arena_info_size :: "writable_block \<Rightarrow> memory \<Rightarrow> shm_region \<Rightarrow> shm_region" where
  "store_arena_info_size wb mem rg =
     (let i = unat (wb_index wb) in
      rg\<lparr>rg_mem := mem,
         rg_arena_blocks := (rg_arena_blocks rg)[i := (rg_arena_blocks rg ! i)\<lparr>blk_msg_info_size := of_nat mi_kSize\<rparr>]\<rparr>)"

text \<open>
  Filling an acquired block: the message, its size, the info, its size; then the lock is released.
  The result is whether the block may be announced.
\<close>

definition fill_block ::
  "'m message_traits \<Rightarrow> 'm \<Rightarrow> message_info \<Rightarrow> writable_block \<Rightarrow> segment \<Rightarrow> shm_os \<Rightarrow> (bool \<times> shm_os) option" where
  "fill_block mt msg info wb sg os =
     (let msg_size = mt_ByteSize mt msg in
      case mt_SerializeToArray mt msg (ucast msg_size) of
        None \<Rightarrow> do { os \<leftarrow> ReleaseWrittenBlock wb sg os; Some (False, os) }
      | Some bs \<Rightarrow> do {
          let os1 = upd_region (wb_block wb) (store_payload wb bs msg_size) os;
          rg \<leftarrow> os_regions os1 (wb_block wb);
          let (ok, mem) = mi_SerializeTo info (Some (unat (wb_buf wb) + unat msg_size)) mi_kSize (rg_mem rg);
          if \<not> ok then do { os2 \<leftarrow> ReleaseWrittenBlock wb sg os1; Some (False, os2) }
          else do {
            os2 \<leftarrow> ReleaseWrittenBlock wb sg (upd_region (wb_block wb) (store_info_size wb mem) os1);
            Some (True, os2)
          }
        })"

definition write_message ::
  "'m message_traits \<Rightarrow> seg_vtable \<Rightarrow> 'm \<Rightarrow> message_info \<Rightarrow> segment \<Rightarrow> shm_os \<Rightarrow> (u32 option \<times> segment \<times> shm_os) option" where
  "write_message mt vt msg info sg os = do {
     (wb, sg, os) \<leftarrow> AcquireBlockToWrite vt (mt_ByteSize mt msg) sg os;
     case wb of None \<Rightarrow> Some (None, sg, os)
     | Some wb \<Rightarrow> do {
         (ok, os) \<leftarrow> fill_block mt msg info wb sg os;
         Some (if ok then Some (wb_index wb) else None, sg, os)
       }
   }"

text \<open>
  The arena branch: the wrapper goes into an arena block; receivers of serialized messages get a
  copy in an ordinary block. The arena block stays locked when that copy fails.
\<close>

definition fill_arena_block ::
  "u8 list \<Rightarrow> message_info \<Rightarrow> writable_block \<Rightarrow> shm_os \<Rightarrow> (bool \<times> shm_os) option" where
  "fill_arena_block bs info wb os = do {
     let os1 = upd_region (wb_block wb) (store_arena_payload wb bs 1024) os;
     rg \<leftarrow> os_regions os1 (wb_block wb);
     let (ok, mem) = mi_SerializeTo info (Some (unat (wb_buf wb) + 1024)) mi_kSize (rg_mem rg);
     if ok then Some (True, upd_region (wb_block wb) (store_arena_info_size wb mem) os1) else Some (False, os1)
   }"

definition write_arena_message ::
  "'m message_traits \<Rightarrow> seg_vtable \<Rightarrow> bool \<Rightarrow> 'm \<Rightarrow> message_info \<Rightarrow> segment \<Rightarrow> shm_os \<Rightarrow>
   ((u32 \<times> u32) option \<times> segment \<times> shm_os) option" where
  "write_arena_message mt vt serialized msg info sg os = do {
     (awb, sg, os) \<leftarrow> AcquireArenaBlockToWrite vt 1024 sg os;
     case awb of None \<Rightarrow> Some (None, sg, os)
     | Some awb \<Rightarrow>
         (case mt_SerializeToArena mt msg of
            None \<Rightarrow> do { os \<leftarrow> ReleaseArenaWrittenBlock awb sg os; Some (None, sg, os) }
          | Some bs \<Rightarrow> do {
              (ok, os) \<leftarrow> fill_arena_block bs info awb os;
              if \<not> ok then do { os \<leftarrow> ReleaseArenaWrittenBlock awb sg os; Some (None, sg, os) }
              else if serialized then do {
                (index, sg, os) \<leftarrow> write_message mt vt msg info sg os;
                case index of None \<Rightarrow> Some (None, sg, os)
                | Some i \<Rightarrow> do { os \<leftarrow> ReleaseArenaWrittenBlock awb sg os; Some (Some (wb_index awb, i), sg, os) }
              }
              else do { os \<leftarrow> ReleaseArenaWrittenBlock awb sg os; Some (Some (wb_index awb, - 1), sg, os) }
            })
   }"

text \<open>\<^verbatim>\<open>Transmit\<close>, with the notifier of the process.\<close>

definition st_Transmit ::
  "'m message_traits \<Rightarrow> seg_vtable \<Rightarrow> condition_notifier \<Rightarrow> 'm \<Rightarrow> message_info \<Rightarrow> shm_transmitter \<Rightarrow> shm_os \<Rightarrow> notifier_os \<Rightarrow>
   (bool \<times> shm_transmitter \<times> shm_os \<times> notifier_os) option" where
  "st_Transmit mt vt cn msg info st os nos =
     (if \<not> st_enabled st then Some (False, st, os, nos)
      else do {
        sg \<leftarrow> st_segment st;
        (res, sg, os) \<leftarrow>
          (if st_arena_transmit st then write_arena_message mt vt (0 < st_serialized_receiver_count st) msg info sg os
           else do { (i, sg, os) \<leftarrow> write_message mt vt msg info sg os; Some (map_option (\<lambda>i. (- 1, i)) i, sg, os) });
        let st = st\<lparr>st_segment := Some sg\<rparr>;
        case res of None \<Rightarrow> Some (False, st, os, nos)
        | Some (arena, i) \<Rightarrow> do {
            (ok, nos) \<leftarrow> cn_Notify (ReadableInfo_of (st_host_id st) i (st_channel_id st) arena) cn nos;
            Some (ok, st, os, nos)
          }
      })"

section \<open>ShmDispatcher\<close>

record 'cb shm_dispatcher =
  sd_base :: "'cb dispatcher"
  sd_arena :: "'cb dispatcher"
  sd_host_id :: u64
  sd_segments :: "(u64, segment) umap"
  sd_previous_indexes :: "(u64, u32) umap"
  sd_arena_previous_indexes :: "(u64, u32) umap"

text \<open>
  \<^verbatim>\<open>arena_msg_listeners_\<close> is a second table of handlers (\<open>sd_arena\<close>, of which only the table is used).
  \<open>UINT32_MAX\<close> is \<open>- 1\<close>.
\<close>

definition ShmDispatcher :: "u64 \<Rightarrow> 'cb shm_dispatcher" where
  "ShmDispatcher host_id = \<lparr>sd_base = Dispatcher, sd_arena = Dispatcher, sd_host_id = host_id,
     sd_segments = [], sd_previous_indexes = [], sd_arena_previous_indexes = []\<rparr>"

definition sd_AddSegment :: "u64 \<Rightarrow> 'cb shm_dispatcher \<Rightarrow> 'cb shm_dispatcher" where
  "sd_AddSegment channel_id sd =
     (if map_of (sd_segments sd) channel_id \<noteq> None then sd
      else sd\<lparr>sd_segments := um_set channel_id (Segment channel_id) (sd_segments sd),
              sd_previous_indexes := um_set channel_id (- 1) (sd_previous_indexes sd),
              sd_arena_previous_indexes := um_set channel_id (- 1) (sd_arena_previous_indexes sd)\<rparr>)"

definition sd_AddArenaListener :: "u64 \<Rightarrow> u64 \<Rightarrow> 'cb \<Rightarrow> 'cb shm_dispatcher \<Rightarrow> 'cb shm_dispatcher" where
  "sd_AddArenaListener channel_id self_id cb sd =
     (if d_is_shutdown (sd_base sd) then sd
      else sd\<lparr>sd_arena := d_AddListener 0 channel_id self_id cb (sd_arena sd)\<rparr>)"

text \<open>The overload with an opposite drops it: the listener is connected under its own id only.\<close>

definition sd_AddArenaListener_oppo :: "u64 \<Rightarrow> u64 \<Rightarrow> u64 \<Rightarrow> 'cb \<Rightarrow> 'cb shm_dispatcher \<Rightarrow> 'cb shm_dispatcher" where
  "sd_AddArenaListener_oppo channel_id self_id oppo_id cb sd =
     (if d_is_shutdown (sd_base sd) then sd
      else sd\<lparr>sd_arena := d_AddListener 0 channel_id self_id cb (sd_arena sd)\<rparr>)"

definition sd_AddListener :: "bool \<Rightarrow> u64 \<Rightarrow> u64 \<Rightarrow> 'cb \<Rightarrow> 'cb shm_dispatcher \<Rightarrow> 'cb shm_dispatcher" where
  "sd_AddListener arena channel_id self_id cb sd = sd_AddSegment channel_id
     (if arena then sd_AddArenaListener channel_id self_id cb sd
      else sd\<lparr>sd_base := d_AddListener 0 channel_id self_id cb (sd_base sd)\<rparr>)"

definition sd_AddListener_oppo :: "bool \<Rightarrow> u64 \<Rightarrow> u64 \<Rightarrow> u64 \<Rightarrow> 'cb \<Rightarrow> 'cb shm_dispatcher \<Rightarrow> 'cb shm_dispatcher" where
  "sd_AddListener_oppo arena channel_id self_id oppo_id cb sd = sd_AddSegment channel_id
     (if arena then sd_AddArenaListener_oppo channel_id self_id oppo_id cb sd
      else sd\<lparr>sd_base := d_AddListener_oppo 0 channel_id self_id oppo_id cb (sd_base sd)\<rparr>)"

definition sd_RemoveListener_oppo :: "u64 \<Rightarrow> u64 \<Rightarrow> u64 \<Rightarrow> 'cb shm_dispatcher \<Rightarrow> 'cb shm_dispatcher" where
  "sd_RemoveListener_oppo channel_id self_id oppo_id sd =
     sd\<lparr>sd_base := d_RemoveListener_oppo channel_id self_id oppo_id (sd_base sd)\<rparr>"

text \<open>\<^verbatim>\<open>Shutdown\<close>; the destructors of the segments are not part of it.\<close>

definition sd_Shutdown :: "'cb shm_dispatcher \<Rightarrow> 'cb shm_dispatcher" where
  "sd_Shutdown sd = (if d_is_shutdown (sd_base sd) then sd
     else sd\<lparr>sd_base := (sd_base sd)\<lparr>d_is_shutdown := True\<rparr>, sd_segments := []\<rparr>)"

text \<open>A call of a listener: the callback, the bytes of the message and its info.\<close>

type_synonym 'cb delivery = "'cb \<times> u8 list \<times> message_info"

definition sd_OnMessage :: "u64 \<Rightarrow> u8 list \<Rightarrow> message_info \<Rightarrow> 'cb shm_dispatcher \<Rightarrow> 'cb delivery list \<times> 'cb shm_dispatcher" where
  "sd_OnMessage channel_id bs info sd =
     (let (called, d) = d_OnMessage channel_id info (sd_base sd)
      in (map (\<lambda>cb. (cb, bs, info)) called, sd\<lparr>sd_base := d\<rparr>))"

definition sd_OnArenaMessage :: "u64 \<Rightarrow> u8 list \<Rightarrow> message_info \<Rightarrow> 'cb shm_dispatcher \<Rightarrow> 'cb delivery list \<times> 'cb shm_dispatcher" where
  "sd_OnArenaMessage channel_id bs info sd =
     (if d_is_shutdown (sd_base sd) then ([], sd)
      else let (called, d) = d_OnMessage channel_id info (sd_arena sd)
           in (map (\<lambda>cb. (cb, bs, info)) called, sd\<lparr>sd_arena := d\<rparr>))"

text \<open>\<^verbatim>\<open>ReadMessage\<close> and \<^verbatim>\<open>ReadArenaMessage\<close>; the message info starts with an indeterminate send time.\<close>

definition sd_ReadMessage ::
  "seg_vtable \<Rightarrow> (u8 list \<Rightarrow> u64) \<Rightarrow> u64 \<Rightarrow> u64 \<Rightarrow> u32 \<Rightarrow> 'cb shm_dispatcher \<Rightarrow> shm_os \<Rightarrow>
   ('cb delivery list \<times> 'cb shm_dispatcher \<times> shm_os) option" where
  "sd_ReadMessage vt hash junk channel_id block_index sd os = do {
     sg \<leftarrow> map_of (sd_segments sd) channel_id;
     (rb, sg, os) \<leftarrow> AcquireBlockToRead vt block_index sg os;
     let sd = sd\<lparr>sd_segments := um_set channel_id sg (sd_segments sd)\<rparr>;
     case rb of None \<Rightarrow> Some ([], sd, os)
     | Some rb \<Rightarrow> do {
         rg \<leftarrow> os_regions os (wb_block rb);
         let b = rg_blocks rg ! unat block_index;
         let (ok, info) = mi_DeserializeFrom hash
               (mem_read (unat (wb_buf rb) + unat (blk_msg_size b)) (unat (blk_msg_info_size b)) (rg_mem rg)) (MessageInfo hash junk);
         let (called, sd) = (if ok then sd_OnMessage channel_id (mem_read (unat (wb_buf rb)) (unat (blk_msg_size b)) (rg_mem rg)) info sd
                             else ([], sd));
         os \<leftarrow> ReleaseReadBlock rb sg os;
         Some (called, sd, os)
       }
   }"

definition sd_ReadArenaMessage ::
  "seg_vtable \<Rightarrow> (u8 list \<Rightarrow> u64) \<Rightarrow> u64 \<Rightarrow> u64 \<Rightarrow> u32 \<Rightarrow> 'cb shm_dispatcher \<Rightarrow> shm_os \<Rightarrow>
   ('cb delivery list \<times> 'cb shm_dispatcher \<times> shm_os) option" where
  "sd_ReadArenaMessage vt hash junk channel_id arena_block_index sd os = do {
     sg \<leftarrow> map_of (sd_segments sd) channel_id;
     (rb, sg, os) \<leftarrow> AcquireArenaBlockToRead vt arena_block_index sg os;
     let sd = sd\<lparr>sd_segments := um_set channel_id sg (sd_segments sd)\<rparr>;
     case rb of None \<Rightarrow> Some ([], sd, os)
     | Some rb \<Rightarrow> do {
         rg \<leftarrow> os_regions os (wb_block rb);
         let b = rg_arena_blocks rg ! unat arena_block_index;
         let (ok, info) = mi_DeserializeFrom hash
               (mem_read (unat (wb_buf rb) + unat (blk_msg_size b)) (unat (blk_msg_info_size b)) (rg_mem rg)) (MessageInfo hash junk);
         let (called, sd) = (if ok then sd_OnArenaMessage channel_id (mem_read (unat (wb_buf rb)) (unat (blk_msg_size b)) (rg_mem rg)) info sd
                             else ([], sd));
         os \<leftarrow> ReleaseArenaReadBlock rb sg os;
         Some (called, sd, os)
       }
   }"

text \<open>
  The body of the loop of \<^verbatim>\<open>ThreadFunc\<close> for an info that was heard. The comparisons with the previous
  index only write debug lines.
\<close>

definition sd_handle ::
  "seg_vtable \<Rightarrow> (u8 list \<Rightarrow> u64) \<Rightarrow> u64 \<Rightarrow> readable_info \<Rightarrow> 'cb shm_dispatcher \<Rightarrow> shm_os \<Rightarrow>
   ('cb delivery list \<times> 'cb shm_dispatcher \<times> shm_os) option" where
  "sd_handle vt hash junk i sd os =
     (let channel_id = ri_channel_id i; block_index = ri_block_index i; arena_block_index = ri_arena_block_index i in
      if ri_host_id i \<noteq> sd_host_id sd then Some ([], sd, os)
      else if map_of (sd_segments sd) channel_id = None then Some ([], sd, os)
      else do {
        (called, sd, os) \<leftarrow>
          (if block_index \<noteq> - 1 then
             sd_ReadMessage vt hash junk channel_id block_index
               (sd\<lparr>sd_previous_indexes := um_set channel_id block_index (sd_previous_indexes sd)\<rparr>) os
           else Some ([], sd, os));
        (called', sd, os) \<leftarrow>
          (if arena_block_index \<noteq> - 1 then
             sd_ReadArenaMessage vt hash junk channel_id arena_block_index
               (sd\<lparr>sd_arena_previous_indexes := um_set channel_id arena_block_index (sd_arena_previous_indexes sd)\<rparr>) os
           else Some ([], sd, os));
        Some (called @ called', sd, os)
      })"

text \<open>One round of \<^verbatim>\<open>ThreadFunc\<close>; \<open>others\<close> and \<open>stop\<close> are those of the waiting listener.\<close>

definition sd_round ::
  "(nat \<Rightarrow> notifier_os \<Rightarrow> notifier_os) \<Rightarrow> (nat \<Rightarrow> bool) \<Rightarrow> seg_vtable \<Rightarrow> (u8 list \<Rightarrow> u64) \<Rightarrow> u64 \<Rightarrow>
   'cb shm_dispatcher \<Rightarrow> condition_notifier \<Rightarrow> shm_os \<Rightarrow> notifier_os \<Rightarrow>
   ('cb delivery list \<times> 'cb shm_dispatcher \<times> condition_notifier \<times> shm_os \<times> notifier_os) option" where
  "sd_round others stop vt hash junk sd cn os nos =
     (if d_is_shutdown (sd_base sd) then Some ([], sd, cn, os, nos)
      else do {
        (heard, cn, nos) \<leftarrow> cn_Listen others stop 100 cn nos;
        case heard of None \<Rightarrow> Some ([], sd, cn, os, nos)
        | Some i \<Rightarrow> do { (called, sd, os) \<leftarrow> sd_handle vt hash junk i sd os; Some (called, sd, cn, os, nos) }
      })"

end
