(* ===== verification/Shm_Delivery.thy ===== *)
theory Shm_Delivery
  imports Shm_Transport
begin

text \<open>
  A message given to a transmitter arrives. The first part is about names: which region a segment
  maps, which region the key of its channel stands for now, and that a segment whose region has been
  replaced is told so. The second part follows the bytes through the block, the third puts the
  transmitter, the notifier and the dispatcher together.
\<close>

section \<open>Segments and names\<close>

text \<open>What the names and the remap flags of the regions are; everything else of a region may change.\<close>

definition link :: "shm_os \<Rightarrow> nat \<Rightarrow> (bool \<times> u64) option" where
  "link os r = map_option (\<lambda>rg. (ss_need_remap (rg_state rg), ss_ceiling_msg_size (rg_state rg))) (os_regions os r)"

text \<open>What the messages of a region are.\<close>

definition body :: "shm_os \<Rightarrow> nat \<Rightarrow> (memory \<times> block list) option" where
  "body os r = map_option (\<lambda>rg. (rg_mem rg, rg_blocks rg)) (os_regions os r)"

abbreviation seg_key :: "segment \<Rightarrow> u64" where
  "seg_key sg \<equiv> xsi_key (sg_channel_id sg)"

text \<open>A region with a name has not been replaced, and has only one name.\<close>

definition links_cur :: "shm_os \<Rightarrow> bool" where
  "links_cur os =
     ((\<forall>k r. os_names os k = Some r \<longrightarrow> (\<exists>c. link os r = Some (False, c))) \<and>
      (\<forall>k k' r. os_names os k = Some r \<and> os_names os k' = Some r \<longrightarrow> k = k'))"

text \<open>
  An open segment maps the region its key stands for, or an older one of at most the same message
  size, which is marked.
\<close>

definition mapped_ok :: "segment \<Rightarrow> shm_os \<Rightarrow> bool" where
  "mapped_ok sg os = (sg_init sg \<longrightarrow>
     (\<exists>r r' b c c'. sg_state sg = Some r \<and> os_names os (seg_key sg) = Some r' \<and> link os r = Some (b, c) \<and>
        link os r' = Some (False, c') \<and> (r = r' \<or> b) \<and> c \<le> c'))"

definition current :: "segment \<Rightarrow> shm_os \<Rightarrow> bool" where
  "current sg os = (sg_init sg \<and> (\<exists>r. sg_state sg = Some r \<and> os_names os (seg_key sg) = Some r))"

definition evolves :: "shm_os \<Rightarrow> shm_os \<Rightarrow> bool" where
  "evolves os os' = (links_cur os' \<and> (\<forall>sg. mapped_ok sg os \<longrightarrow> mapped_ok sg os'))"

definition same_links :: "shm_os \<Rightarrow> shm_os \<Rightarrow> bool" where
  "same_links os os' = (os_names os' = os_names os \<and> link os' = link os)"

lemma mapped_okI:
  assumes "sg_state sg = Some r" "os_names os (seg_key sg) = Some r'" "link os r = Some (b, c)"
    "link os r' = Some (False, c')" "r = r' \<or> b" "c \<le> c'"
  shows "mapped_ok sg os"
  using assms unfolding mapped_ok_def by blast

lemma mapped_okE:
  assumes "mapped_ok sg os" and "sg_init sg"
  obtains r r' b c c' where "sg_state sg = Some r" "os_names os (seg_key sg) = Some r'" "link os r = Some (b, c)"
    "link os r' = Some (False, c')" "r = r' \<or> b" "c \<le> c'"
  using assms unfolding mapped_ok_def by blast

lemma evolves_refl: "links_cur os \<Longrightarrow> evolves os os"
  by (simp add: evolves_def)

lemma evolves_cur: "evolves os os' \<Longrightarrow> links_cur os'"
  by (simp add: evolves_def)

lemma evolves_trans: "evolves os1 os2 \<Longrightarrow> evolves os2 os3 \<Longrightarrow> evolves os1 os3"
  by (simp add: evolves_def)

lemma evolves_same: "links_cur os \<Longrightarrow> same_links os os' \<Longrightarrow> evolves os os'"
  by (simp add: evolves_def same_links_def links_cur_def mapped_ok_def)

lemma current_same: "current sg os \<Longrightarrow> same_links os os' \<Longrightarrow> current sg os'"
  by (simp add: current_def same_links_def)

lemma same_links_trans: "same_links os1 os2 \<Longrightarrow> same_links os2 os3 \<Longrightarrow> same_links os1 os3"
  by (simp add: same_links_def)

lemma same_links_upd:
  assumes "\<And>rg. ss_need_remap (rg_state (f rg)) = ss_need_remap (rg_state rg)"
    and "\<And>rg. ss_ceiling_msg_size (rg_state (f rg)) = ss_ceiling_msg_size (rg_state rg)"
  shows "same_links os (upd_region r f os)"
  using assms by (auto simp: same_links_def upd_region_def link_def fun_eq_iff option.map_comp comp_def)

lemma current_mapped: "current sg os \<Longrightarrow> links_cur os \<Longrightarrow> mapped_ok sg os"
  by (fastforce simp: current_def links_cur_def mapped_ok_def)

lemma current_not_flagged:
  assumes "current sg os" and "links_cur os" and "sg_state sg = Some r" and "os_regions os r = Some rg"
  shows "\<not> ss_need_remap (rg_state rg)"
  using assms by (fastforce simp: current_def links_cur_def link_def)

section \<open>Opening, remapping and recreating\<close>

lemma attach_links:
  assumes "attach_region szState szBlock r rg sg os = (b, sg', os')"
  shows "b \<and> same_links os os' \<and> body os' = body os \<and> sg_init sg' \<and> sg_state sg' = Some r \<and>
    sg_channel_id sg' = sg_channel_id sg"
proof -
  have "body (upd_region r (\<lambda>rg. rg\<lparr>rg_state := IncreaseReferenceCounts (rg_state rg)\<rparr>) os) = body os"
    by (auto simp: body_def upd_region_def fun_eq_iff option.map_comp comp_def)
  moreover have "same_links os (upd_region r (\<lambda>rg. rg\<lparr>rg_state := IncreaseReferenceCounts (rg_state rg)\<rparr>) os)"
    by (rule same_links_upd) (simp_all add: IncreaseReferenceCounts_def)
  ultimately show ?thesis using assms by (auto simp: attach_region_def Let_def)
qed

lemma open_only_links:
  assumes ok: "os_ok os" and name: "os_names os (seg_key sg) = Some r" and closed: "\<not> sg_init sg"
  shows "\<exists>sg' os'. xsi_OpenOnly szState szBlock env_ok sg os = (True, sg', os') \<and> same_links os os' \<and>
    body os' = body os \<and> current sg' os' \<and> sg_channel_id sg' = sg_channel_id sg"
proof -
  obtain rg where rg: "os_regions os r = Some rg" using ok name unfolding os_ok_def by blast
  obtain b sg' os' where a: "attach_region szState szBlock r rg sg os = (b, sg', os')"
    using prod_cases3 [of "attach_region szState szBlock r rg sg os"] by blast
  note l = attach_links [OF a]
  have "xsi_OpenOnly szState szBlock env_ok sg os = (b, sg', os')"
    using closed name rg a by (simp add: xsi_OpenOnly_def env_ok_def)
  then show ?thesis using l name by (auto simp: current_def same_links_def)
qed

lemma created_links:
  assumes "attach_region szState szBlock (os_next os) rg sg (created s sg os) = (b, sg2, os2)"
  shows "b \<and> same_links (created s sg os) os2 \<and> current sg2 os2 \<and> sg_channel_id sg2 = sg_channel_id sg"
  using attach_links [OF assms] by (auto simp: current_def same_links_def created_def Let_def)

lemma link_created:
  "link (created s sg os) = (link os)(os_next os \<mapsto> (False, ceiling_msg_size (conf_Update s)))"
  "os_names (created s sg os) = (os_names os)(seg_key sg \<mapsto> os_next os)"
  by (auto simp: link_def created_def Let_def new_region_def State_def fun_eq_iff)

lemma os_ok_links:
  assumes "os_ok os"
  shows "link os r = Some x \<Longrightarrow> r < os_next os" "os_names os k = Some r \<Longrightarrow> r < os_next os"
  using assms by (fastforce simp: os_ok_def link_def)+

lemma evolves_create:
  assumes ok: "os_ok os" and cur: "links_cur os" and none: "os_names os (seg_key sg) = None"
  shows "evolves os (created s sg os)"
  unfolding evolves_def
proof (intro conjI allI impI)
  note lt = os_ok_links [OF ok]
  have new: "os_names os k \<noteq> Some (os_next os)" for k using lt(2) by blast
  show "links_cur (created s sg os)"
    using cur new by (auto simp: links_cur_def link_created)
  fix x assume m: "mapped_ok x os"
  show "mapped_ok x (created s sg os)"
  proof (cases "sg_init x")
    case True
    then obtain r r' b c c' where x: "sg_state x = Some r" "os_names os (seg_key x) = Some r'" "link os r = Some (b, c)"
        "link os r' = Some (False, c')" "r = r' \<or> b" "c \<le> c'"
      using mapped_okE [OF m] by blast
    then have "seg_key x \<noteq> seg_key sg" "r \<noteq> os_next os" "r' \<noteq> os_next os" using none lt(1) by auto
    then show ?thesis
      by (intro mapped_okI [of x r _ r' b c c']) (simp_all add: x link_created)
  qed (simp add: mapped_ok_def)
qed

text \<open>Marking the region of a key, removing the name and creating a larger region.\<close>

lemma evolves_recreate:
  assumes ok: "os_ok os" and cur: "links_cur os" and name: "os_names os (seg_key sg) = Some r"
    and sz: "link os r = Some (False, c)" "c \<le> ceiling_msg_size (conf_Update m)"
    and links: "link os2 = (link os)(r \<mapsto> (True, c))" "os_names os2 = (os_names os)(seg_key sg := None)"
      "os_next os2 = os_next os"
  shows "evolves os (created m sg os2)"
  unfolding evolves_def
proof (intro conjI allI impI)
  note lt = os_ok_links [OF ok]
  have new: "os_names os k \<noteq> Some (os_next os)" for k using lt(2) by blast
  have other: "os_names os k = Some r \<longleftrightarrow> k = seg_key sg" for k
    using cur name unfolding links_cur_def by blast
  show "links_cur (created m sg os2)"
    using cur new other by (auto simp: links_cur_def link_created links)
  fix x assume mp: "mapped_ok x os"
  show "mapped_ok x (created m sg os2)"
  proof (cases "sg_init x")
    case True
    then obtain r1 r' b c1 c' where x: "sg_state x = Some r1" "os_names os (seg_key x) = Some r'" "link os r1 = Some (b, c1)"
        "link os r' = Some (False, c')" "r1 = r' \<or> b" "c1 \<le> c'"
      using mapped_okE [OF mp] by blast
    then have fresh: "r1 \<noteq> os_next os" "r' \<noteq> os_next os" "r \<noteq> os_next os" using lt(1) sz(1) by auto
    show ?thesis
    proof (cases "seg_key x = seg_key sg")
      case True
      then have eq: "r' = r" "c' = c" using x name sz(1) by auto
      have "((link os)(r \<mapsto> (True, c))) r1 = Some (True, c1)" using x(3,5) eq sz(1) by auto
      then show ?thesis
        using x(6) sz(2) fresh
        by (intro mapped_okI [of x r1 _ "os_next os" True c1 "ceiling_msg_size (conf_Update m)"])
          (simp_all add: x(1) True eq link_created links)
    next
      case False
      then have r': "r' \<noteq> r" using x(2) other by blast
      obtain b' where "((link os)(r \<mapsto> (True, c))) r1 = Some (b', c1)" "r1 = r' \<or> b'"
        using x(3,5) r' sz(1) by (cases "r1 = r") auto
      then show ?thesis
        using fresh r' False
        by (intro mapped_okI [of x r1 _ r' b' c1 c']) (simp_all add: x link_created links)
    qed
  qed (simp add: mapped_ok_def)
qed

lemma vtable_simps [simp]:
  "vt_OpenOnly (xsi_vtable szState szBlock env) sg os = Some (xsi_OpenOnly szState szBlock env sg os)"
  "vt_OpenOrCreate (xsi_vtable szState szBlock env) sg os = Some (xsi_OpenOrCreate szState szBlock env sg os)"
  "vt_Remove (xsi_vtable szState szBlock env) = xsi_Remove env"
  by (simp_all add: xsi_vtable_def)

lemma open_write_links:
  assumes ok: "os_ok os" and seg: "seg_ok szState szBlock sg os" and cur: "links_cur os" and m: "mapped_ok sg os"
    and op: "seg_open_write (xsi_vtable szState szBlock env_ok) sg os = Some (b, sg1, os1)"
  shows "evolves os os1 \<and> mapped_ok sg1 os1 \<and> sg_channel_id sg1 = sg_channel_id sg"
proof (cases "sg_init sg")
  case True
  then show ?thesis using op m evolves_refl [OF cur] by (simp add: seg_open_write_def)
next
  case False
  then have op': "xsi_OpenOrCreate szState szBlock env_ok sg os = (b, sg1, os1)"
    using op by (simp add: seg_open_write_def)
  show ?thesis
  proof (cases "os_names os (seg_key sg)")
    case None
    obtain s where conf: "sg_conf sg = conf_Update s" using seg by (auto simp: seg_ok_def)
    note c = created_links [OF op' [unfolded xsi_OpenOrCreate_new [OF False None conf]]]
    have e: "evolves os (created s sg os)" by (rule evolves_create [OF ok cur None])
    have e1: "evolves (created s sg os) os1" using evolves_same [OF evolves_cur [OF e]] c by blast
    then have "mapped_ok sg1 os1" using c current_mapped evolves_cur by blast
    then show ?thesis using evolves_trans [OF e e1] c by blast
  next
    case (Some r)
    then have "xsi_OpenOrCreate szState szBlock env_ok sg os = xsi_OpenOnly szState szBlock env_ok sg os"
      using False by (simp add: xsi_OpenOrCreate_def xsi_create_loop.simps env_ok_def)
    then have c: "same_links os os1" "current sg1 os1" "sg_channel_id sg1 = sg_channel_id sg"
      using open_only_links [OF ok Some False, of szState szBlock] op' by auto
    then have "evolves os os1" using evolves_same [OF cur] by blast
    then show ?thesis using c current_mapped evolves_cur by blast
  qed
qed

lemma update_links:
  assumes ok: "os_ok os" and cur: "links_cur os" and m: "mapped_ok sg os" and init: "sg_init sg"
    and up: "seg_update (xsi_vtable szState szBlock env_ok) sg os = Some (b, sg2, os2)"
  shows "b \<and> same_links os os2 \<and> body os2 = body os \<and> current sg2 os2 \<and> sg_channel_id sg2 = sg_channel_id sg"
proof -
  obtain r r' f c c' where x: "sg_state sg = Some r" "os_names os (seg_key sg) = Some r'" "link os r = Some (f, c)"
      "link os r' = Some (False, c')" "r = r' \<or> f" "c \<le> c'"
    using mapped_okE [OF m init] by blast
  obtain rg where rg: "os_regions os r = Some rg" "ss_need_remap (rg_state rg) = f" using x(3) by (auto simp: link_def)
  show ?thesis
  proof (cases f)
    case True
    let ?sg = "seg_Reset (sg\<lparr>sg_init := False\<rparr>)"
    have "xsi_OpenOnly szState szBlock env_ok ?sg os = (b, sg2, os2)"
      using up x(1) rg True by (simp add: seg_update_def seg_Remap_def del: not_None_eq)
    then show ?thesis using open_only_links [OF ok, of ?sg r' szState szBlock] x(2) by auto
  next
    case False
    then have "b \<and> sg2 = sg \<and> os2 = os" using up x(1) rg by (simp add: seg_update_def)
    moreover have "current sg os" using x False init by (auto simp: current_def)
    ultimately show ?thesis by (simp add: same_links_def)
  qed
qed

lemma recreate_links:
  assumes ok: "os_ok os" and seg: "seg_ok szState szBlock sg os" and cur: "links_cur os" and c: "current sg os"
    and big: "ceiling_msg_size (sg_conf sg) < m" "unat m \<le> 33554432"
    and re: "seg_Recreate (xsi_vtable szState szBlock env_ok) m sg os = Some (b, sg3, os3)"
  shows "evolves os os3 \<and> current sg3 os3 \<and> sg_channel_id sg3 = sg_channel_id sg"
proof -
  obtain r where r: "sg_state sg = Some r" "os_names os (seg_key sg) = Some r" using c by (auto simp: current_def)
  obtain rg where rg: "os_regions os r = Some rg" "sg_conf sg = conf_Update (ss_ceiling_msg_size (rg_state rg))"
    using seg c r by (auto simp: seg_ok_def seg_at_def current_def)
  let ?c = "ss_ceiling_msg_size (rg_state rg)"
  have link: "link os r = Some (False, ?c)"
    using rg current_not_flagged [OF c cur r(1) rg(1)] by (simp add: link_def)
  have "ceiling_msg_size (sg_conf sg) = ?c" using ok rg by (auto simp: os_ok_def region_ok_def Let_def)
  then have le: "?c \<le> ceiling_msg_size (conf_Update m)"
    using big ceiling_least [OF big(2)] by (simp add: word_le_nat_alt word_less_nat_alt)
  let ?os1 = "upd_region r (\<lambda>rg. rg\<lparr>rg_state := set_need_remap True (rg_state rg)\<rparr>) os"
  let ?sg1 = "seg_Reset (sg\<lparr>sg_init := False\<rparr>)"
  let ?sg2 = "?sg1\<lparr>sg_conf := conf_Update m\<rparr>"
  let ?os2 = "snd (xsi_Remove env_ok ?sg1 ?os1)"
  have os2: "link ?os2 = (link os)(r \<mapsto> (True, ?c))" "os_names ?os2 = (os_names os)(seg_key ?sg2 := None)"
    "os_next ?os2 = os_next os"
    using rg by (auto simp: xsi_Remove_def Let_def env_ok_def upd_region_def link_def set_need_remap_def fun_eq_iff)
  have "xsi_OpenOrCreate szState szBlock env_ok ?sg2 ?os2 =
    attach_region szState szBlock (os_next ?os2) (new_region (conf_Update m) (managed_shm_size (conf_Update m)))
      ?sg2 (created m ?sg2 ?os2)"
    by (rule xsi_OpenOrCreate_new) (simp_all add: os2(2))
  then have "attach_region szState szBlock (os_next ?os2) (new_region (conf_Update m) (managed_shm_size (conf_Update m)))
      ?sg2 (created m ?sg2 ?os2) = (b, sg3, os3)"
    using re r(1) by (simp add: seg_Recreate_def Let_def)
  note a = created_links [OF this]
  have e: "evolves os (created m ?sg2 ?os2)"
    by (rule evolves_recreate [OF ok cur _ link le os2(1)]) (use r(2) os2 in simp_all)
  have "evolves (created m ?sg2 ?os2) os3" using evolves_same [OF evolves_cur [OF e]] a by blast
  then have "evolves os os3" by (rule evolves_trans [OF e])
  then show ?thesis using a by simp
qed

lemma take_links:
  assumes "take_block sg os = Some (w, sg', os')"
  shows "same_links os os' \<and> sg_init sg' = sg_init sg \<and> sg_state sg' = sg_state sg \<and> sg_channel_id sg' = sg_channel_id sg"
proof -
  obtain i r seq bs where "sg_state sg = Some r"
      "os' = upd_region r (\<lambda>rg. rg\<lparr>rg_state := (rg_state rg)\<lparr>ss_seq := seq\<rparr>, rg_blocks := bs\<rparr>) os"
      "sg' = sg\<lparr>sg_block_buf_addrs := um_touch 0 i (sg_block_buf_addrs sg)\<rparr>"
    using assms by (auto simp: take_block_def GetNextWritableBlockIndex_def bind_eq_Some_conv)
  then show ?thesis using same_links_upd [of "\<lambda>rg. rg\<lparr>rg_state := (rg_state rg)\<lparr>ss_seq := seq\<rparr>, rg_blocks := bs\<rparr>"] by simp
qed

text \<open>
  A block handed out for writing is in the region its key stands for now, and every segment of the
  channel maps that region or is told to.
\<close>

lemma acquire_links:
  assumes ok: "os_ok os" and seg: "seg_ok szState szBlock sg os" and cur: "links_cur os" and m: "mapped_ok sg os"
    and small: "unat sz \<le> 33554432"
    and acq: "AcquireBlockToWrite (xsi_vtable szState szBlock env_ok) sz sg os = Some (Some wb, sg', os')"
  shows "evolves os os' \<and> current sg' os' \<and> sg_channel_id sg' = sg_channel_id sg"
proof -
  let ?vt = "xsi_vtable szState szBlock env_ok"
  obtain sg1 os1 b2 sg2 os2 sg3 os3 where
    1: "seg_open_write ?vt sg os = Some (True, sg1, os1)" and 2: "seg_update ?vt sg1 os1 = Some (b2, sg2, os2)"
    and 3: "seg_fit ?vt sz (b2, sg2, os2) = Some (True, sg3, os3)" and 4: "take_block sg3 os3 = Some (Some wb, sg', os')"
    using acq by (auto simp: AcquireBlockToWrite_def bind_eq_Some_conv split: if_splits)
  have ok1: "os_ok os1 \<and> seg_ok szState szBlock sg1 os1 \<and> sg_init sg1"
    using 1 xsi.open_or_create [OF ok seg] ok seg by (auto simp: seg_open_write_def split: if_splits)
  have l1: "evolves os os1" "mapped_ok sg1 os1" "sg_channel_id sg1 = sg_channel_id sg"
    using open_write_links [OF ok seg cur m 1] by auto
  then have cur1: "links_cur os1" using evolves_cur by blast
  have ok2: "os_ok os2 \<and> seg_ok szState szBlock sg2 os2" using xsi.update [OF _ _ 2] ok1 by blast
  have l2: b2 "same_links os1 os2" "current sg2 os2" "sg_channel_id sg2 = sg_channel_id sg1"
    using update_links [OF _ cur1 l1(2) _ 2] ok1 by auto
  have e2: "evolves os1 os2" by (rule evolves_same [OF cur1 l2(2)])
  then have cur2: "links_cur os2" by (rule evolves_cur)
  have l3: "evolves os2 os3 \<and> current sg3 os3 \<and> sg_channel_id sg3 = sg_channel_id sg2"
  proof (cases "ceiling_msg_size (sg_conf sg2) < sz")
    case True
    then have re: "seg_Recreate ?vt sz sg2 os2 = Some (True, sg3, os3)" using 3 by (simp add: seg_fit_def)
    show ?thesis using recreate_links [OF _ _ cur2 l2(3) True small re] ok2 by blast
  next
    case False
    then show ?thesis using 3 l2(3) evolves_refl [OF cur2] by (simp add: seg_fit_def)
  qed
  note l4 = take_links [OF 4]
  have "evolves os3 os'" using evolves_same [OF evolves_cur] l4 l3 by blast
  then have "evolves os os'" using l1(1) e2 l3 evolves_trans by blast
  moreover have "current sg3 os'" using current_same l3 l4 by blast
  then have "current sg' os'" using l4 by (simp add: current_def)
  ultimately show ?thesis using l1(3) l2(4) l3 l4 by simp
qed

section \<open>Writing a block\<close>

text \<open>The block and the memory that hold a message.\<close>

definition holds_message :: "memory \<times> block list \<Rightarrow> nat \<Rightarrow> nat \<Rightarrow> u8 list \<Rightarrow> message_info \<Rightarrow> bool" where
  "holds_message mb buf i bs info =
     (i < length (snd mb) \<and> blk_lock_num (snd mb ! i) = 0 \<and> unat (blk_msg_size (snd mb ! i)) = length bs \<and>
      unat (blk_msg_info_size (snd mb ! i)) = mi_kSize \<and> mem_read buf (length bs) (fst mb) = bs \<and>
      (\<exists>pad. length pad = 4 \<and> mem_read (buf + length bs) mi_kSize (fst mb) = mi_SerializeTo_string info @ pad))"

lemma holds_written:
  assumes "i < length blks" "mi_ok hash info" "unat sz = length bs"
  shows "holds_message (mem_write (buf + length bs) (mi_SerializeTo_string info) (mem_write buf bs m),
    blks[i := b\<lparr>blk_msg_size := sz, blk_msg_info_size := of_nat mi_kSize, blk_lock_num := 0\<rparr>]) buf i bs info"
proof -
  let ?m = "mem_write (buf + length bs) (mi_SerializeTo_string info) (mem_write buf bs m)"
  note l = length_mi_string [OF assms(2)]
  have "mem_read buf (length bs) ?m = bs" by (simp add: mem_read_write_disjoint)
  moreover have "mem_read (buf + length bs) (40 + 4) ?m =
      mi_SerializeTo_string info @ mem_read (buf + length bs + 40) 4 ?m"
    unfolding mem_read_split by (simp add: l)
  then have "\<exists>pad. length pad = 4 \<and> mem_read (buf + length bs) mi_kSize ?m = mi_SerializeTo_string info @ pad"
    by (intro exI [of _ "mem_read (buf + length bs + 40) 4 ?m"]) (simp add: mi_kSize_def ID_SIZE_def)
  moreover have "unat (of_nat mi_kSize :: u64) = mi_kSize" by (simp add: mi_kSize_def ID_SIZE_def)
  ultimately show ?thesis using assms by (simp add: holds_message_def)
qed

lemma upd_region_Some:
  "os_regions os r = Some rg \<Longrightarrow> upd_region r f os = os\<lparr>os_regions := (os_regions os)(r \<mapsto> f rg)\<rparr>"
  by (simp add: upd_region_def)

lemma ReleaseWrittenBlock_Some:
  assumes "sg_blocks sg = Some (wb_block wb)" "wb_index wb < block_num (sg_conf sg)" "os_regions os (wb_block wb) = Some rg"
  shows "ReleaseWrittenBlock wb sg os = Some (os\<lparr>os_regions := (os_regions os)(wb_block wb \<mapsto>
    rg\<lparr>rg_blocks := (rg_blocks rg)[unat (wb_index wb) := ReleaseWriteLock (rg_blocks rg ! unat (wb_index wb))]\<rparr>)\<rparr>)"
  using assms by (simp add: ReleaseWrittenBlock_def upd_block_def upd_region_Some linorder_not_le)

lemma fill_block_done:
  fixes wb :: writable_block
  defines "i \<equiv> unat (wb_index wb)"
  assumes blk: "sg_blocks sg = Some (wb_block wb)" "wb_index wb < block_num (sg_conf sg)"
    and rg: "os_regions os (wb_block wb) = Some rg" and i: "i < length (rg_blocks rg)" "blk_lock_num (rg_blocks rg ! i) = -1"
    and ser: "mt_SerializeToArray mt msg (ucast (mt_ByteSize mt msg)) = Some bs" "length bs = unat (mt_ByteSize mt msg)"
    and ok: "mi_ok hash info"
  shows "\<exists>os' rg'. fill_block mt msg info wb sg os = Some (True, os') \<and>
    os' = os\<lparr>os_regions := (os_regions os)(wb_block wb \<mapsto> rg')\<rparr> \<and> rg_state rg' = rg_state rg \<and>
    length (rg_blocks rg') = length (rg_blocks rg) \<and> rg_arena_blocks rg' = rg_arena_blocks rg \<and>
    holds_message (rg_mem rg', rg_blocks rg') (unat (wb_buf wb)) i bs info"
proof -
  let ?r = "wb_block wb" and ?sz = "mt_ByteSize mt msg"
  let ?m = "mem_write (unat (wb_buf wb)) bs (rg_mem rg)"
  let ?m' = "mem_write (unat (wb_buf wb) + length bs) (mi_SerializeTo_string info) ?m"
  define rg1 where "rg1 = store_payload wb bs ?sz rg"
  define rg2 where "rg2 = store_info_size wb ?m' rg1"
  define rg3 where "rg3 = rg2\<lparr>rg_blocks := (rg_blocks rg2)[i := ReleaseWriteLock (rg_blocks rg2 ! i)]\<rparr>"
  have ids: "id_ok hash (mi_sender_id info)" "id_ok hash (mi_spare_id info)" using ok by (simp_all add: mi_ok_def)
  have m1: "rg_mem rg1 = ?m" by (simp add: rg1_def store_payload_def Let_def)
  have info: "mi_SerializeTo info (Some (unat (wb_buf wb) + unat ?sz)) mi_kSize (rg_mem rg1) = (True, ?m')"
    unfolding m1 using mi_serialized [OF ids, of mi_kSize "unat (wb_buf wb) + unat ?sz" ?m] ser(2) by simp
  have os1: "upd_region ?r (store_payload wb bs ?sz) os = os\<lparr>os_regions := (os_regions os)(?r \<mapsto> rg1)\<rparr>"
    using rg by (simp add: upd_region_Some rg1_def)
  have os2: "upd_region ?r (store_info_size wb ?m') (os\<lparr>os_regions := (os_regions os)(?r \<mapsto> rg1)\<rparr>) =
      os\<lparr>os_regions := (os_regions os)(?r \<mapsto> rg2)\<rparr>"
    by (simp add: upd_region_Some rg2_def)
  have os3: "ReleaseWrittenBlock wb sg (os\<lparr>os_regions := (os_regions os)(?r \<mapsto> rg2)\<rparr>) =
      Some (os\<lparr>os_regions := (os_regions os)(?r \<mapsto> rg3)\<rparr>)"
    by (subst ReleaseWrittenBlock_Some [OF blk, of _ rg2]) (simp_all add: rg3_def i_def)
  have "fill_block mt msg info wb sg os = Some (True, os\<lparr>os_regions := (os_regions os)(?r \<mapsto> rg3)\<rparr>)"
    by (simp add: fill_block_def Let_def ser(1) os1 info os2 os3)
  moreover have "rg_blocks rg3 = (rg_blocks rg)[i :=
      (rg_blocks rg ! i)\<lparr>blk_msg_size := ?sz, blk_msg_info_size := of_nat mi_kSize, blk_lock_num := 0\<rparr>]"
    using i by (simp add: rg3_def rg2_def rg1_def store_payload_def store_info_size_def Let_def i_def [symmetric]
        ReleaseWriteLock_def)
  moreover have "rg_mem rg3 = ?m'" "rg_state rg3 = rg_state rg" "rg_arena_blocks rg3 = rg_arena_blocks rg"
    by (simp_all add: rg3_def rg2_def rg1_def store_payload_def store_info_size_def Let_def)
  moreover have "holds_message (?m', (rg_blocks rg)[i :=
      (rg_blocks rg ! i)\<lparr>blk_msg_size := ?sz, blk_msg_info_size := of_nat mi_kSize, blk_lock_num := 0\<rparr>])
      (unat (wb_buf wb)) i bs info"
    by (rule holds_written [OF i(1) ok]) (simp add: ser(2))
  ultimately show ?thesis by (intro exI [of _ "os\<lparr>os_regions := (os_regions os)(?r \<mapsto> rg3)\<rparr>"] exI [of _ rg3]) simp
qed

section \<open>Reading a block\<close>

lemma block_num_antitone:
  assumes "ceiling_msg_size (conf_Update a) \<le> ceiling_msg_size (conf_Update b)"
  shows "block_num (conf_Update b) \<le> block_num (conf_Update a)"
  using assms conf_Update_class [of a] conf_Update_class [of b]
  by (auto simp: conf_classes_def word_le_nat_alt)

text \<open>The two first steps of \<^verbatim>\<open>AcquireBlockToRead\<close> bring the segment to the region of its key.\<close>

lemma open_read_links:
  assumes ok: "os_ok os" and cur: "links_cur os" and m: "mapped_ok sg os" and name: "os_names os (seg_key sg) = Some r"
  shows "\<exists>sg1 os1. seg_open_read (xsi_vtable szState szBlock env_ok) sg os = Some (True, sg1, os1) \<and> same_links os os1 \<and>
    body os1 = body os \<and> sg_init sg1 \<and> mapped_ok sg1 os1 \<and> sg_channel_id sg1 = sg_channel_id sg"
proof (cases "sg_init sg")
  case True
  then show ?thesis using m by (simp add: seg_open_read_def same_links_def)
next
  case False
  obtain sg1 os1 where o: "xsi_OpenOnly szState szBlock env_ok sg os = (True, sg1, os1)" "same_links os os1"
      "body os1 = body os" "current sg1 os1" "sg_channel_id sg1 = sg_channel_id sg"
    using open_only_links [OF ok name False] by blast
  then have "mapped_ok sg1 os1" using current_mapped evolves_cur [OF evolves_same [OF cur]] by blast
  moreover have "sg_init sg1" using o(4) by (simp add: current_def)
  ultimately show ?thesis using o False by (simp add: seg_open_read_def)
qed

lemma seg_ok_region:
  assumes "seg_ok szState szBlock sg os" "sg_init sg" "sg_state sg = Some r"
  shows "\<exists>rg. os_regions os r = Some rg \<and> seg_at szState szBlock r rg sg"
proof -
  obtain r' rg where rg: "os_regions os r' = Some rg" "seg_at szState szBlock r' rg sg"
    using assms(1,2) unfolding seg_ok_def by blast
  moreover have "r' = r" using rg(2) assms(3) unfolding seg_at_def by simp
  ultimately show ?thesis by blast
qed

lemma ceiling_link: "os_ok os \<Longrightarrow> link os r = Some (f, c) \<Longrightarrow> ceiling_msg_size (conf_Update c) = c"
proof -
  assume ok: "os_ok os" and link: "link os r = Some (f, c)"
  obtain rg where rg: "os_regions os r = Some rg" "ss_ceiling_msg_size (rg_state rg) = c"
    using link by (cases "os_regions os r") (simp_all add: link_def)
  have "region_ok rg" using ok rg(1) unfolding os_ok_def by blast
  then show ?thesis unfolding region_ok_def Let_def rg(2) by simp
qed

lemma mapped_index:
  assumes ok: "os_ok os" and seg: "seg_ok szState szBlock sg os" and m: "mapped_ok sg os" and init: "sg_init sg"
    and name: "os_names os (seg_key sg) = Some r" and c: "link os r = Some (f, c)" and i: "index < block_num (conf_Update c)"
  shows "index < block_num (sg_conf sg)"
proof -
  obtain r1 r' b1 c1 c' where x: "sg_state sg = Some r1" "os_names os (seg_key sg) = Some r'" "link os r1 = Some (b1, c1)"
      "link os r' = Some (False, c')" "r1 = r' \<or> b1" "c1 \<le> c'"
    using mapped_okE [OF m init] by blast
  then have c': "c' = c" using name c by simp
  obtain rg1 where rg1: "os_regions os r1 = Some rg1" "seg_at szState szBlock r1 rg1 sg"
    using seg_ok_region [OF seg init x(1)] by blast
  then have conf: "sg_conf sg = conf_Update c1" using x(3) by (simp add: link_def seg_at_def)
  have "block_num (conf_Update c) \<le> block_num (conf_Update c1)"
    by (rule block_num_antitone) (simp add: ceiling_link [OF ok x(3)] ceiling_link [OF ok c] x(6) [unfolded c'])
  then show ?thesis using i conf by simp
qed

lemma acquire_read_current:
  assumes ok: "os_ok os" and seg: "seg_ok szState szBlock sg os" and cur: "links_cur os" and m: "mapped_ok sg os"
    and name: "os_names os (seg_key sg) = Some r" and link: "link os r = Some (f, c)" and body: "body os r = Some (mem, blks)"
    and i: "index < block_num (conf_Update c)" "0 \<le> blk_lock_num (blks ! unat index)"
  shows "\<exists>sg' os' rg. AcquireBlockToRead (xsi_vtable szState szBlock env_ok) index sg os =
      Some (Some \<lparr>wb_index = index, wb_block = r, wb_buf = block_buf_offset szState szBlock (conf_Update c) index\<rparr>, sg', os') \<and>
    os_regions os' r = Some rg \<and> rg_mem rg = mem \<and>
    rg_blocks rg = blks[unat index := (blks ! unat index)\<lparr>blk_lock_num := blk_lock_num (blks ! unat index) + 1\<rparr>] \<and>
    sg_blocks sg' = Some r"
proof -
  let ?vt = "xsi_vtable szState szBlock env_ok"
  obtain sg1 os1 where 1: "seg_open_read ?vt sg os = Some (True, sg1, os1)" "same_links os os1" "body os1 = body os"
      "sg_init sg1" "mapped_ok sg1 os1" "sg_channel_id sg1 = sg_channel_id sg"
    using open_read_links [OF ok cur m name] by blast
  have ok1: "os_ok os1" "seg_ok szState szBlock sg1 os1"
    using 1(1) xsi.open_only [OF ok seg] ok seg by (auto simp: seg_open_read_def split: if_splits)
  have cur1: "links_cur os1" using evolves_cur [OF evolves_same [OF cur 1(2)]] .
  have n1: "os_names os1 (seg_key sg1) = Some r" "link os1 r = Some (f, c)"
    using 1(2,6) name link by (simp_all add: same_links_def)
  have idx: "\<not> block_num (sg_conf sg1) \<le> index"
    using mapped_index [OF ok1 1(5,4) n1 i(1)] by (simp add: linorder_not_le)
  obtain r1 where r1: "sg_state sg1 = Some r1" using mapped_okE [OF 1(5,4)] by blast
  then obtain rg1 where "os_regions os1 r1 = Some rg1" using seg_ok_region [OF ok1(2) 1(4)] by blast
  then have "seg_update ?vt sg1 os1 \<noteq> None" using r1 by (simp add: seg_update_def seg_Remap_def del: not_None_eq)
  then obtain b sg2 os2 where 2: "seg_update ?vt sg1 os1 = Some (b, sg2, os2)" by auto
  have u: b "same_links os1 os2" "body os2 = body os1" "current sg2 os2" "sg_channel_id sg2 = sg_channel_id sg1"
    using update_links [OF ok1(1) cur1 1(5,4) 2] by auto
  have ok2: "os_ok os2" "seg_ok szState szBlock sg2 os2" using xsi.update [OF ok1 2 1(4)] by auto
  have "os_names os2 (seg_key sg2) = Some r" using u(2,5) n1 by (simp add: same_links_def)
  then have "sg_init sg2" "sg_state sg2 = Some r" using u(4) by (auto simp: current_def)
  then obtain rg where rg: "os_regions os2 r = Some rg" "seg_at szState szBlock r rg sg2"
    using seg_ok_region [OF ok2(2)] by blast
  have "link os2 r = Some (f, c)" "body os2 r = Some (mem, blks)" using u(2,3) 1(3) n1(2) body by (simp_all add: same_links_def)
  then have eq: "ss_ceiling_msg_size (rg_state rg) = c" "rg_mem rg = mem" "rg_blocks rg = blks"
    using rg(1) by (auto simp: link_def body_def)
  have sg2: "sg_blocks sg2 = Some r" "map_of (sg_block_buf_addrs sg2) index = Some (block_buf_offset szState szBlock (conf_Update c) index)"
    using rg(2) eq(1) i(1) unfolding seg_at_def addrs_ok_def by simp_all
  let ?b = "(blks ! unat index)\<lparr>blk_lock_num := blk_lock_num (blks ! unat index) + 1\<rparr>"
  have lock: "TryLockForRead (rg_blocks rg ! unat index) = (True, ?b)"
    using i(2) eq(3) by (simp add: TryLockForRead_def blk_cas_def Let_def)
  let ?rg = "rg\<lparr>rg_blocks := (rg_blocks rg)[unat index := ?b]\<rparr>"
  let ?os = "os2\<lparr>os_regions := (os_regions os2)(r \<mapsto> ?rg)\<rparr>"
  have acq: "AcquireBlockToRead ?vt index sg os =
      Some (Some \<lparr>wb_index = index, wb_block = r, wb_buf = block_buf_offset szState szBlock (conf_Update c) index\<rparr>, sg2, ?os)"
    using 1(1) idx 2 u(1) sg2 rg(1) lock by (simp add: AcquireBlockToRead_def um_at_def upd_region_Some)
  show ?thesis
    by (rule exI [of _ sg2], rule exI [of _ ?os], rule exI [of _ ?rg], intro conjI, fact acq)
      (simp_all add: sg2(1) eq)
qed

section \<open>From the transmitter to the region\<close>

text \<open>The store after a successful write: every segment can read the message at \<open>index\<close>.\<close>

definition readable :: "u64 \<Rightarrow> u64 \<Rightarrow> u64 \<Rightarrow> u32 \<Rightarrow> u8 list \<Rightarrow> message_info \<Rightarrow> shm_os \<Rightarrow> bool" where
  "readable szState szBlock key index bs info os =
     (\<exists>r f c mb. os_ok os \<and> links_cur os \<and> os_names os key = Some r \<and> link os r = Some (f, c) \<and> body os r = Some mb \<and>
        index < block_num (conf_Update c) \<and>
        holds_message mb (unat (block_buf_offset szState szBlock (conf_Update c) index)) (unat index) bs info)"

lemma os_ok_upd:
  assumes "os_ok os" "os_regions os r = Some rg" "rg_state rg' = rg_state rg" "length (rg_blocks rg') = length (rg_blocks rg)"
    "rg_arena_blocks rg' = rg_arena_blocks rg"
  shows "os_ok (os\<lparr>os_regions := (os_regions os)(r \<mapsto> rg')\<rparr>)" "os_le os (os\<lparr>os_regions := (os_regions os)(r \<mapsto> rg')\<rparr>)"
    "same_links os (os\<lparr>os_regions := (os_regions os)(r \<mapsto> rg')\<rparr>)"
proof -
  have "region_ok rg" "r < os_next os" using assms(1,2) unfolding os_ok_def by blast+
  then have "region_ok rg'" using assms(3-5) by (simp add: region_ok_def)
  then show "os_ok (os\<lparr>os_regions := (os_regions os)(r \<mapsto> rg')\<rparr>)"
    using assms(1) \<open>r < os_next os\<close> by (auto simp: os_ok_def)
  show "os_le os (os\<lparr>os_regions := (os_regions os)(r \<mapsto> rg')\<rparr>)"
    using assms(2,3) by (auto simp: os_le_def)
  show "same_links os (os\<lparr>os_regions := (os_regions os)(r \<mapsto> rg')\<rparr>)"
    using assms(2,3) by (auto simp: same_links_def link_def)
qed

lemma write_message_readable:
  assumes ok: "os_ok os" "seg_ok szState szBlock sg os" "links_cur os" "mapped_ok sg os"
    and small: "unat (mt_ByteSize mt msg) \<le> 33554432"
    and acq: "AcquireBlockToWrite (xsi_vtable szState szBlock env_ok) (mt_ByteSize mt msg) sg os = Some (Some wb, sg1, os1)"
    and ser: "mt_SerializeToArray mt msg (ucast (mt_ByteSize mt msg)) = Some bs" "length bs = unat (mt_ByteSize mt msg)"
    and info: "mi_ok hash info"
  shows "\<exists>os'. write_message mt (xsi_vtable szState szBlock env_ok) msg info sg os = Some (Some (wb_index wb), sg1, os') \<and>
    readable szState szBlock (seg_key sg) (wb_index wb) bs info os' \<and> evolves os os' \<and> os_le os os'"
proof -
  note a = xsi.acquire_write [OF ok(1,2) acq]
  note l = acquire_links [OF ok small acq]
  let ?r = "wb_block wb"
  obtain rg where rg: "os_regions os1 ?r = Some rg" "blk_lock_num (rg_blocks rg ! unat (wb_index wb)) = -1" using a by blast
  have init: "sg_init sg1" and seg1: "seg_ok szState szBlock sg1 os1" using a by blast+
  obtain r where r: "sg_state sg1 = Some r" "os_names os1 (seg_key sg1) = Some r" using l unfolding current_def by blast
  obtain rg' where at: "os_regions os1 r = Some rg'" "seg_at szState szBlock r rg' sg1"
    using seg_ok_region [OF seg1 init r(1)] by blast
  have "sg_blocks sg1 = Some r" using at(2) unfolding seg_at_def by blast
  then have rr: "r = ?r" using a by simp
  then have eq: "rg' = rg" using at(1) rg(1) by simp
  let ?c = "ss_ceiling_msg_size (rg_state rg)"
  have conf: "sg_conf sg1 = conf_Update ?c" using at(2) unfolding eq seg_at_def by blast
  have "region_ok rg" using a rg(1) unfolding os_ok_def by blast
  then have len: "length (rg_blocks rg) = unat (block_num (sg_conf sg1))"
    unfolding conf region_ok_def Let_def by blast
  have i: "unat (wb_index wb) < length (rg_blocks rg)" using a unfolding len word_less_nat_alt by blast
  obtain os' rg2 where fill: "fill_block mt msg info wb sg1 os1 = Some (True, os')"
    and os': "os' = os1\<lparr>os_regions := (os_regions os1)(?r \<mapsto> rg2)\<rparr>" and rg2: "rg_state rg2 = rg_state rg"
      "length (rg_blocks rg2) = length (rg_blocks rg)" "rg_arena_blocks rg2 = rg_arena_blocks rg"
    and h: "holds_message (rg_mem rg2, rg_blocks rg2) (unat (wb_buf wb)) (unat (wb_index wb)) bs info"
    using fill_block_done [of sg1 wb os1 rg mt msg bs hash info] a rg i ser info by blast
  have ok1: "os_ok os1" using a by blast
  note up = os_ok_upd [OF ok1 rg(1) rg2]
  have "links_cur os1" using l evolves_cur by blast
  then have ev: "evolves os1 os'" unfolding os' using evolves_same up(3) by blast
  have "readable szState szBlock (seg_key sg) (wb_index wb) bs info os'"
    unfolding readable_def
  proof (intro exI conjI)
    show "os_ok os'" unfolding os' by (rule up(1))
    show "links_cur os'" using evolves_cur [OF ev] .
    show "os_names os' (seg_key sg) = Some ?r" using r(2) l rr by (simp add: os')
    show "link os' ?r = Some (ss_need_remap (rg_state rg), ?c)" by (simp add: link_def os' rg2(1))
    show "body os' ?r = Some (rg_mem rg2, rg_blocks rg2)" by (simp add: body_def os')
    show "wb_index wb < block_num (conf_Update ?c)" using a conf by simp
    show "holds_message (rg_mem rg2, rg_blocks rg2) (unat (block_buf_offset szState szBlock (conf_Update ?c) (wb_index wb)))
        (unat (wb_index wb)) bs info"
      using h a conf by simp
  qed
  moreover have "write_message mt (xsi_vtable szState szBlock env_ok) msg info sg os = Some (Some (wb_index wb), sg1, os')"
    by (simp add: write_message_def acq fill)
  moreover have "evolves os os'" using l ev evolves_trans by blast
  moreover have "os_le os os'" using a up(2) os_le_trans unfolding os' by blast
  ultimately show ?thesis by blast
qed

section \<open>From the region to the listeners\<close>

lemma read_message_delivers:
  assumes rd: "readable szState szBlock (xsi_key ch) index bs info os" and info: "mi_ok hash info"
    and sg: "map_of (sd_segments sd) ch = Some sg" "sg_channel_id sg = ch" "seg_ok szState szBlock sg os" "mapped_ok sg os"
  shows "\<exists>sd' os'. sd_ReadMessage (xsi_vtable szState szBlock env_ok) hash junk ch index sd os =
      Some (map (\<lambda>cb. (cb, bs, info)) (fst (d_OnMessage ch info (sd_base sd))), sd', os')"
proof -
  let ?vt = "xsi_vtable szState szBlock env_ok"
  obtain r f c mem blks where r: "os_ok os" "links_cur os" "os_names os (xsi_key ch) = Some r" "link os r = Some (f, c)"
      "body os r = Some (mem, blks)" "index < block_num (conf_Update c)"
    and h: "holds_message (mem, blks) (unat (block_buf_offset szState szBlock (conf_Update c) index)) (unat index) bs info"
    using rd unfolding readable_def by (metis surj_pair)
  let ?buf = "unat (block_buf_offset szState szBlock (conf_Update c) index)" and ?b = "blks ! unat index"
  have lock: "0 \<le> blk_lock_num ?b" and i: "unat index < length blks" and sz: "unat (blk_msg_size ?b) = length bs"
      "unat (blk_msg_info_size ?b) = mi_kSize" and bytes: "mem_read ?buf (length bs) mem = bs"
    using h by (simp_all add: holds_message_def)
  obtain pad where pad: "length pad = 4" "mem_read (?buf + length bs) mi_kSize mem = mi_SerializeTo_string info @ pad"
    using h unfolding holds_message_def by auto
  let ?rb = "\<lparr>wb_index = index, wb_block = r, wb_buf = block_buf_offset szState szBlock (conf_Update c) index\<rparr>"
  have name: "os_names os (seg_key sg) = Some r" using r(3) sg(2) by simp
  obtain sg' os' rg where acq: "AcquireBlockToRead ?vt index sg os = Some (Some ?rb, sg', os')"
    and rg: "os_regions os' r = Some rg" "rg_mem rg = mem"
      "rg_blocks rg = blks[unat index := ?b\<lparr>blk_lock_num := blk_lock_num ?b + 1\<rparr>]" and blk: "sg_blocks sg' = Some r"
    using acquire_read_current [OF r(1) sg(3) r(2) sg(4) name r(4,5,6) lock] by blast
  have nth: "rg_blocks rg ! unat index = ?b\<lparr>blk_lock_num := blk_lock_num ?b + 1\<rparr>" using rg(3) i by simp
  obtain os2 where rel: "ReleaseReadBlock ?rb sg' os' = Some os2"
    using blk rg(1) by (cases "block_num (sg_conf sg') \<le> index") (auto simp: ReleaseReadBlock_def upd_block_def)
  note des = mi_Deserialize_padded [OF info pad(1), of "MessageInfo hash junk"]
  show ?thesis
    by (simp add: sd_ReadMessage_def sg(1) acq rg(1,2) nth sz bytes pad(2) des rel sd_OnMessage_def split_beta Let_def)
qed

section \<open>Properties\<close>


lemma links_cur_init: "links_cur os_init"
  by (simp add: links_cur_def os_init_def)


section \<open>Where delivery goes wrong\<close>

text \<open>
  Claim C20. The arena buffers are 1024 bytes and the transmitter writes the 1024 bytes of the wrapper and
  then the message info: the info lands in the buffer of the next arena block, where it replaces
  the first 40 bytes of whatever message that block holds.
\<close>

theorem arena_info_overwrites_next_block:
  assumes "unat szState \<le> 1024" and "unat szBlock \<le> 1024" and "unat i < 511"
    and "wb_buf wb = arena_buf_offset szState szBlock (conf_Update s) i"
    and "os_regions os (wb_block wb) = Some rg" and "length bs = 1024" and "mi_ok hash info"
  shows "\<exists>os' rg'. fill_arena_block bs info wb os = Some (True, os') \<and> os_regions os' (wb_block wb) = Some rg' \<and>
    mem_read (unat (arena_buf_offset szState szBlock (conf_Update s) (i + 1))) 40 (rg_mem rg') = mi_SerializeTo_string info"
proof -
  let ?buf = "unat (wb_buf wb)"
  let ?m = "mem_write ?buf bs (rg_mem rg)"
  let ?m' = "mem_write (?buf + 1024) (mi_SerializeTo_string info) ?m"
  let ?rg = "store_arena_info_size wb ?m' (store_arena_payload wb bs 1024 rg)"
  have "unat (i + 1) = unat i + 1" using assms(3) by (intro unat_plus_one) simp
  then have succ: "unat (arena_buf_offset szState szBlock (conf_Update s) (i + 1)) = ?buf + 1024"
    using unat_arena_buf_offset [OF assms(1,2), of i s] unat_arena_buf_offset [OF assms(1,2), of "i + 1" s] assms(3,4) by simp
  have ids: "id_ok hash (mi_sender_id info)" "id_ok hash (mi_spare_id info)" using assms(7) by (simp_all add: mi_ok_def)
  have os1: "upd_region (wb_block wb) (store_arena_payload wb bs 1024) os =
      os\<lparr>os_regions := (os_regions os)(wb_block wb \<mapsto> store_arena_payload wb bs 1024 rg)\<rparr>"
    by (rule upd_region_Some [OF assms(5)])
  have "fill_arena_block bs info wb os = Some (True, os\<lparr>os_regions := (os_regions os)(wb_block wb \<mapsto> ?rg)\<rparr>)"
    unfolding fill_arena_block_def os1 Let_def
    using mi_serialized [OF ids, of mi_kSize "?buf + 1024" ?m] by (simp add: store_arena_payload_def Let_def upd_region_Some)
  moreover have "mem_read (?buf + 1024) 40 ?m' = mi_SerializeTo_string info"
    using length_mi_string [OF assms(7)] by simp
  ultimately show ?thesis unfolding succ by (simp add: store_arena_info_size_def Let_def)
qed

theorem arena_info_overwrites_next_block_witness:
  "let rg = new_region (conf_Update 16384) 0; hash = (\<lambda>_. 42);
       os = os_init\<lparr>os_regions := [3 \<mapsto> rg]\<rparr>; off = arena_buf_offset 32 24 (conf_Update 16384);
       info = MessageInfo_seq (Identity hash (Some (replicate 16 1))) 9 (Identity hash (Some (replicate 16 2))) 77
   in \<exists>os' rg'. fill_arena_block (replicate 1024 5) info \<lparr>wb_index = 7, wb_block = 3, wb_buf = off 7\<rparr> os = Some (True, os') \<and>
        os_regions os' 3 = Some rg' \<and> mem_read (unat (off 8)) 40 (rg_mem rg') = mi_SerializeTo_string info"
proof -
  let ?hash = "\<lambda>_. 42 :: u64" and ?rg = "new_region (conf_Update 16384) 0" and ?off = "arena_buf_offset 32 24 (conf_Update 16384)"
  let ?info = "MessageInfo_seq (Identity ?hash (Some (replicate 16 1))) 9 (Identity ?hash (Some (replicate 16 2))) 77"
  let ?wb = "\<lparr>wb_index = 7, wb_block = 3, wb_buf = ?off 7\<rparr>" and ?os = "os_init\<lparr>os_regions := [3 \<mapsto> ?rg]\<rparr>"
  have "mi_ok ?hash ?info" by (simp add: mi_ok_def MessageInfo_seq_def id_ok_Identity)
  then have "\<exists>os' rg'. fill_arena_block (replicate 1024 5) ?info ?wb ?os = Some (True, os') \<and>
      os_regions os' (wb_block ?wb) = Some rg' \<and> mem_read (unat (?off (7 + 1))) 40 (rg_mem rg') = mi_SerializeTo_string ?info"
    by (intro arena_info_overwrites_next_block [where rg = ?rg]) simp_all
  then show ?thesis by (simp add: Let_def)
qed

text \<open>
  On a channel with arena messages a reader that is enabled for two senders is called twice
  for every message, and stays connected when both are disabled.
\<close>

lemma arena_listener_called_twice:
  "let sd = sd_AddListener_oppo True ch self s2 cb (sd_AddListener_oppo True ch self s1 cb (ShmDispatcher host));
       sd' = sd_RemoveListener_oppo ch self s2 (sd_RemoveListener_oppo ch self s1 sd)
   in fst (sd_OnArenaMessage ch bs info sd) = [(cb, bs, info), (cb, bs, info)] \<and>
      fst (sd_OnArenaMessage ch bs info sd') = [(cb, bs, info), (cb, bs, info)]"
proof -
  have ok: "ahm_ok (AtomicHashMap 128 :: nat atomic_hash_map)" by (rule ahm_ok_new) simp_all
  note get = ahm_Get_Set [OF ok] ahm_Get_new [of 128]
  have none: "ahm_Get (AtomicHashMap 128 :: nat atomic_hash_map) ch = None" by (rule ahm_Get_new) simp_all
  define h where "h = lh_Connect self (Some cb) (lh_Connect self (Some cb) ListenerHandler)"
  have run: "fst (lh_Run info h) = [cb, cb]"
    by (simp add: h_def lh_Connect_eq si_Connect_def ListenerHandler_def Signal_def lh_Run_def si_call_def sl_call_def
        Slot_def Let_def)
  let ?d = "d_AddListener 0 ch self cb (d_AddListener 0 ch self cb Dispatcher)"
  have d: "?d = \<lparr>d_is_shutdown = False, d_msg_listeners = ahm_Set ch 0 (AtomicHashMap 128), d_handlers = [(0, h)]\<rparr>"
    by (simp add: d_AddListener_def d_handler_for_def Dispatcher_def none get upd_handler_def h_def)
  have called: "fst (d_OnMessage ch info ?d) = [cb, cb]"
    unfolding d using run by (simp add: d_OnMessage_def get split_beta)
  have base: "\<not> d_is_shutdown (Dispatcher :: 'a dispatcher)" "\<And>x. ahm_Get (d_msg_listeners (Dispatcher :: 'a dispatcher)) x = None"
    using ahm_Get_new [of 128] by (simp_all add: Dispatcher_def)
  show ?thesis
    using called base
    by (simp add: Let_def sd_AddListener_oppo_def sd_AddArenaListener_oppo_def sd_AddSegment_def ShmDispatcher_def
        sd_OnArenaMessage_def sd_RemoveListener_oppo_def d_RemoveListener_oppo_def split_beta)
qed

end
