(* ===== verification/Topo_Warehouse.thy ===== *)
theory Topo_Warehouse
  imports Cyber_Prelude "HOL-Library.Multiset"
begin

text \<open>
  Roles of the topology (\<^verbatim>\<open>service_discovery/role\<close>) and the two containers that hold them
  (\<^verbatim>\<open>service_discovery/container\<close>): \<^verbatim>\<open>SingleValueWarehouse\<close> keeps one role per key and
  \<^verbatim>\<open>MultiValueWarehouse\<close> any number.

  A warehouse is seen as the multiset of its pairs of key and role. The locale \<open>warehouse\<close> states
  what both classes promise about it, the locale \<open>single_warehouse\<close> adds that keys are unique, and
  both are interpreted below. A role is not changed after it is stored, so shared pointers to roles
  are modelled by the roles.
\<close>

section \<open>Roles\<close>

text \<open>
  The optional fields of the protobuf message \<^verbatim>\<open>RoleAttributes\<close>; the fields for quality of service
  and socket addresses are not read by the service discovery and left out.
\<close>

record role_attributes =
  ra_host_name :: "string option"
  ra_host_ip :: "string option"
  ra_process_id :: "int option"
  ra_node_name :: "string option"
  ra_node_id :: "u64 option"
  ra_channel_name :: "string option"
  ra_channel_id :: "u64 option"
  ra_message_type :: "string option"
  ra_proto_desc :: "string option"
  ra_id :: "u64 option"
  ra_service_name :: "string option"
  ra_service_id :: "u64 option"

definition RoleAttributes :: role_attributes where
  "RoleAttributes = \<lparr>ra_host_name = None, ra_host_ip = None, ra_process_id = None, ra_node_name = None, ra_node_id = None,
     ra_channel_name = None, ra_channel_id = None, ra_message_type = None, ra_proto_desc = None, ra_id = None,
     ra_service_name = None, ra_service_id = None\<rparr>"

text \<open>Reading a field that is not set gives its default.\<close>

definition u64_of :: "u64 option \<Rightarrow> u64" where
  "u64_of x = (case x of None \<Rightarrow> 0 | Some v \<Rightarrow> v)"

definition int_of :: "int option \<Rightarrow> int" where
  "int_of x = (case x of None \<Rightarrow> 0 | Some v \<Rightarrow> v)"

definition str_of :: "string option \<Rightarrow> string" where
  "str_of x = (case x of None \<Rightarrow> '''' | Some v \<Rightarrow> v)"

lemma of_Some [simp]: "u64_of (Some a) = a" "int_of (Some b) = b" "str_of (Some c) = c"
  by (simp_all add: u64_of_def int_of_def str_of_def)

datatype role_class = RoleBaseClass | RoleWriterClass | RoleServerClass

record role =
  r_class :: role_class
  r_attributes :: role_attributes
  r_timestamp_ns :: u64

definition RoleBase :: "role_attributes \<Rightarrow> u64 \<Rightarrow> role" where
  "RoleBase attr ts = \<lparr>r_class = RoleBaseClass, r_attributes = attr, r_timestamp_ns = ts\<rparr>"

definition RoleWriter :: "role_attributes \<Rightarrow> u64 \<Rightarrow> role" where
  "RoleWriter attr ts = \<lparr>r_class = RoleWriterClass, r_attributes = attr, r_timestamp_ns = ts\<rparr>"

definition RoleServer :: "role_attributes \<Rightarrow> u64 \<Rightarrow> role" where
  "RoleServer attr ts = \<lparr>r_class = RoleServerClass, r_attributes = attr, r_timestamp_ns = ts\<rparr>"

definition base_Match :: "role_attributes \<Rightarrow> role_attributes \<Rightarrow> bool" where
  "base_Match attr target =
     (if ra_node_id target \<noteq> None \<and> u64_of (ra_node_id target) \<noteq> u64_of (ra_node_id attr) then False
      else if ra_process_id target \<noteq> None \<and> int_of (ra_process_id target) \<noteq> int_of (ra_process_id attr) then False
      else if ra_host_name target \<noteq> None \<and> str_of (ra_host_name target) \<noteq> str_of (ra_host_name attr) then False
      else True)"

definition writer_Match :: "role_attributes \<Rightarrow> role_attributes \<Rightarrow> bool" where
  "writer_Match attr target =
     (if ra_channel_id target \<noteq> None \<and> u64_of (ra_channel_id target) \<noteq> u64_of (ra_channel_id attr) then False
      else if ra_id target \<noteq> None \<and> u64_of (ra_id target) \<noteq> u64_of (ra_id attr) then False
      else base_Match attr target)"

definition server_Match :: "role_attributes \<Rightarrow> role_attributes \<Rightarrow> bool" where
  "server_Match attr target =
     (if ra_service_id target \<noteq> None \<and> u64_of (ra_service_id target) \<noteq> u64_of (ra_service_id attr) then False
      else base_Match attr target)"

text \<open>The virtual call.\<close>

definition r_Match :: "role \<Rightarrow> role_attributes \<Rightarrow> bool" where
  "r_Match r target = (case r_class r of RoleBaseClass \<Rightarrow> base_Match (r_attributes r) target
     | RoleWriterClass \<Rightarrow> writer_Match (r_attributes r) target
     | RoleServerClass \<Rightarrow> server_Match (r_attributes r) target)"

definition IsEarlierThan :: "role \<Rightarrow> role \<Rightarrow> bool" where
  "IsEarlierThan r other = (r_timestamp_ns r < r_timestamp_ns other)"

lemmas match_defs = r_Match_def base_Match_def writer_Match_def server_Match_def

lemma Match_refl [simp]: "r_Match r (r_attributes r)"
  by (simp add: match_defs split: role_class.split)

lemma Match_base: "r_Match r t \<Longrightarrow> base_Match (r_attributes r) t"
  by (auto simp: match_defs split: role_class.splits if_splits)

text \<open>The attributes of a process, and the roles of a process.\<close>

definition process_attr :: "string \<Rightarrow> int \<Rightarrow> role_attributes" where
  "process_attr host pid = RoleAttributes\<lparr>ra_host_name := Some host, ra_process_id := Some pid\<rparr>"

definition of_process :: "string \<Rightarrow> int \<Rightarrow> role \<Rightarrow> bool" where
  "of_process host pid r \<longleftrightarrow> str_of (ra_host_name (r_attributes r)) = host \<and> int_of (ra_process_id (r_attributes r)) = pid"

lemma Match_process: "r_Match r (process_attr host pid) \<longleftrightarrow> of_process host pid r"
  by (auto simp: match_defs process_attr_def RoleAttributes_def of_process_def split: role_class.split)

text \<open>A role that names its host and process is only matched by roles of the same process.\<close>

definition located :: "role \<Rightarrow> bool" where
  "located r \<longleftrightarrow> ra_host_name (r_attributes r) \<noteq> None \<and> ra_process_id (r_attributes r) \<noteq> None"

lemma Match_located: "located r \<Longrightarrow> r_Match r' (r_attributes r) \<Longrightarrow> of_process host pid r' \<longleftrightarrow> of_process host pid r"
  by (auto dest!: Match_base simp: located_def base_Match_def of_process_def split: if_splits)

section \<open>SingleValueWarehouse\<close>

type_synonym single_map = "(u64, role) umap"

definition sw_Add :: "u64 \<Rightarrow> role \<Rightarrow> bool \<Rightarrow> single_map \<Rightarrow> bool \<times> single_map" where
  "sw_Add key r ignore_if_exist w =
     (if \<not> ignore_if_exist \<and> map_of w key \<noteq> None then (False, w) else (True, um_set key r w))"

definition sw_Clear :: "single_map \<Rightarrow> single_map" where
  "sw_Clear w = []"

definition sw_Size :: "single_map \<Rightarrow> nat" where
  "sw_Size w = length w"

definition sw_Remove :: "u64 \<Rightarrow> single_map \<Rightarrow> single_map" where
  "sw_Remove key w = um_erase key w"

definition sw_Remove_role :: "u64 \<Rightarrow> role \<Rightarrow> single_map \<Rightarrow> single_map" where
  "sw_Remove_role key r w =
     (case map_of w key of None \<Rightarrow> w
      | Some found \<Rightarrow> if \<not> r_Match found (r_attributes r) then w else um_erase key w)"

definition sw_Remove_attr :: "role_attributes \<Rightarrow> single_map \<Rightarrow> single_map" where
  "sw_Remove_attr target w = filter (\<lambda>item. \<not> r_Match (snd item) target) w"

definition sw_Search_role :: "u64 \<Rightarrow> single_map \<Rightarrow> role option" where
  "sw_Search_role key w = map_of w key"

definition sw_Search :: "u64 \<Rightarrow> single_map \<Rightarrow> bool" where
  "sw_Search key w = (sw_Search_role key w \<noteq> None)"

definition sw_Search_attr :: "u64 \<Rightarrow> single_map \<Rightarrow> role_attributes option" where
  "sw_Search_attr key w = map_option r_attributes (sw_Search_role key w)"

definition sw_Search_roles :: "u64 \<Rightarrow> role list \<Rightarrow> single_map \<Rightarrow> bool \<times> role list" where
  "sw_Search_roles key matched w = (case sw_Search_role key w of None \<Rightarrow> (False, matched) | Some r \<Rightarrow> (True, matched @ [r]))"

definition sw_Search_attrs :: "u64 \<Rightarrow> role_attributes list \<Rightarrow> single_map \<Rightarrow> bool \<times> role_attributes list" where
  "sw_Search_attrs key matched w =
     (case sw_Search_role key w of None \<Rightarrow> (False, matched) | Some r \<Rightarrow> (True, matched @ [r_attributes r]))"

definition sw_Match_role :: "role_attributes \<Rightarrow> single_map \<Rightarrow> role option" where
  "sw_Match_role target w = map_option snd (find (\<lambda>item. r_Match (snd item) target) w)"

definition sw_Match :: "role_attributes \<Rightarrow> single_map \<Rightarrow> bool" where
  "sw_Match target w = (sw_Match_role target w \<noteq> None)"

definition sw_Match_attr :: "role_attributes \<Rightarrow> single_map \<Rightarrow> role_attributes option" where
  "sw_Match_attr target w = map_option r_attributes (sw_Match_role target w)"

definition sw_Match_roles :: "role_attributes \<Rightarrow> role list \<Rightarrow> single_map \<Rightarrow> bool \<times> role list" where
  "sw_Match_roles target matched w =
     fold (\<lambda>item (found, rs). if r_Match (snd item) target then (True, rs @ [snd item]) else (found, rs)) w (False, matched)"

definition sw_Match_attrs :: "role_attributes \<Rightarrow> role_attributes list \<Rightarrow> single_map \<Rightarrow> bool \<times> role_attributes list" where
  "sw_Match_attrs target matched w =
     fold (\<lambda>item (found, rs). if r_Match (snd item) target then (True, rs @ [r_attributes (snd item)]) else (found, rs)) w (False, matched)"

definition sw_GetAllRoles :: "role list \<Rightarrow> single_map \<Rightarrow> role list" where
  "sw_GetAllRoles roles w = roles @ map snd w"

definition sw_GetAllRoles_attr :: "role_attributes list \<Rightarrow> single_map \<Rightarrow> role_attributes list" where
  "sw_GetAllRoles_attr roles w = roles @ map (\<lambda>item. r_attributes (snd item)) w"

section \<open>MultiValueWarehouse\<close>

text \<open>The pairs of an \<^verbatim>\<open>unordered_multimap\<close>; searching a key gives one of its roles.\<close>

type_synonym multi_map = "(u64 \<times> role) list"

definition mw_Add :: "u64 \<Rightarrow> role \<Rightarrow> bool \<Rightarrow> multi_map \<Rightarrow> bool \<times> multi_map" where
  "mw_Add key r ignore_if_exist w =
     (if \<not> ignore_if_exist \<and> map_of w key \<noteq> None then (False, w) else (True, w @ [(key, r)]))"

definition mw_Clear :: "multi_map \<Rightarrow> multi_map" where
  "mw_Clear w = []"

definition mw_Size :: "multi_map \<Rightarrow> nat" where
  "mw_Size w = length w"

definition mw_Remove :: "u64 \<Rightarrow> multi_map \<Rightarrow> multi_map" where
  "mw_Remove key w = filter (\<lambda>item. fst item \<noteq> key) w"

definition mw_Remove_role :: "u64 \<Rightarrow> role \<Rightarrow> multi_map \<Rightarrow> multi_map" where
  "mw_Remove_role key r w = filter (\<lambda>item. \<not> (fst item = key \<and> r_Match (snd item) (r_attributes r))) w"

definition mw_Remove_attr :: "role_attributes \<Rightarrow> multi_map \<Rightarrow> multi_map" where
  "mw_Remove_attr target w = filter (\<lambda>item. \<not> r_Match (snd item) target) w"

definition mw_Search_role :: "u64 \<Rightarrow> multi_map \<Rightarrow> role option" where
  "mw_Search_role key w = map_of w key"

definition mw_Search :: "u64 \<Rightarrow> multi_map \<Rightarrow> bool" where
  "mw_Search key w = (mw_Search_role key w \<noteq> None)"

definition mw_Search_attr :: "u64 \<Rightarrow> multi_map \<Rightarrow> role_attributes option" where
  "mw_Search_attr key w = map_option r_attributes (mw_Search_role key w)"

definition mw_Search_roles :: "u64 \<Rightarrow> role list \<Rightarrow> multi_map \<Rightarrow> bool \<times> role list" where
  "mw_Search_roles key matched w =
     (let range = filter (\<lambda>item. fst item = key) w in (range \<noteq> [], matched @ map snd range))"

definition mw_Search_attrs :: "u64 \<Rightarrow> role_attributes list \<Rightarrow> multi_map \<Rightarrow> bool \<times> role_attributes list" where
  "mw_Search_attrs key matched w =
     (let range = filter (\<lambda>item. fst item = key) w in (range \<noteq> [], matched @ map (\<lambda>item. r_attributes (snd item)) range))"

definition mw_Match_role :: "role_attributes \<Rightarrow> multi_map \<Rightarrow> role option" where
  "mw_Match_role target w = map_option snd (find (\<lambda>item. r_Match (snd item) target) w)"

definition mw_Match :: "role_attributes \<Rightarrow> multi_map \<Rightarrow> bool" where
  "mw_Match target w = (mw_Match_role target w \<noteq> None)"

definition mw_Match_attr :: "role_attributes \<Rightarrow> multi_map \<Rightarrow> role_attributes option" where
  "mw_Match_attr target w = map_option r_attributes (mw_Match_role target w)"

definition mw_Match_roles :: "role_attributes \<Rightarrow> role list \<Rightarrow> multi_map \<Rightarrow> bool \<times> role list" where
  "mw_Match_roles target matched w =
     fold (\<lambda>item (found, rs). if r_Match (snd item) target then (True, rs @ [snd item]) else (found, rs)) w (False, matched)"

definition mw_Match_attrs :: "role_attributes \<Rightarrow> role_attributes list \<Rightarrow> multi_map \<Rightarrow> bool \<times> role_attributes list" where
  "mw_Match_attrs target matched w =
     fold (\<lambda>item (found, rs). if r_Match (snd item) target then (True, rs @ [r_attributes (snd item)]) else (found, rs)) w (False, matched)"

definition mw_GetAllRoles :: "role list \<Rightarrow> multi_map \<Rightarrow> role list" where
  "mw_GetAllRoles roles w = roles @ map snd w"

definition mw_GetAllRoles_attr :: "role_attributes list \<Rightarrow> multi_map \<Rightarrow> role_attributes list" where
  "mw_GetAllRoles_attr roles w = roles @ map (\<lambda>item. r_attributes (snd item)) w"

section \<open>What a warehouse promises\<close>

locale warehouse =
  fixes contents :: "'w \<Rightarrow> (u64 \<times> role) multiset"
    and add :: "u64 \<Rightarrow> role \<Rightarrow> bool \<Rightarrow> 'w \<Rightarrow> bool \<times> 'w"
    and remove_key :: "u64 \<Rightarrow> 'w \<Rightarrow> 'w"
    and remove_role :: "u64 \<Rightarrow> role \<Rightarrow> 'w \<Rightarrow> 'w"
    and remove_attr :: "role_attributes \<Rightarrow> 'w \<Rightarrow> 'w"
    and search :: "u64 \<Rightarrow> 'w \<Rightarrow> role option"
    and match_roles :: "role_attributes \<Rightarrow> role list \<Rightarrow> 'w \<Rightarrow> bool \<times> role list"
    and invar :: "'w \<Rightarrow> bool"
  assumes add_new: "invar w \<Longrightarrow> search k w = None \<Longrightarrow>
      fst (add k r ig w) \<and> contents (snd (add k r ig w)) = add_mset (k, r) (contents w)"
    and add_refused: "invar w \<Longrightarrow> search k w \<noteq> None \<Longrightarrow> add k r False w = (False, w)"
    and add_ignore: "invar w \<Longrightarrow> fst (add k r True w) \<and> (k, r) \<in># contents (snd (add k r True w)) \<and>
      filter_mset (\<lambda>x. fst x \<noteq> k) (contents (snd (add k r True w))) = filter_mset (\<lambda>x. fst x \<noteq> k) (contents w)"
    and remove_key_contents: "invar w \<Longrightarrow> contents (remove_key k w) = filter_mset (\<lambda>x. fst x \<noteq> k) (contents w)"
    and remove_role_contents: "invar w \<Longrightarrow>
      contents (remove_role k r w) = filter_mset (\<lambda>x. \<not> (fst x = k \<and> r_Match (snd x) (r_attributes r))) (contents w)"
    and remove_attr_contents: "invar w \<Longrightarrow> contents (remove_attr t w) = filter_mset (\<lambda>x. \<not> r_Match (snd x) t) (contents w)"
    and search_absent: "invar w \<Longrightarrow> search k w = None \<longleftrightarrow> k \<notin> fst ` set_mset (contents w)"
    and search_found: "invar w \<Longrightarrow> search k w = Some r \<Longrightarrow> (k, r) \<in># contents w"
    and match_roles_contents: "invar w \<Longrightarrow>
      mset (snd (match_roles t rs w)) = mset rs + image_mset snd (filter_mset (\<lambda>x. r_Match (snd x) t) (contents w))"
    and match_roles_found: "invar w \<Longrightarrow> fst (match_roles t rs w) \<longleftrightarrow> (\<exists>x \<in># contents w. r_Match (snd x) t)"
    and invar_add: "invar w \<Longrightarrow> invar (snd (add k r ig w))"
    and invar_remove: "invar w \<Longrightarrow> invar (remove_key k w)" "invar w \<Longrightarrow> invar (remove_role k r w)" "invar w \<Longrightarrow> invar (remove_attr t w)"
begin

lemma add_then_remove:
  assumes "invar w" and "search k w = None"
  shows "contents (remove_role k r (snd (add k r ig w))) = contents w"
proof -
  have "contents (remove_role k r (snd (add k r ig w))) =
      filter_mset (\<lambda>x. \<not> (fst x = k \<and> r_Match (snd x) (r_attributes r))) (add_mset (k, r) (contents w))"
    using assms by (simp add: remove_role_contents invar_add add_new)
  also have "\<dots> = filter_mset (\<lambda>x. \<not> (fst x = k \<and> r_Match (snd x) (r_attributes r))) (contents w)" by simp
  also have "\<dots> = contents w"
    using search_absent [OF assms(1), of k] assms(2) by (intro filter_mset_eq_conv [THEN iffD2]) auto
  finally show ?thesis .
qed

lemma remove_many:
  assumes "invar w"
  shows "invar (fold (\<lambda>r. remove_role (key r) r) rs w) \<and>
    contents (fold (\<lambda>r. remove_role (key r) r) rs w) =
      filter_mset (\<lambda>x. \<not> (\<exists>r \<in> set rs. fst x = key r \<and> r_Match (snd x) (r_attributes r))) (contents w)"
  using assms
proof (induction rs arbitrary: w)
  case (Cons r rs)
  have "invar (remove_role (key r) r w)" using Cons.prems by (rule invar_remove)
  from Cons.IH [OF this] show ?case
    by (simp add: remove_role_contents [OF Cons.prems] filter_filter_mset)
qed simp

text \<open>Removing what a search for a process finds removes exactly the roles of the process.\<close>

lemma purge_process:
  assumes "invar w" and "\<And>x. x \<in># contents w \<Longrightarrow> fst x = key (snd x) \<and> located (snd x)"
  shows "contents (fold (\<lambda>r. remove_role (key r) r) (snd (match_roles (process_attr host pid) [] w)) w) =
    filter_mset (\<lambda>x. \<not> of_process host pid (snd x)) (contents w)"
proof -
  let ?rs = "snd (match_roles (process_attr host pid) [] w)"
  have "set_mset (mset ?rs) = snd ` {x. x \<in># contents w \<and> of_process host pid (snd x)}"
    unfolding match_roles_contents [OF assms(1)] by (auto simp: Match_process)
  then have rs: "set ?rs = snd ` {x. x \<in># contents w \<and> of_process host pid (snd x)}" by simp
  have "(\<exists>r \<in> set ?rs. fst x = key r \<and> r_Match (snd x) (r_attributes r)) \<longleftrightarrow> of_process host pid (snd x)" if "x \<in># contents w" for x
  proof
    assume "\<exists>r \<in> set ?rs. fst x = key r \<and> r_Match (snd x) (r_attributes r)"
    then obtain y where y: "y \<in># contents w" "of_process host pid (snd y)" "r_Match (snd x) (r_attributes (snd y))"
      by (auto simp: rs)
    then show "of_process host pid (snd x)" using assms(2) [OF y(1)] Match_located by blast
  next
    assume "of_process host pid (snd x)"
    then show "\<exists>r \<in> set ?rs. fst x = key r \<and> r_Match (snd x) (r_attributes r)"
      using that assms(2) [OF that] by (intro bexI [of _ "snd x"]) (auto simp: rs)
  qed
  then show ?thesis using remove_many [OF assms(1), of key ?rs] by (simp cong: filter_mset_cong)
qed

end

locale single_warehouse = warehouse +
  assumes unique_keys: "invar w \<Longrightarrow> (k, r) \<in># contents w \<Longrightarrow> (k, r') \<in># contents w \<Longrightarrow> r = r'"
begin

lemma remove_keys:
  assumes "invar w"
  shows "invar (fold (\<lambda>r. remove_key (key r)) rs w) \<and>
    contents (fold (\<lambda>r. remove_key (key r)) rs w) = filter_mset (\<lambda>x. fst x \<notin> key ` set rs) (contents w)"
  using assms
proof (induction rs arbitrary: w)
  case (Cons r rs)
  have "invar (remove_key (key r) w)" using Cons.prems by (rule invar_remove)
  from Cons.IH [OF this] show ?case
    by (simp add: remove_key_contents [OF Cons.prems] filter_filter_mset)
qed simp

lemma purge_process_keys:
  assumes "invar w" and "\<And>x. x \<in># contents w \<Longrightarrow> fst x = key (snd x)"
  shows "contents (fold (\<lambda>r. remove_key (key r)) (snd (match_roles (process_attr host pid) [] w)) w) =
    filter_mset (\<lambda>x. \<not> of_process host pid (snd x)) (contents w)"
proof -
  let ?rs = "snd (match_roles (process_attr host pid) [] w)"
  have "set_mset (mset ?rs) = snd ` {x. x \<in># contents w \<and> of_process host pid (snd x)}"
    unfolding match_roles_contents [OF assms(1)] by (auto simp: Match_process)
  then have rs: "set ?rs = snd ` {x. x \<in># contents w \<and> of_process host pid (snd x)}" by simp
  have "fst x \<in> key ` set ?rs \<longleftrightarrow> of_process host pid (snd x)" if x: "x \<in># contents w" for x
  proof
    assume "fst x \<in> key ` set ?rs"
    then obtain y where y: "y \<in># contents w" "of_process host pid (snd y)" "fst x = key (snd y)" by (auto simp: rs)
    then have "fst y = fst x" using assms(2) by simp
    then have "snd y = snd x" using unique_keys [OF assms(1), of "fst x" "snd y" "snd x"] x y(1) by (metis prod.collapse)
    then show "of_process host pid (snd x)" using y(2) by simp
  next
    assume "of_process host pid (snd x)"
    then show "fst x \<in> key ` set ?rs" using x assms(2) [OF x] by (auto simp: rs)
  qed
  then show ?thesis using remove_keys [OF assms(1), of key ?rs] by (simp cong: filter_mset_cong)
qed

end

section \<open>The two classes keep the promises\<close>

lemma match_fold:
  "fold (\<lambda>item (found, rs). if P item then (True, rs @ [f item]) else (found, rs)) w (b, rs) =
     (b \<or> list_ex P w, rs @ map f (filter P w))"
  by (induction w arbitrary: b rs) auto

lemma um_set_absent: "map_of w k = None \<Longrightarrow> um_set k r w = w @ [(k, r)]"
  by (induction w) auto

lemma um_erase_filter: "um_erase k w = filter (\<lambda>x. fst x \<noteq> k) w"
  by (induction w) auto

lemma um_set_others: "filter (\<lambda>x. fst x \<noteq> k) (um_set k r w) = filter (\<lambda>x. fst x \<noteq> k) w"
  by (induction w) auto

lemma sw_Remove_role_filter:
  assumes "um_wf w"
  shows "sw_Remove_role k r w = filter (\<lambda>x. \<not> (fst x = k \<and> r_Match (snd x) (r_attributes r))) w"
proof (cases "map_of w k")
  case None
  then have "\<forall>x \<in> set w. fst x \<noteq> k" by (auto simp: map_of_eq_None_iff)
  then have "filter (\<lambda>x. \<not> (fst x = k \<and> r_Match (snd x) (r_attributes r))) w = w" by (intro filter_True) auto
  then show ?thesis using None by (simp add: sw_Remove_role_def)
next
  case (Some found)
  have uniq: "x \<in> set w \<Longrightarrow> fst x = k \<Longrightarrow> snd x = found" for x
    using Some assms by (metis map_of_eq_Some_iff option.inject prod.collapse)
  show ?thesis
  proof (cases "r_Match found (r_attributes r)")
    case True
    have "filter (\<lambda>x. fst x \<noteq> k) w = filter (\<lambda>x. \<not> (fst x = k \<and> r_Match (snd x) (r_attributes r))) w"
      using uniq True by (intro filter_cong) auto
    then show ?thesis using Some True by (simp add: sw_Remove_role_def um_erase_filter)
  next
    case False
    have "filter (\<lambda>x. \<not> (fst x = k \<and> r_Match (snd x) (r_attributes r))) w = w"
      using uniq False by (intro filter_True) auto
    then show ?thesis using Some False by (simp add: sw_Remove_role_def)
  qed
qed

interpretation swh: single_warehouse mset sw_Add sw_Remove sw_Remove_role sw_Remove_attr sw_Search_role sw_Match_roles um_wf
proof (unfold_locales, goal_cases)
  case (1 w k r ig)
  then show ?case by (simp add: sw_Add_def sw_Search_role_def um_set_absent)
next
  case (2 w k r)
  then show ?case by (simp add: sw_Add_def sw_Search_role_def)
next
  case (3 w k r)
  have "map_of (um_set k r w) k = Some r" by simp
  then have "(k, r) \<in> set (um_set k r w)" by (rule map_of_SomeD)
  moreover have "mset (filter (\<lambda>x. fst x \<noteq> k) (um_set k r w)) = mset (filter (\<lambda>x. fst x \<noteq> k) w)"
    by (simp only: um_set_others)
  ultimately show ?case by (simp add: sw_Add_def)
next
  case (4 w k)
  then show ?case by (simp add: sw_Remove_def um_erase_filter)
next
  case (5 w k r)
  then show ?case by (simp add: sw_Remove_role_filter)
next
  case (6 w t)
  then show ?case by (simp add: sw_Remove_attr_def)
next
  case (7 w k)
  then show ?case by (simp add: sw_Search_role_def map_of_eq_None_iff)
next
  case (8 w k r)
  then show ?case using map_of_SomeD unfolding sw_Search_role_def set_mset_mset by fast
next
  case (9 w t rs)
  then show ?case by (simp add: sw_Match_roles_def match_fold)
next
  case (10 w t rs)
  then show ?case by (simp add: sw_Match_roles_def match_fold list_ex_iff)
next
  case (11 w k r ig)
  then show ?case by (simp add: sw_Add_def)
next
  case (12 w k)
  then show ?case by (simp add: sw_Remove_def)
next
  case (13 w k r)
  then show ?case by (simp add: sw_Remove_role_filter distinct_map_filter)
next
  case (14 w t)
  then show ?case by (simp add: sw_Remove_attr_def distinct_map_filter)
next
  case (15 w k r r')
  then show ?case by (metis map_of_eq_Some_iff option.inject set_mset_mset)
qed

interpretation mwh: warehouse mset mw_Add mw_Remove mw_Remove_role mw_Remove_attr mw_Search_role mw_Match_roles "\<lambda>_. True"
proof (unfold_locales, goal_cases)
  case (1 w k r ig)
  then show ?case by (simp add: mw_Add_def mw_Search_role_def)
next
  case (2 w k r)
  then show ?case by (simp add: mw_Add_def mw_Search_role_def)
next
  case (3 w k r)
  then show ?case by (simp add: mw_Add_def)
next
  case (4 w k)
  then show ?case by (simp add: mw_Remove_def)
next
  case (5 w k r)
  then show ?case by (simp add: mw_Remove_role_def)
next
  case (6 w t)
  then show ?case by (simp add: mw_Remove_attr_def)
next
  case (7 w k)
  then show ?case by (simp add: mw_Search_role_def map_of_eq_None_iff)
next
  case (8 w k r)
  then show ?case using map_of_SomeD [of w k r] by (simp add: mw_Search_role_def)
next
  case (9 w t rs)
  then show ?case by (simp add: mw_Match_roles_def match_fold)
next
  case (10 w t rs)
  then show ?case by (simp add: mw_Match_roles_def match_fold list_ex_iff)
qed simp_all

end
