(* ===== verification/Topo_Manager.thy ===== *)
theory Topo_Manager
  imports Topo_Warehouse Transport_Listener Common_GlobalData
begin

text \<open>
  The managers of the topology (\<^verbatim>\<open>service_discovery/specific_manager\<close>): the base class with joining,
  leaving and remote changes, the manager of nodes and the manager of services. The manager of
  channels is in \<open>Topo_Channel\<close>.

  A manager is a record that each class extends; the virtual functions \<^verbatim>\<open>Check\<close> and \<^verbatim>\<open>Dispose\<close> are
  arguments of the operations of the base class. What a call does to the outside is a list of
  outputs: callbacks called with a change, changes written to the network, and the shutdown of the
  process. The clock, the parser and the RTPS publisher are parameters.
\<close>

section \<open>Changes\<close>

datatype change_type = CHANGE_NODE | CHANGE_CHANNEL | CHANGE_SERVICE | CHANGE_PARTICIPANT

datatype operate_type = OPT_JOIN | OPT_LEAVE

datatype role_type = ROLE_NODE | ROLE_WRITER | ROLE_READER | ROLE_SERVER | ROLE_CLIENT | ROLE_PARTICIPANT

fun role_number :: "role_type \<Rightarrow> nat" where
  "role_number ROLE_NODE = 1"
| "role_number ROLE_WRITER = 2"
| "role_number ROLE_READER = 3"
| "role_number ROLE_SERVER = 4"
| "role_number ROLE_CLIENT = 5"
| "role_number ROLE_PARTICIPANT = 6"

record change_msg =
  ch_timestamp :: u64
  ch_change_type :: change_type
  ch_operate_type :: operate_type
  ch_role_type :: role_type
  ch_role_attr :: role_attributes

datatype 'cb topo_output = Notified 'cb change_msg | Published change_msg | AsyncShutdown | Mismatch role_attributes

section \<open>Manager\<close>

record 'cb manager =
  m_is_shutdown :: bool
  m_is_discovery_started :: bool
  m_allowed_role :: u32
  m_change_type :: change_type
  m_host_name :: string
  m_process_id :: int
  m_channel_name :: string
  m_publisher :: bool
  m_subscriber :: bool
  m_participant :: bool
  m_signal :: "'cb signal"

definition role_bit :: "role_type \<Rightarrow> u32" where
  "role_bit role = push_bit (role_number role) 1"

definition Manager :: "string \<Rightarrow> int \<Rightarrow> 'cb manager" where
  "Manager host_name process_id =
     \<lparr>m_is_shutdown = False, m_is_discovery_started = False, m_allowed_role = 0, m_change_type = CHANGE_PARTICIPANT,
      m_host_name = host_name, m_process_id = process_id, m_channel_name = '''', m_publisher = False, m_subscriber = False,
      m_participant = False, m_signal = Signal\<rparr>"

definition m_StopDiscovery :: "('cb, 'z) manager_scheme \<Rightarrow> ('cb, 'z) manager_scheme" where
  "m_StopDiscovery m = m\<lparr>m_is_discovery_started := False\<rparr>"

text \<open>\<^verbatim>\<open>StartDiscovery\<close>; whether there is a participant and whether it creates the endpoints is given.\<close>

definition m_StartDiscovery ::
  "bool \<Rightarrow> bool \<Rightarrow> bool \<Rightarrow> ('cb, 'z) manager_scheme \<Rightarrow> bool \<times> ('cb, 'z) manager_scheme" where
  "m_StartDiscovery participant creates_publisher creates_subscriber m =
     (if \<not> participant then (False, m)
      else if m_is_discovery_started m then (True, m)
      else
        let m = m\<lparr>m_is_discovery_started := True, m_publisher := creates_publisher\<rparr>;
            m = (if creates_publisher then m\<lparr>m_subscriber := creates_subscriber\<rparr> else m)
        in if \<not> (creates_publisher \<and> creates_subscriber) then (False, m_StopDiscovery m)
           else (True, m\<lparr>m_participant := True\<rparr>))"

definition m_Shutdown :: "('cb, 'z) manager_scheme \<Rightarrow> ('cb, 'z) manager_scheme" where
  "m_Shutdown m =
     (if m_is_shutdown m then m
      else let m = m_StopDiscovery (m\<lparr>m_is_shutdown := True\<rparr>) in m\<lparr>m_signal := si_DisconnectAllSlots (m_signal m)\<rparr>)"

definition m_Convert ::
  "u64 \<Rightarrow> role_attributes \<Rightarrow> role_type \<Rightarrow> operate_type \<Rightarrow> ('cb, 'z) manager_scheme \<Rightarrow> change_msg" where
  "m_Convert now attr role opt m =
     (let attr = (if ra_host_name attr = None then attr\<lparr>ra_host_name := Some (m_host_name m)\<rparr> else attr);
          attr = (if ra_process_id attr = None then attr\<lparr>ra_process_id := Some (m_process_id m)\<rparr> else attr)
      in \<lparr>ch_timestamp = now, ch_change_type = m_change_type m, ch_operate_type = opt, ch_role_type = role, ch_role_attr = attr\<rparr>)"

definition m_Notify :: "change_msg \<Rightarrow> ('cb, 'z) manager_scheme \<Rightarrow> 'cb topo_output list \<times> ('cb, 'z) manager_scheme" where
  "m_Notify msg m = (let (called, s) = si_call (m_signal m) in (map (\<lambda>cb. Notified cb msg) called, m\<lparr>m_signal := s\<rparr>))"

text \<open>\<^verbatim>\<open>Publish\<close>; the serializer and the result of the publisher are given.\<close>

definition m_Publish ::
  "(change_msg \<Rightarrow> bool) \<Rightarrow> (change_msg \<Rightarrow> bool) \<Rightarrow> change_msg \<Rightarrow> ('cb, 'z) manager_scheme \<Rightarrow> bool \<times> 'cb topo_output list" where
  "m_Publish serializes writes msg m =
     (if \<not> m_is_discovery_started m then (False, [])
      else if \<not> serializes msg then (False, [])
      else if m_publisher m then (writes msg, [Published msg]) else (True, []))"

definition m_NeedPublish :: "change_msg \<Rightarrow> bool" where
  "m_NeedPublish msg = True"

definition m_Join where
  "m_Join Check Dispose serializes writes now attr role need_publish m =
     (if m_is_shutdown m then (False, [], m)
      else if role_bit role AND m_allowed_role m = 0 then (False, [], m)
      else if \<not> Check attr then (False, [], m)
      else
        let msg = m_Convert now attr role OPT_JOIN m;
            (outs, m) = Dispose msg m
        in if need_publish then (let (ok, pub) = m_Publish serializes writes msg m in (ok, outs @ pub, m))
           else (True, outs, m))"

definition m_Leave where
  "m_Leave Check Dispose serializes writes now attr role m =
     (if m_is_shutdown m then (False, [], m)
      else if role_bit role AND m_allowed_role m = 0 then (False, [], m)
      else if \<not> Check attr then (False, [], m)
      else
        let msg = m_Convert now attr role OPT_LEAVE m;
            (outs, m) = Dispose msg m
        in if m_NeedPublish msg then (let (ok, pub) = m_Publish serializes writes msg m in (ok, outs @ pub, m))
           else (True, outs, m))"

definition m_AddChangeListener :: "'cb \<Rightarrow> ('cb, 'z) manager_scheme \<Rightarrow> nat \<times> ('cb, 'z) manager_scheme" where
  "m_AddChangeListener func m = (let (conn, s) = si_Connect (Some func) (m_signal m) in (conn, m\<lparr>m_signal := s\<rparr>))"

definition m_RemoveChangeListener :: "nat \<Rightarrow> ('cb, 'z) manager_scheme \<Rightarrow> ('cb, 'z) manager_scheme" where
  "m_RemoveChangeListener conn m = m\<lparr>m_signal := snd (si_Disconnect conn (m_signal m))\<rparr>"

definition m_IsFromSameProcess :: "change_msg \<Rightarrow> ('cb, 'z) manager_scheme \<Rightarrow> bool" where
  "m_IsFromSameProcess msg m =
     (if int_of (ra_process_id (ch_role_attr msg)) \<noteq> m_process_id m \<or> str_of (ra_host_name (ch_role_attr msg)) \<noteq> m_host_name m
      then False else True)"

text \<open>\<^verbatim>\<open>OnRemoteChange\<close> on the result of the parser.\<close>

definition m_OnRemoteChange where
  "m_OnRemoteChange Check Dispose parsed m =
     (if m_is_shutdown m then ([], m)
      else case parsed of None \<Rightarrow> ([], m)
        | Some msg \<Rightarrow>
            if m_IsFromSameProcess msg m then ([], m)
            else if \<not> Check (ch_role_attr msg) then ([], m)
            else Dispose msg m)"

text \<open>The loops that announce roles removed on behalf of a process; the clock gives the time of each call.\<close>

fun notify_leaves ::
  "(nat \<Rightarrow> u64) \<Rightarrow> role_type \<Rightarrow> role list \<Rightarrow> ('cb, 'z) manager_scheme \<Rightarrow> 'cb topo_output list \<times> ('cb, 'z) manager_scheme" where
  "notify_leaves clock rt [] m = ([], m)"
| "notify_leaves clock rt (r # rs) m =
     (let (outs, m) = m_Notify (m_Convert (clock 0) (r_attributes r) rt OPT_LEAVE m) m;
          (outs', m) = notify_leaves (\<lambda>n. clock (Suc n)) rt rs m
      in (outs @ outs', m))"

section \<open>NodeManager\<close>

record 'cb node_manager = "'cb manager" +
  nm_nodes :: single_map

definition NodeManager :: "string \<Rightarrow> int \<Rightarrow> 'cb node_manager" where
  "NodeManager host_name process_id =
     manager.extend (Manager host_name process_id
       \<lparr>m_allowed_role := 0 OR role_bit ROLE_NODE, m_change_type := CHANGE_NODE, m_channel_name := ''node_change_broadcast''\<rparr>)
       \<lparr>nm_nodes = []\<rparr>"

definition nm_HasNode :: "(string \<Rightarrow> u64) \<Rightarrow> string \<Rightarrow> 'cb node_manager \<Rightarrow> global_data \<Rightarrow> (bool \<times> global_data) option" where
  "nm_HasNode Hash node_name m g = do { (key, g) \<leftarrow> RegisterNode Hash node_name g; Some (sw_Search key (nm_nodes m), g) }"

definition nm_GetNodes :: "role_attributes list \<Rightarrow> 'cb node_manager \<Rightarrow> role_attributes list" where
  "nm_GetNodes nodes m = sw_GetAllRoles_attr nodes (nm_nodes m)"

definition nm_Check :: "role_attributes \<Rightarrow> bool" where
  "nm_Check attr = (if ra_node_name attr = None then False else if ra_node_id attr = None then False else True)"

definition nm_DisposeJoin :: "change_msg \<Rightarrow> 'cb node_manager \<Rightarrow> 'cb topo_output list \<times> 'cb node_manager" where
  "nm_DisposeJoin msg m =
     (let node = RoleBase (ch_role_attr msg) (ch_timestamp msg);
          key = u64_of (ra_node_id (r_attributes node));
          (added, nodes) = sw_Add key node False (nm_nodes m);
          m = m\<lparr>nm_nodes := nodes\<rparr>
      in if added then ([], m)
         else case sw_Search_role key (nm_nodes m) of
           None \<Rightarrow> ([], m\<lparr>nm_nodes := snd (sw_Add key node True (nm_nodes m))\<rparr>)
         | Some existing \<Rightarrow>
             let (newer, m) = (if IsEarlierThan node existing
                               then (existing, m\<lparr>nm_nodes := snd (sw_Add key node True (nm_nodes m))\<rparr>)
                               else (node, m))
             in if int_of (ra_process_id (r_attributes newer)) = m_process_id m \<and>
                   str_of (ra_host_name (r_attributes newer)) = m_host_name m
                then ([AsyncShutdown], m) else ([], m))"

definition nm_DisposeLeave :: "change_msg \<Rightarrow> 'cb node_manager \<Rightarrow> 'cb node_manager" where
  "nm_DisposeLeave msg m =
     (let node = RoleBase (ch_role_attr msg) (ch_timestamp msg)
      in m\<lparr>nm_nodes := sw_Remove (u64_of (ra_node_id (r_attributes node))) (nm_nodes m)\<rparr>)"

definition nm_Dispose :: "change_msg \<Rightarrow> 'cb node_manager \<Rightarrow> 'cb topo_output list \<times> 'cb node_manager" where
  "nm_Dispose msg m =
     (let (outs, m) = (if ch_operate_type msg = OPT_JOIN then nm_DisposeJoin msg m else ([], nm_DisposeLeave msg m));
          (outs', m) = m_Notify msg m
      in (outs @ outs', m))"

definition nm_OnTopoModuleLeave :: "(nat \<Rightarrow> u64) \<Rightarrow> string \<Rightarrow> int \<Rightarrow> 'cb node_manager \<Rightarrow> 'cb topo_output list \<times> 'cb node_manager" where
  "nm_OnTopoModuleLeave clock host_name process_id m =
     (if \<not> m_is_discovery_started m then ([], m)
      else
        let nodes_to_remove = snd (sw_Match_roles (process_attr host_name process_id) [] (nm_nodes m));
            m = m\<lparr>nm_nodes := fold (\<lambda>node. sw_Remove (u64_of (ra_node_id (r_attributes node)))) nodes_to_remove (nm_nodes m)\<rparr>
        in notify_leaves clock ROLE_NODE nodes_to_remove m)"

section \<open>ServiceManager\<close>

record 'cb service_manager = "'cb manager" +
  sm_servers :: single_map
  sm_clients :: multi_map

definition ServiceManager :: "string \<Rightarrow> int \<Rightarrow> 'cb service_manager" where
  "ServiceManager host_name process_id =
     manager.extend (Manager host_name process_id
       \<lparr>m_allowed_role := (0 OR role_bit ROLE_SERVER) OR role_bit ROLE_CLIENT, m_change_type := CHANGE_SERVICE,
        m_channel_name := ''service_change_broadcast''\<rparr>)
       \<lparr>sm_servers = [], sm_clients = []\<rparr>"

definition sm_HasService :: "(string \<Rightarrow> u64) \<Rightarrow> string \<Rightarrow> 'cb service_manager \<Rightarrow> bool" where
  "sm_HasService Hash service_name m = sw_Search (Hash service_name) (sm_servers m)"

definition sm_GetServers :: "role_attributes list \<Rightarrow> 'cb service_manager \<Rightarrow> role_attributes list" where
  "sm_GetServers servers m = sw_GetAllRoles_attr servers (sm_servers m)"

definition sm_GetClients :: "(string \<Rightarrow> u64) \<Rightarrow> string \<Rightarrow> role_attributes list \<Rightarrow> 'cb service_manager \<Rightarrow> role_attributes list" where
  "sm_GetClients Hash service_name clients m = snd (mw_Search_attrs (Hash service_name) clients (sm_clients m))"

definition sm_Check :: "role_attributes \<Rightarrow> bool" where
  "sm_Check attr = (if ra_service_name attr = None then False else if ra_service_id attr = None then False else True)"

definition sm_DisposeJoin :: "change_msg \<Rightarrow> 'cb service_manager \<Rightarrow> 'cb service_manager" where
  "sm_DisposeJoin msg m =
     (let role = RoleServer (ch_role_attr msg) 0; key = u64_of (ra_service_id (r_attributes role)) in
      if ch_role_type msg = ROLE_SERVER then m\<lparr>sm_servers := snd (sw_Add key role True (sm_servers m))\<rparr>
      else m\<lparr>sm_clients := snd (mw_Add key role True (sm_clients m))\<rparr>)"

definition sm_DisposeLeave :: "change_msg \<Rightarrow> 'cb service_manager \<Rightarrow> 'cb service_manager" where
  "sm_DisposeLeave msg m =
     (let role = RoleServer (ch_role_attr msg) 0; key = u64_of (ra_service_id (r_attributes role)) in
      if ch_role_type msg = ROLE_SERVER then m\<lparr>sm_servers := sw_Remove key (sm_servers m)\<rparr>
      else m\<lparr>sm_clients := mw_Remove_role key role (sm_clients m)\<rparr>)"

definition sm_Dispose :: "change_msg \<Rightarrow> 'cb service_manager \<Rightarrow> 'cb topo_output list \<times> 'cb service_manager" where
  "sm_Dispose msg m = m_Notify msg (if ch_operate_type msg = OPT_JOIN then sm_DisposeJoin msg m else sm_DisposeLeave msg m)"

definition sm_OnTopoModuleLeave :: "(nat \<Rightarrow> u64) \<Rightarrow> string \<Rightarrow> int \<Rightarrow> 'cb service_manager \<Rightarrow> 'cb topo_output list \<times> 'cb service_manager" where
  "sm_OnTopoModuleLeave clock host_name process_id m =
     (if \<not> m_is_discovery_started m then ([], m)
      else
        let key = (\<lambda>r. u64_of (ra_service_id (r_attributes r)));
            servers_to_remove = snd (sw_Match_roles (process_attr host_name process_id) [] (sm_servers m));
            m = m\<lparr>sm_servers := fold (\<lambda>server. sw_Remove (key server)) servers_to_remove (sm_servers m)\<rparr>;
            clients_to_remove = snd (mw_Match_roles (process_attr host_name process_id) [] (sm_clients m));
            m = m\<lparr>sm_clients := fold (\<lambda>client. mw_Remove_role (key client) client) clients_to_remove (sm_clients m)\<rparr>;
            (outs, m) = notify_leaves clock ROLE_SERVER servers_to_remove m;
            (outs', m) = notify_leaves (\<lambda>n. clock (length servers_to_remove + n)) ROLE_CLIENT clients_to_remove m
        in (outs @ outs', m))"

section \<open>Duplicate nodes\<close>

definition node_key :: "change_msg \<Rightarrow> u64" where
  "node_key msg = u64_of (ra_node_id (ch_role_attr msg))"

definition from_process :: "string \<Rightarrow> int \<Rightarrow> change_msg \<Rightarrow> bool" where
  "from_process host pid msg \<longleftrightarrow> int_of (ra_process_id (ch_role_attr msg)) = pid \<and> str_of (ra_host_name (ch_role_attr msg)) = host"

definition node_role :: "change_msg \<Rightarrow> role" where
  "node_role msg = RoleBase (ch_role_attr msg) (ch_timestamp msg)"

lemma nm_DisposeJoin_simps:
  "nm_nodes (snd (nm_DisposeJoin msg m)) =
     (case map_of (nm_nodes m) (node_key msg) of None \<Rightarrow> um_set (node_key msg) (node_role msg) (nm_nodes m)
      | Some ex \<Rightarrow> if ch_timestamp msg < r_timestamp_ns ex then um_set (node_key msg) (node_role msg) (nm_nodes m) else nm_nodes m)"
  "fst (nm_DisposeJoin msg m) =
     (case map_of (nm_nodes m) (node_key msg) of None \<Rightarrow> []
      | Some ex \<Rightarrow> let newer = (if ch_timestamp msg < r_timestamp_ns ex then ex else node_role msg) in
          if of_process (m_host_name m) (m_process_id m) newer then [AsyncShutdown] else [])"
  "m_host_name (snd (nm_DisposeJoin msg m)) = m_host_name m" "m_process_id (snd (nm_DisposeJoin msg m)) = m_process_id m"
  by (auto simp: nm_DisposeJoin_def Let_def sw_Add_def sw_Search_role_def IsEarlierThan_def RoleBase_def node_key_def node_role_def
      of_process_def split: option.splits if_splits)

lemma m_Notify_simps:
  "m_is_discovery_started (snd (m_Notify msg m)) = m_is_discovery_started m"
  "m_host_name (snd (m_Notify msg m)) = m_host_name m" "m_process_id (snd (m_Notify msg m)) = m_process_id m"
  "manager.more (snd (m_Notify msg m)) = manager.more m" "AsyncShutdown \<notin> set (fst (m_Notify msg m))"
  by (auto simp: m_Notify_def Let_def split: prod.split)

lemma nm_nodes_more: "manager.more m = manager.more m' \<Longrightarrow> nm_nodes m = nm_nodes m'"
  by (cases m, cases m') auto

fun nm_run :: "change_msg list \<Rightarrow> 'cb node_manager \<Rightarrow> 'cb topo_output list \<times> 'cb node_manager" where
  "nm_run [] m = ([], m)"
| "nm_run (msg # msgs) m = (let (outs, m) = nm_Dispose msg m; (outs', m) = nm_run msgs m in (outs @ outs', m))"

lemma nm_run_snoc:
  "nm_run (msgs @ [msg]) m = (let (outs, m) = nm_run msgs m; (outs', m) = nm_Dispose msg m in (outs @ outs', m))"
  by (induction msgs arbitrary: m) (auto simp: Let_def split: prod.splits)

lemma nm_Dispose_join:
  assumes "ch_operate_type msg = OPT_JOIN"
  shows "nm_nodes (snd (nm_Dispose msg m)) = nm_nodes (snd (nm_DisposeJoin msg m))"
    and "AsyncShutdown \<in> set (fst (nm_Dispose msg m)) \<longleftrightarrow> AsyncShutdown \<in> set (fst (nm_DisposeJoin msg m))"
    and "m_host_name (snd (nm_Dispose msg m)) = m_host_name m" "m_process_id (snd (nm_Dispose msg m)) = m_process_id m"
proof -
  obtain outs m1 where 1: "nm_DisposeJoin msg m = (outs, m1)" by (cases "nm_DisposeJoin msg m")
  obtain outs' m2 where 2: "m_Notify msg m1 = (outs', m2)" by (cases "m_Notify msg m1")
  have d: "nm_Dispose msg m = (outs @ outs', m2)" using assms 1 2 by (simp add: nm_Dispose_def)
  show "nm_nodes (snd (nm_Dispose msg m)) = nm_nodes (snd (nm_DisposeJoin msg m))"
    using nm_nodes_more [of m2 m1] m_Notify_simps(4) [of msg m1] 2 by (simp add: d 1)
  show "AsyncShutdown \<in> set (fst (nm_Dispose msg m)) \<longleftrightarrow> AsyncShutdown \<in> set (fst (nm_DisposeJoin msg m))"
    using m_Notify_simps(5) [of msg m1] 2 by (simp add: d 1)
  show "m_host_name (snd (nm_Dispose msg m)) = m_host_name m" "m_process_id (snd (nm_Dispose msg m)) = m_process_id m"
    using m_Notify_simps(2,3) [of msg m1] nm_DisposeJoin_simps(3,4) [of msg m] 1 2 by (simp_all add: d)
qed

text \<open>Among the elements with the same key, one that is not the earliest.\<close>

definition late :: "('a \<Rightarrow> 'k) \<Rightarrow> ('a \<Rightarrow> 't :: linorder) \<Rightarrow> 'a set \<Rightarrow> 'a \<Rightarrow> bool" where
  "late key ts A z \<longleftrightarrow> (\<exists>y \<in> A. key y = key z \<and> ts y < ts z)"

lemma late_fresh:
  assumes "\<And>y. y \<in> S \<Longrightarrow> key y \<noteq> key x"
  shows "(\<exists>z \<in> insert x S. P z \<and> late key ts (insert x S) z) \<longleftrightarrow> (\<exists>z \<in> S. P z \<and> late key ts S z)"
  using assms unfolding late_def by fastforce

lemma late_earliest:
  assumes e: "e \<in> S" "key e = key x" and least: "\<And>y. y \<in> S \<Longrightarrow> key y = key x \<Longrightarrow> ts e \<le> ts y"
    and dist: "\<And>y. y \<in> S \<Longrightarrow> key y = key x \<Longrightarrow> ts y = ts e \<Longrightarrow> y = e" and lt: "ts x < ts e"
  shows "(\<exists>z \<in> insert x S. P z \<and> late key ts (insert x S) z) \<longleftrightarrow> (\<exists>z \<in> S. P z \<and> late key ts S z) \<or> P e"
proof -
  have x: "\<not> late key ts (insert x S) x" unfolding late_def using least lt by (auto dest: leD order.strict_trans)
  have S: "late key ts (insert x S) z \<longleftrightarrow> late key ts S z \<or> z = e" if z: "z \<in> S" for z
  proof (cases "key z = key x")
    case True
    have "late key ts (insert x S) z" unfolding late_def using True lt least [OF z True] by (intro bexI [of _ x]) auto
    moreover have "late key ts S z \<or> z = e" unfolding late_def using e True least [OF z True] dist [OF z True] by (metis order.not_eq_order_implies_strict)
    ultimately show ?thesis by simp
  next
    case False
    then show ?thesis unfolding late_def using e by auto
  qed
  show ?thesis using x S e(1) by auto
qed

lemma late_later:
  assumes e: "e \<in> S" "key e = key x" and lt: "ts e < ts x"
  shows "(\<exists>z \<in> insert x S. P z \<and> late key ts (insert x S) z) \<longleftrightarrow> (\<exists>z \<in> S. P z \<and> late key ts S z) \<or> P x"
proof -
  have x: "late key ts (insert x S) x" unfolding late_def using e lt by auto
  have S: "late key ts (insert x S) z \<longleftrightarrow> late key ts S z" if z: "z \<in> S" for z
    unfolding late_def using e lt by (auto intro: bexI [of _ e])
  show ?thesis using x S by auto
qed
text \<open>What is known after the joins in \<open>S\<close>.\<close>

abbreviation ours :: "('cb, 'z) manager_scheme \<Rightarrow> change_msg \<Rightarrow> bool" where
  "ours m \<equiv> from_process (m_host_name m) (m_process_id m)"

definition joins_inv :: "change_msg set \<Rightarrow> bool \<Rightarrow> 'cb node_manager \<Rightarrow> bool" where
  "joins_inv S stopped m \<longleftrightarrow>
     (\<forall>k r. map_of (nm_nodes m) k = Some r \<longrightarrow>
        (\<exists>x \<in> S. node_key x = k \<and> r = node_role x \<and> (\<forall>y \<in> S. node_key y = k \<longrightarrow> ch_timestamp x \<le> ch_timestamp y))) \<and>
     (\<forall>x \<in> S. map_of (nm_nodes m) (node_key x) \<noteq> None) \<and>
     (stopped \<longleftrightarrow> (\<exists>x \<in> S. ours m x \<and> late node_key ch_timestamp S x))"

lemma of_process_role [simp]: "of_process host pid (node_role x) \<longleftrightarrow> from_process host pid x"
  by (auto simp: of_process_def node_role_def RoleBase_def from_process_def)

lemma role_timestamp [simp]: "r_timestamp_ns (node_role x) = ch_timestamp x"
  by (simp add: node_role_def RoleBase_def)

text \<open>One more join leaves the earliest of its node in the map.\<close>

lemma join_keeps_best:
  assumes inv: "joins_inv S stopped m" and join: "ch_operate_type x = OPT_JOIN"
    and new: "\<And>y. y \<in> S \<Longrightarrow> node_key y = node_key x \<Longrightarrow> ch_timestamp y \<noteq> ch_timestamp x"
    and dist: "\<And>y z. y \<in> S \<Longrightarrow> z \<in> S \<Longrightarrow> node_key y = node_key z \<Longrightarrow> ch_timestamp y = ch_timestamp z \<Longrightarrow> y = z"
  obtains b where "b \<in> insert x S" and "node_key b = node_key x"
    and "map_of (nm_nodes (snd (nm_Dispose x m))) = (map_of (nm_nodes m))(node_key x \<mapsto> node_role b)"
    and "\<And>y. y \<in> insert x S \<Longrightarrow> node_key y = node_key x \<Longrightarrow> ch_timestamp b \<le> ch_timestamp y"
    and "(\<exists>z \<in> insert x S. ours m z \<and> late node_key ch_timestamp (insert x S) z) \<longleftrightarrow>
      stopped \<or> AsyncShutdown \<in> set (fst (nm_Dispose x m))"
proof (cases "map_of (nm_nodes m) (node_key x)")
  case None
  have none: "node_key y \<noteq> node_key x" if "y \<in> S" for y
    using inv that None unfolding joins_inv_def by metis
  have st: "stopped \<longleftrightarrow> (\<exists>z \<in> S. ours m z \<and> late node_key ch_timestamp S z)" using inv by (simp add: joins_inv_def)
  show thesis
  proof (rule that [of x])
    show "(\<exists>z \<in> insert x S. ours m z \<and> late node_key ch_timestamp (insert x S) z) \<longleftrightarrow>
        stopped \<or> AsyncShutdown \<in> set (fst (nm_Dispose x m))"
      using late_fresh [of S node_key x, OF none] st None by (simp add: nm_Dispose_join [OF join] nm_DisposeJoin_simps)
  qed (use None none in \<open>auto simp: nm_Dispose_join [OF join] nm_DisposeJoin_simps\<close>)
next
  case (Some ex)
  have st: "stopped \<longleftrightarrow> (\<exists>z \<in> S. ours m z \<and> late node_key ch_timestamp S z)" using inv by (simp add: joins_inv_def)
  obtain e where e: "e \<in> S" "node_key e = node_key x" "ex = node_role e"
    and least: "\<And>y. y \<in> S \<Longrightarrow> node_key y = node_key x \<Longrightarrow> ch_timestamp e \<le> ch_timestamp y"
    using inv Some unfolding joins_inv_def by blast
  show thesis
  proof (cases "ch_timestamp x < ch_timestamp e")
    case True
    show thesis
    proof (rule that [of x])
      show "(\<exists>z \<in> insert x S. ours m z \<and> late node_key ch_timestamp (insert x S) z) \<longleftrightarrow>
          stopped \<or> AsyncShutdown \<in> set (fst (nm_Dispose x m))"
        using late_earliest [OF e(1,2) least _ True] dist [OF _ e(1)] e st Some True
        by (simp add: nm_Dispose_join [OF join] nm_DisposeJoin_simps)
      show "ch_timestamp x \<le> ch_timestamp y" if "y \<in> insert x S" "node_key y = node_key x" for y
        using that least [of y] True by auto
    qed (use Some e True in \<open>auto simp: nm_Dispose_join [OF join] nm_DisposeJoin_simps\<close>)
  next
    case False
    then have lt: "ch_timestamp e < ch_timestamp x" using new [OF e(1,2)] by simp
    show thesis
    proof (rule that [of e])
      show "(\<exists>z \<in> insert x S. ours m z \<and> late node_key ch_timestamp (insert x S) z) \<longleftrightarrow>
          stopped \<or> AsyncShutdown \<in> set (fst (nm_Dispose x m))"
        using late_later [OF e(1,2) lt] e st Some False
        by (simp add: nm_Dispose_join [OF join] nm_DisposeJoin_simps)
      show "ch_timestamp e \<le> ch_timestamp y" if "y \<in> insert x S" "node_key y = node_key x" for y
        using that least [of y] lt by auto
    qed (use Some e False in \<open>auto simp: nm_Dispose_join [OF join] nm_DisposeJoin_simps fun_upd_idem\<close>)
  qed
qed

lemma joins_inv_step:
  assumes "joins_inv S stopped m" and "ch_operate_type x = OPT_JOIN"
    and "\<And>y. y \<in> S \<Longrightarrow> node_key y = node_key x \<Longrightarrow> ch_timestamp y \<noteq> ch_timestamp x"
    and "\<And>y z. y \<in> S \<Longrightarrow> z \<in> S \<Longrightarrow> node_key y = node_key z \<Longrightarrow> ch_timestamp y = ch_timestamp z \<Longrightarrow> y = z"
  shows "joins_inv (insert x S) (stopped \<or> AsyncShutdown \<in> set (fst (nm_Dispose x m))) (snd (nm_Dispose x m))"
proof -
  obtain b where b: "b \<in> insert x S" "node_key b = node_key x"
    and map: "map_of (nm_nodes (snd (nm_Dispose x m))) = (map_of (nm_nodes m))(node_key x \<mapsto> node_role b)"
    and least: "\<And>y. y \<in> insert x S \<Longrightarrow> node_key y = node_key x \<Longrightarrow> ch_timestamp b \<le> ch_timestamp y"
    and st: "(\<exists>z \<in> insert x S. ours m z \<and> late node_key ch_timestamp (insert x S) z) \<longleftrightarrow>
      stopped \<or> AsyncShutdown \<in> set (fst (nm_Dispose x m))"
    using join_keeps_best [OF assms] by blast
  have "\<exists>z \<in> insert x S. node_key z = k \<and> r = node_role z \<and> (\<forall>y \<in> insert x S. node_key y = k \<longrightarrow> ch_timestamp z \<le> ch_timestamp y)"
    if "map_of (nm_nodes (snd (nm_Dispose x m))) k = Some r" for k r
  proof (cases "k = node_key x")
    case True
    then show ?thesis using that b least by (intro bexI [of _ b]) (auto simp: map)
  next
    case False
    then have "map_of (nm_nodes m) k = Some r" using that by (simp add: map)
    then obtain z where "z \<in> S" "node_key z = k" "r = node_role z" "\<forall>y \<in> S. node_key y = k \<longrightarrow> ch_timestamp z \<le> ch_timestamp y"
      using assms(1) unfolding joins_inv_def by blast
    then show ?thesis using False by (intro bexI [of _ z]) auto
  qed
  moreover have "map_of (nm_nodes (snd (nm_Dispose x m))) (node_key y) \<noteq> None" if "y \<in> insert x S" for y
    using that assms(1) unfolding map joins_inv_def by (auto simp del: not_None_eq)
  ultimately show ?thesis using st unfolding joins_inv_def nm_Dispose_join(3,4) [OF assms(2)] by blast
qed

definition own_timestamps :: "change_msg list \<Rightarrow> bool" where
  "own_timestamps msgs \<longleftrightarrow> distinct (map (\<lambda>x. (node_key x, ch_timestamp x)) msgs)"

lemma joins_inv_run:
  assumes "nm_nodes m = []" and "own_timestamps msgs" and "\<forall>x \<in> set msgs. ch_operate_type x = OPT_JOIN"
  shows "joins_inv (set msgs) (AsyncShutdown \<in> set (fst (nm_run msgs m))) (snd (nm_run msgs m)) \<and>
    m_host_name (snd (nm_run msgs m)) = m_host_name m \<and> m_process_id (snd (nm_run msgs m)) = m_process_id m"
  using assms(2,3)
proof (induction msgs rule: rev_induct)
  case Nil
  then show ?case using assms(1) by (simp add: joins_inv_def)
next
  case (snoc x msgs)
  obtain outs m1 where 1: "nm_run msgs m = (outs, m1)" by (cases "nm_run msgs m")
  obtain outs' m2 where 2: "nm_Dispose x m1 = (outs', m2)" by (cases "nm_Dispose x m1")
  have "(node_key x, ch_timestamp x) \<notin> (\<lambda>x. (node_key x, ch_timestamp x)) ` set msgs"
    using snoc.prems(1) by (simp add: own_timestamps_def)
  then have own: "(node_key y, ch_timestamp y) \<noteq> (node_key x, ch_timestamp x)" if "y \<in> set msgs" for y
    using imageI [OF that, of "\<lambda>x. (node_key x, ch_timestamp x)"] by metis
  have dist: "y = z" if "y \<in> set msgs" "z \<in> set msgs" "node_key y = node_key z" "ch_timestamp y = ch_timestamp z" for y z
    using snoc.prems(1) that unfolding own_timestamps_def distinct_map inj_on_def by auto
  have "own_timestamps msgs" using snoc.prems(1) by (simp add: own_timestamps_def)
  then have inv: "joins_inv (set msgs) (AsyncShutdown \<in> set outs) m1" "m_host_name m1 = m_host_name m" "m_process_id m1 = m_process_id m"
    using snoc.IH snoc.prems(2) 1 by simp_all
  have join: "ch_operate_type x = OPT_JOIN" using snoc.prems(2) by simp
  have "joins_inv (insert x (set msgs)) (AsyncShutdown \<in> set outs \<or> AsyncShutdown \<in> set (fst (nm_Dispose x m1))) (snd (nm_Dispose x m1))"
    by (rule joins_inv_step [OF inv(1) join]) (use own dist in auto)
  then show ?case using inv(2,3) nm_Dispose_join(3,4) [OF join, of m1] by (simp add: nm_run_snoc 1 2)
qed

text \<open>
  Claim C23. When several processes announce a node with the same name, every process keeps the earliest
  announcement, in whatever order they arrive, and a process is told to shut down exactly when one
  of its own announcements is not the earliest of its node.
\<close>

theorem duplicate_nodes_resolved:
  assumes "nm_nodes m = []" and "own_timestamps msgs" and "\<forall>x \<in> set msgs. ch_operate_type x = OPT_JOIN"
  shows "(map_of (nm_nodes (snd (nm_run msgs m))) k = Some r \<longleftrightarrow>
      (\<exists>x \<in> set msgs. node_key x = k \<and> r = node_role x \<and> (\<forall>y \<in> set msgs. node_key y = k \<longrightarrow> ch_timestamp x \<le> ch_timestamp y))) \<and>
    (AsyncShutdown \<in> set (fst (nm_run msgs m)) \<longleftrightarrow>
      (\<exists>x \<in> set msgs. ours m x \<and> (\<exists>y \<in> set msgs. node_key y = node_key x \<and> ch_timestamp y < ch_timestamp x)))"
    (is "(?stored \<longleftrightarrow> ?earliest) \<and> (?stopped \<longleftrightarrow> ?late)")
proof (rule conjI)
  have inv: "joins_inv (set msgs) (AsyncShutdown \<in> set (fst (nm_run msgs m))) (snd (nm_run msgs m))"
    and same: "m_host_name (snd (nm_run msgs m)) = m_host_name m" "m_process_id (snd (nm_run msgs m)) = m_process_id m"
    using joins_inv_run [OF assms] by simp_all
  show "?stored \<longleftrightarrow> ?earliest"
  proof
    assume ?stored
    then show ?earliest using inv unfolding joins_inv_def by blast
  next
    assume ?earliest
    then obtain x where x: "x \<in> set msgs" "node_key x = k" "r = node_role x" "\<forall>y \<in> set msgs. node_key y = k \<longrightarrow> ch_timestamp x \<le> ch_timestamp y"
      by blast
    obtain r' where r': "map_of (nm_nodes (snd (nm_run msgs m))) k = Some r'"
      using inv x(1,2) unfolding joins_inv_def by blast
    then obtain z where z: "z \<in> set msgs" "node_key z = k" "r' = node_role z" "\<forall>y \<in> set msgs. node_key y = k \<longrightarrow> ch_timestamp z \<le> ch_timestamp y"
      using inv unfolding joins_inv_def by blast
    have "ch_timestamp x = ch_timestamp z" using x z by (simp add: order.antisym)
    then have "x = z" using assms(2) x(1,2) z(1,2) unfolding own_timestamps_def distinct_map inj_on_def by auto
    then show ?stored using r' x(3) z(3) by simp
  qed
  show "?stopped \<longleftrightarrow> ?late"
    using inv unfolding joins_inv_def same late_def by blast
qed

definition node_join :: "string \<Rightarrow> int \<Rightarrow> u64 \<Rightarrow> change_msg" where
  "node_join host pid ts = \<lparr>ch_timestamp = ts, ch_change_type = CHANGE_NODE, ch_operate_type = OPT_JOIN, ch_role_type = ROLE_NODE,
     ch_role_attr = RoleAttributes\<lparr>ra_host_name := Some host, ra_process_id := Some pid, ra_node_name := Some ''n'', ra_node_id := Some 9\<rparr>\<rparr>"

theorem duplicate_nodes_resolved_witness:
  "map_of (nm_nodes (snd (nm_run [node_join ''h'' 2 70, node_join ''g'' 1 50] (NodeManager ''h'' 2 :: nat node_manager)))) 9 =
     Some (node_role (node_join ''g'' 1 50)) \<and>
   AsyncShutdown \<in> set (fst (nm_run [node_join ''h'' 2 70, node_join ''g'' 1 50] (NodeManager ''h'' 2 :: nat node_manager)))"
proof -
  let ?msgs = "[node_join ''h'' 2 70, node_join ''g'' 1 50]" and ?m = "NodeManager ''h'' 2 :: nat node_manager"
  have hyps: "nm_nodes ?m = []" "own_timestamps ?msgs" "\<forall>x \<in> set ?msgs. ch_operate_type x = OPT_JOIN"
    by (simp_all add: NodeManager_def manager.defs own_timestamps_def node_join_def node_key_def)
  have m: "m_host_name ?m = ''h''" "m_process_id ?m = 2" by (simp_all add: NodeManager_def Manager_def manager.defs)
  have "map_of (nm_nodes (snd (nm_run ?msgs ?m))) 9 = Some (node_role (node_join ''g'' 1 50))"
    unfolding duplicate_nodes_resolved [OF hyps, THEN conjunct1]
    by (rule bexI [of _ "node_join ''g'' 1 50"]) (simp_all add: node_join_def node_key_def)
  moreover have "AsyncShutdown \<in> set (fst (nm_run ?msgs ?m))"
    unfolding duplicate_nodes_resolved [OF hyps, THEN conjunct2] m
    by (rule bexI [of _ "node_join ''h'' 2 70"]) (simp_all add: node_join_def node_key_def from_process_def)
  ultimately show ?thesis ..
qed

text \<open>
  A node leaves by its id alone: when the process of a duplicate, told to shut down, announces
  that its node leaves, the surviving node of the other process disappears from the topology.
\<close>

lemma duplicate_leave_removes_survivor:
  assumes "map_of (nm_nodes m) (node_key a) = Some (node_role a)" and "node_key b = node_key a" and "ch_timestamp a < ch_timestamp b"
    and "ch_operate_type b = OPT_JOIN" and "ch_operate_type l = OPT_LEAVE" and "ch_role_attr l = ch_role_attr b"
  shows "map_of (nm_nodes (snd (nm_run [b] m))) (node_key a) = Some (node_role a) \<and>
    map_of (nm_nodes (snd (nm_run [b, l] m))) (node_key a) = None"
proof -
  have b: "map_of (nm_nodes (snd (nm_Dispose b m))) (node_key a) = Some (node_role a)"
    using assms by (simp add: nm_Dispose_join nm_DisposeJoin_simps)
  have l: "map_of (nm_nodes (snd (nm_Dispose l m1))) (node_key a) = None" for m1
    using assms(2,5,6) nm_nodes_more [OF m_Notify_simps(4) [of l "nm_DisposeLeave l m1"]]
    by (simp add: nm_Dispose_def nm_DisposeLeave_def sw_Remove_def RoleBase_def node_key_def Let_def split: prod.split)
  show ?thesis using b l [of "snd (nm_Dispose b m)"] by (cases "nm_Dispose b m") (simp add: Let_def split_beta)
qed

lemma duplicate_leave_removes_survivor_witness:
  "let m = snd (nm_Dispose (node_join ''g'' 1 50) (NodeManager ''k'' 3 :: nat node_manager));
       b = node_join ''h'' 2 70; l = b\<lparr>ch_operate_type := OPT_LEAVE\<rparr>
   in map_of (nm_nodes (snd (nm_run [b] m))) 9 = Some (node_role (node_join ''g'' 1 50)) \<and>
      map_of (nm_nodes (snd (nm_run [b, l] m))) 9 = None"
proof -
  let ?m = "snd (nm_Dispose (node_join ''g'' 1 50) (NodeManager ''k'' 3 :: nat node_manager))"
  let ?b = "node_join ''h'' 2 70"
  have key: "node_key (node_join h p t) = 9" for h p t by (simp add: node_join_def node_key_def)
  have "map_of (nm_nodes ?m) (node_key (node_join ''g'' 1 50)) = Some (node_role (node_join ''g'' 1 50))"
    using nm_Dispose_join(1) [of "node_join ''g'' 1 50" "NodeManager ''k'' 3 :: nat node_manager"]
    by (simp add: nm_DisposeJoin_simps NodeManager_def manager.defs node_join_def)
  from duplicate_leave_removes_survivor [OF this, of ?b "?b\<lparr>ch_operate_type := OPT_LEAVE\<rparr>"]
  show ?thesis unfolding key Let_def by (simp add: node_join_def node_key_def)
qed

end
