(* ===== verification/Topo_Graph.thy ===== *)
theory Topo_Graph
  imports Cyber_Prelude
begin

text \<open>
  The graph of the nodes of a Cyber system (\<^verbatim>\<open>service_discovery/container/graph\<close>): an edge goes from
  every writer of a channel to every reader of the channel. Writers and readers come and go one at a
  time (half edges); the adjacency list is updated incrementally, and the direction between two
  nodes is found by a level-order search.

  The reference is the set of pairs (writer, channel) and the set of pairs (channel, reader): the
  graph always answers reachability in the relation they define, as long as no two edges have the
  same key. Keys of different edges can coincide, and then an edge is lost.
\<close>

section \<open>Edges\<close>

type_synonym vertice = string

definition IsDummy :: "vertice \<Rightarrow> bool" where
  "IsDummy v = (v = '''')"

record edge =
  e_src :: vertice
  e_dst :: vertice
  e_value :: string

definition e_IsValid :: "edge \<Rightarrow> bool" where
  "e_IsValid e = (if e_value e = '''' then False else if IsDummy (e_src e) \<and> IsDummy (e_dst e) then False else True)"

definition e_GetKey :: "edge \<Rightarrow> string" where
  "e_GetKey e = e_value e @ ''_'' @ e_dst e"

section \<open>Graph\<close>

type_synonym vertice_set = "(string, vertice) umap"

record related_vertices =
  rv_src :: vertice_set
  rv_dst :: vertice_set

definition RelatedVertices :: related_vertices where
  "RelatedVertices = \<lparr>rv_src = [], rv_dst = []\<rparr>"

record graph =
  g_edges :: "(string, related_vertices) umap"
  g_list :: "(string, vertice_set) umap"

definition Graph :: graph where
  "Graph = \<lparr>g_edges = [], g_list = []\<rparr>"

definition InsertCompleteEdge :: "edge \<Rightarrow> (string, vertice_set) umap \<Rightarrow> (string, vertice_set) umap" where
  "InsertCompleteEdge e l =
     (let l = (if map_of l (e_src e) = None then um_set (e_src e) [] l else l);
          l = (if map_of l (e_dst e) = None then um_set (e_dst e) [] l else l)
      in um_set (e_src e) (um_set (e_GetKey e) (e_dst e) (um_at [] (e_src e) l)) l)"

definition DeleteCompleteEdge :: "edge \<Rightarrow> (string, vertice_set) umap \<Rightarrow> (string, vertice_set) umap" where
  "DeleteCompleteEdge e l = um_set (e_src e) (um_erase (e_GetKey e) (um_at [] (e_src e) l)) l"

definition InsertOutgoingEdge :: "edge \<Rightarrow> graph \<Rightarrow> graph" where
  "InsertOutgoingEdge e g =
     (let rv = um_at RelatedVertices (e_value e) (g_edges g) in
      if map_of (rv_src rv) (e_src e) \<noteq> None then g
      else g\<lparr>g_edges := um_set (e_value e) (rv\<lparr>rv_src := um_set (e_src e) (e_src e) (rv_src rv)\<rparr>) (g_edges g),
             g_list := fold (\<lambda>item. InsertCompleteEdge \<lparr>e_src = e_src e, e_dst = snd item, e_value = e_value e\<rparr>)
               (rv_dst rv) (g_list g)\<rparr>)"

definition InsertIncomingEdge :: "edge \<Rightarrow> graph \<Rightarrow> graph" where
  "InsertIncomingEdge e g =
     (let rv = um_at RelatedVertices (e_value e) (g_edges g) in
      if map_of (rv_dst rv) (e_dst e) \<noteq> None then g
      else g\<lparr>g_edges := um_set (e_value e) (rv\<lparr>rv_dst := um_set (e_dst e) (e_dst e) (rv_dst rv)\<rparr>) (g_edges g),
             g_list := fold (\<lambda>item. InsertCompleteEdge \<lparr>e_src = snd item, e_dst = e_dst e, e_value = e_value e\<rparr>)
               (rv_src rv) (g_list g)\<rparr>)"

definition DeleteOutgoingEdge :: "edge \<Rightarrow> graph \<Rightarrow> graph" where
  "DeleteOutgoingEdge e g =
     (let rv = um_at RelatedVertices (e_value e) (g_edges g) in
      if map_of (rv_src rv) (e_src e) = None then g
      else g\<lparr>g_edges := um_set (e_value e) (rv\<lparr>rv_src := um_erase (e_src e) (rv_src rv)\<rparr>) (g_edges g),
             g_list := fold (\<lambda>item. DeleteCompleteEdge \<lparr>e_src = e_src e, e_dst = snd item, e_value = e_value e\<rparr>)
               (rv_dst rv) (g_list g)\<rparr>)"

definition DeleteIncomingEdge :: "edge \<Rightarrow> graph \<Rightarrow> graph" where
  "DeleteIncomingEdge e g =
     (let rv = um_at RelatedVertices (e_value e) (g_edges g) in
      if map_of (rv_dst rv) (e_dst e) = None then g
      else g\<lparr>g_edges := um_set (e_value e) (rv\<lparr>rv_dst := um_erase (e_dst e) (rv_dst rv)\<rparr>) (g_edges g),
             g_list := fold (\<lambda>item. DeleteCompleteEdge \<lparr>e_src = snd item, e_dst = e_dst e, e_value = e_value e\<rparr>)
               (rv_src rv) (g_list g)\<rparr>)"

definition g_Insert :: "edge \<Rightarrow> graph \<Rightarrow> graph" where
  "g_Insert e g =
     (if \<not> e_IsValid e then g else
      let g = (if map_of (g_edges g) (e_value e) = None
               then g\<lparr>g_edges := um_set (e_value e) RelatedVertices (g_edges g)\<rparr> else g);
          g = (if \<not> IsDummy (e_src e) then InsertOutgoingEdge e g else g)
      in if \<not> IsDummy (e_dst e) then InsertIncomingEdge e g else g)"

definition g_Delete :: "edge \<Rightarrow> graph \<Rightarrow> graph" where
  "g_Delete e g =
     (if \<not> e_IsValid e then g
      else if map_of (g_edges g) (e_value e) = None then g
      else let g = (if \<not> IsDummy (e_src e) then DeleteOutgoingEdge e g else g)
           in if \<not> IsDummy (e_dst e) then DeleteIncomingEdge e g else g)"

definition GetNumOfEdge :: "graph \<Rightarrow> u32" where
  "GetNumOfEdge g = fold (\<lambda>item num. num + of_nat (length (snd item))) (g_list g) 0"

section \<open>The level-order search\<close>

text \<open>
  Reading \<^verbatim>\<open>list_[key]\<close> inserts an empty set for an unknown key, so the list is part of the result.
\<close>

definition neighbours :: "(string, vertice_set) umap \<Rightarrow> string \<Rightarrow> vertice list" where
  "neighbours l u = um_vals (um_at [] u l)"

definition all_vals :: "(string, vertice_set) umap \<Rightarrow> vertice set" where
  "all_vals l = (\<Union>item \<in> set l. set (um_vals (snd item)))"

lemma finite_all_vals [simp]: "finite (all_vals l)"
  by (simp add: all_vals_def)

lemma neighbours_all_vals: "set (neighbours l u) \<subseteq> all_vals l"
proof (cases "map_of l u")
  case (Some vs)
  then have "(u, vs) \<in> set l" by (rule map_of_SomeD)
  then have "set (um_vals (snd (u, vs))) \<subseteq> all_vals l" unfolding all_vals_def by (rule UN_upper)
  then show ?thesis using Some by (simp add: neighbours_def um_at_def)
qed (simp add: neighbours_def um_at_def)

lemma all_vals_touch [simp]: "all_vals (um_touch [] u l) = all_vals l"
proof (cases "map_of l u")
  case None
  then have "um_set u [] l = l @ [(u, [])]" by (induction l) auto
  then show ?thesis using None by (simp add: um_touch_def all_vals_def)
qed (simp add: um_touch_def)

function traverse_loop ::
  "vertice \<Rightarrow> (string, vertice_set) umap \<Rightarrow> (string, bool) umap \<Rightarrow> vertice list \<Rightarrow> bool \<times> (string, vertice_set) umap" where
  "traverse_loop end_v l visited [] = (um_at False end_v visited, l)"
| "traverse_loop end_v l visited (curr_v # unvisited) =
     (if um_at False curr_v visited then traverse_loop end_v l visited unvisited
      else
        let visited = um_set curr_v True visited in
        if curr_v = end_v then (um_at False end_v visited, l)
        else traverse_loop end_v (um_touch [] curr_v l) visited (unvisited @ neighbours l curr_v))"
  by pat_completeness auto
termination
proof (relation "measures [\<lambda>(end_v, l, visited, q). card ((set q \<union> all_vals l) - {v. um_at False v visited}), \<lambda>(end_v, l, visited, q). length q]",
    goal_cases)
  case 1
  then show ?case by simp
next
  case (2 end_v l visited curr_v unvisited)
  have "(set unvisited \<union> all_vals l) - {v. um_at False v visited} = (set (curr_v # unvisited) \<union> all_vals l) - {v. um_at False v visited}"
    using 2 by auto
  then show ?case by simp
next
  case (3 end_v l visited curr_v unvisited visited')
  let ?A = "set (unvisited @ neighbours l curr_v) \<union> all_vals (um_touch [] curr_v l) - {v. um_at False v visited'}"
  let ?B = "set (curr_v # unvisited) \<union> all_vals l - {v. um_at False v visited}"
  have "?A \<subseteq> ?B" "curr_v \<in> ?B" "curr_v \<notin> ?A" using 3 neighbours_all_vals [of l curr_v] by auto
  then have "?A \<subset> ?B" by blast
  then have "card ?A < card ?B" by (intro psubset_card_mono) simp_all
  then show ?case by simp
qed

definition LevelTraverse :: "vertice \<Rightarrow> vertice \<Rightarrow> (string, vertice_set) umap \<Rightarrow> bool \<times> (string, vertice_set) umap" where
  "LevelTraverse start end_v l = traverse_loop end_v l [(end_v, False)] [start]"

datatype flow_direction = UNREACHABLE | UPSTREAM | DOWNSTREAM

definition GetDirectionOf :: "vertice \<Rightarrow> vertice \<Rightarrow> graph \<Rightarrow> flow_direction \<times> graph" where
  "GetDirectionOf lhs rhs g =
     (if IsDummy lhs \<or> IsDummy rhs then (UNREACHABLE, g)
      else if map_of (g_list g) lhs = None \<or> map_of (g_list g) rhs = None then (UNREACHABLE, g)
      else let (up, l) = LevelTraverse lhs rhs (g_list g) in
        if up then (UPSTREAM, g\<lparr>g_list := l\<rparr>)
        else let (down, l) = LevelTraverse rhs lhs l in
          (if down then DOWNSTREAM else UNREACHABLE, g\<lparr>g_list := l\<rparr>))"

section \<open>Specification\<close>

datatype graph_event = Joins edge | Leaves edge

fun g_apply :: "graph_event \<Rightarrow> graph \<Rightarrow> graph" where
  "g_apply (Joins e) = g_Insert e"
| "g_apply (Leaves e) = g_Delete e"

text \<open>The writers and readers present: pairs of node and channel.\<close>

type_synonym roles = "(vertice \<times> string) set \<times> (vertice \<times> string) set"

definition writer_of :: "edge \<Rightarrow> (vertice \<times> string) set" where
  "writer_of e = (if e_IsValid e \<and> \<not> IsDummy (e_src e) then {(e_src e, e_value e)} else {})"

definition reader_of :: "edge \<Rightarrow> (vertice \<times> string) set" where
  "reader_of e = (if e_IsValid e \<and> \<not> IsDummy (e_dst e) then {(e_dst e, e_value e)} else {})"

fun roles_apply :: "graph_event \<Rightarrow> roles \<Rightarrow> roles" where
  "roles_apply (Joins e) (W, R) = (W \<union> writer_of e, R \<union> reader_of e)"
| "roles_apply (Leaves e) (W, R) = (W - writer_of e, R - reader_of e)"

definition flows :: "roles \<Rightarrow> (vertice \<times> vertice) set" where
  "flows WR = {(u, v). \<exists>c. (u, c) \<in> fst WR \<and> (v, c) \<in> snd WR}"

text \<open>The readers that ever join have different keys.\<close>

definition edge_key :: "vertice \<times> string \<Rightarrow> string" where
  "edge_key x = snd x @ ''_'' @ fst x"

fun joined :: "graph_event \<Rightarrow> (vertice \<times> string) set" where
  "joined (Joins e) = reader_of e"
| "joined (Leaves e) = {}"

section \<open>The search finds reachability\<close>

definition adj :: "(string, vertice_set) umap \<Rightarrow> (vertice \<times> vertice) set" where
  "adj l = {(u, v). v \<in> set (neighbours l u)}"

lemma adj_touch [simp]: "adj (um_touch [] u l) = adj l"
  by (simp add: adj_def neighbours_def)

lemma reach_leaves_visited:
  assumes "(x, e) \<in> E\<^sup>*" and "x \<in> V" and "e \<notin> V" and "E `` V \<subseteq> V \<union> Q"
  shows "\<exists>y \<in> Q - V. (y, e) \<in> E\<^sup>*"
  using assms(1,2)
proof (induction rule: converse_rtrancl_induct)
  case base
  then show ?case using assms(3) by simp
next
  case (step y z)
  show ?case
  proof (cases "z \<in> V")
    case False
    then have "z \<in> Q - V" using step.hyps(1) step.prems assms(4) by auto
    then show ?thesis using step.hyps(2) by blast
  qed (rule step.IH)
qed

lemma traverse_loop_correct:
  assumes "\<not> um_at False end_v visited"
    and "adj l `` {v. um_at False v visited} \<subseteq> {v. um_at False v visited} \<union> set q"
  shows "fst (traverse_loop end_v l visited q) \<longleftrightarrow> (\<exists>x \<in> set q. (x, end_v) \<in> (adj l)\<^sup>*)"
  using assms
proof (induction end_v l visited q rule: traverse_loop.induct)
  case (1 end_v l visited)
  then show ?case by simp
next
  case (2 end_v l visited curr_v unvisited)
  let ?V = "{v. um_at False v visited}"
  show ?case
  proof (cases "um_at False curr_v visited")
    case True
    have closed: "adj l `` ?V \<subseteq> ?V \<union> set unvisited" using "2.prems"(2) True by auto
    have "\<exists>x \<in> set unvisited. (x, end_v) \<in> (adj l)\<^sup>*" if "(curr_v, end_v) \<in> (adj l)\<^sup>*"
      using reach_leaves_visited [OF that, of ?V "set unvisited"] True "2.prems"(1) closed by auto
    then show ?thesis using "2.IH"(1) [OF True "2.prems"(1) closed] True by auto
  next
    case new: False
    show ?thesis
    proof (cases "curr_v = end_v")
      case True
      then show ?thesis using new by (simp add: Let_def)
    next
      case False
      let ?vis = "um_set curr_v True visited" and ?q = "unvisited @ neighbours l curr_v" and ?l = "um_touch [] curr_v l"
      have "fst (traverse_loop end_v ?l ?vis ?q) \<longleftrightarrow> (\<exists>x \<in> set ?q. (x, end_v) \<in> (adj ?l)\<^sup>*)"
        using "2.prems" False by (intro "2.IH"(2) [OF new refl False]) (auto simp: adj_def neighbours_def)
      moreover have "(\<exists>x \<in> set (neighbours l curr_v). (x, end_v) \<in> (adj l)\<^sup>*) \<longleftrightarrow> (curr_v, end_v) \<in> (adj l)\<^sup>*"
        using False by (auto simp: adj_def elim: converse_rtranclE intro: converse_rtrancl_into_rtrancl)
      ultimately show ?thesis using new False by (auto simp: Let_def)
    qed
  qed
qed

text \<open>On a list in which every vertex that is reached has an entry the search changes nothing.\<close>

lemma traverse_loop_unchanged:
  assumes "\<forall>x \<in> set q \<union> all_vals l. map_of l x \<noteq> None"
  shows "snd (traverse_loop end_v l visited q) = l"
  using assms
proof (induction end_v l visited q rule: traverse_loop.induct)
  case (2 end_v l visited curr_v unvisited)
  have "\<forall>x \<in> set (unvisited @ neighbours l curr_v) \<union> all_vals l. map_of l x \<noteq> None"
    using neighbours_all_vals [of l curr_v] "2.prems" by auto
  then show ?case using 2 by (auto simp: Let_def)
qed simp

lemma LevelTraverse_reach: "fst (LevelTraverse start end_v l) \<longleftrightarrow> (start, end_v) \<in> (adj l)\<^sup>*"
proof -
  have "adj l `` {v. um_at False v [(end_v, False)]} \<subseteq> {v. um_at False v [(end_v, False)]} \<union> set [start]"
    by (auto simp: um_at_def split: if_splits option.splits)
  then show ?thesis unfolding LevelTraverse_def by (subst traverse_loop_correct) (simp_all add: um_at_def)
qed

section \<open>Complete edges\<close>

lemma InsertCompleteEdge_at:
  "um_at [] x (InsertCompleteEdge e l) =
     (if x = e_src e then um_set (e_GetKey e) (e_dst e) (um_at [] x l) else um_at [] x l)"
  by (auto simp: InsertCompleteEdge_def Let_def um_at_def)

lemma DeleteCompleteEdge_at:
  "um_at [] x (DeleteCompleteEdge e l) = (if x = e_src e then um_erase (e_GetKey e) (um_at [] x l) else um_at [] x l)"
  by (auto simp: DeleteCompleteEdge_def)

lemma dom_InsertCompleteEdge: "dom (map_of (InsertCompleteEdge e l)) = insert (e_src e) (insert (e_dst e) (dom (map_of l)))"
  by (auto simp: InsertCompleteEdge_def Let_def)

lemma dom_DeleteCompleteEdge: "dom (map_of (DeleteCompleteEdge e l)) = insert (e_src e) (dom (map_of l))"
  by (auto simp: DeleteCompleteEdge_def)

lemma insert_edges_wf: "um_wf l \<Longrightarrow> um_wf (fold InsertCompleteEdge es l)"
  by (induction es arbitrary: l) (simp_all add: InsertCompleteEdge_def Let_def)

lemma delete_edges_wf: "um_wf l \<Longrightarrow> um_wf (fold DeleteCompleteEdge es l)"
  by (induction es arbitrary: l) (simp_all add: DeleteCompleteEdge_def)

lemma insert_edges_at_wf: "um_wf (um_at [] x l) \<Longrightarrow> um_wf (um_at [] x (fold InsertCompleteEdge es l))"
proof (induction es arbitrary: l)
  case (Cons e es)
  have "um_wf (um_at [] x (InsertCompleteEdge e l))" using Cons.prems by (cases "x = e_src e") (simp_all add: InsertCompleteEdge_at)
  then show ?case using Cons.IH by simp
qed simp

lemma delete_edges_at_wf: "um_wf (um_at [] x l) \<Longrightarrow> um_wf (um_at [] x (fold DeleteCompleteEdge es l))"
proof (induction es arbitrary: l)
  case (Cons e es)
  have "um_wf (um_at [] x (DeleteCompleteEdge e l))" using Cons.prems by (cases "x = e_src e") (simp_all add: DeleteCompleteEdge_at)
  then show ?case using Cons.IH by simp
qed simp

lemma insert_edges_dom:
  "dom (map_of (fold InsertCompleteEdge es l)) = e_src ` set es \<union> e_dst ` set es \<union> dom (map_of l)"
  by (induction es arbitrary: l) (auto simp: dom_InsertCompleteEdge)

lemma delete_edges_dom: "dom (map_of (fold DeleteCompleteEdge es l)) = e_src ` set es \<union> dom (map_of l)"
  by (induction es arbitrary: l) (auto simp: dom_DeleteCompleteEdge)

lemma insert_edges_at:
  assumes "\<And>e e'. e \<in> set es \<Longrightarrow> e' \<in> set es \<Longrightarrow> e_GetKey e = e_GetKey e' \<Longrightarrow> e_dst e = e_dst e'"
  shows "map_of (um_at [] x (fold InsertCompleteEdge es l)) k = Some v \<longleftrightarrow>
    (\<exists>e \<in> set es. e_src e = x \<and> e_GetKey e = k \<and> e_dst e = v) \<or>
    (\<forall>e \<in> set es. e_src e = x \<longrightarrow> e_GetKey e \<noteq> k) \<and> map_of (um_at [] x l) k = Some v"
  using assms
proof (induction es arbitrary: l)
  case (Cons e es)
  have "map_of (um_at [] x (fold InsertCompleteEdge es (InsertCompleteEdge e l))) k = Some v \<longleftrightarrow>
    (\<exists>e \<in> set es. e_src e = x \<and> e_GetKey e = k \<and> e_dst e = v) \<or>
    (\<forall>e \<in> set es. e_src e = x \<longrightarrow> e_GetKey e \<noteq> k) \<and> map_of (um_at [] x (InsertCompleteEdge e l)) k = Some v"
    by (rule Cons.IH, rule Cons.prems) simp_all
  moreover have "map_of (um_at [] x (InsertCompleteEdge e l)) k =
      (if e_src e = x \<and> e_GetKey e = k then Some (e_dst e) else map_of (um_at [] x l) k)"
    by (simp add: InsertCompleteEdge_at)
  moreover have "e_dst e' = v \<longleftrightarrow> e_dst e = v" if "e' \<in> set es" "e_GetKey e' = e_GetKey e" for e'
    using Cons.prems [of e' e] that by simp
  ultimately show ?case by (cases "e_src e = x \<and> e_GetKey e = k") (simp_all, blast+)
qed simp

lemma delete_edges_at:
  "map_of (um_at [] x (fold DeleteCompleteEdge es l)) k =
     (if \<exists>e \<in> set es. e_src e = x \<and> e_GetKey e = k then None else map_of (um_at [] x l) k)"
proof (induction es arbitrary: l)
  case (Cons e es)
  have "map_of (um_at [] x (DeleteCompleteEdge e l)) k = (if e_src e = x \<and> e_GetKey e = k then None else map_of (um_at [] x l) k)"
    by (simp add: DeleteCompleteEdge_at)
  then show ?case using Cons.IH [of "DeleteCompleteEdge e l"] by (cases "e_src e = x \<and> e_GetKey e = k") auto
qed simp

section \<open>The graph implements its specification\<close>

text \<open>A vertex set holds the members of a set, under their own keys.\<close>

definition vs_rep :: "vertice_set \<Rightarrow> vertice set \<Rightarrow> bool" where
  "vs_rep vs A \<longleftrightarrow> um_wf vs \<and> (\<forall>u. map_of vs u = (if u \<in> A then Some u else None))"

lemma vs_rep_vals: "vs_rep vs A \<Longrightarrow> snd ` set vs = A"
proof -
  assume "vs_rep vs A"
  then have "um_wf vs" "\<And>u. map_of vs u = (if u \<in> A then Some u else None)" by (simp_all add: vs_rep_def)
  then have "(u, v) \<in> set vs \<longleftrightarrow> u \<in> A \<and> v = u" for u v 
    by (subst map_of_eq_Some_iff [symmetric]) auto
  then have "set vs = (\<lambda>u. (u, u)) ` A" by auto
  then show ?thesis by (simp add: image_image)
qed

lemma vs_rep_insert: "vs_rep vs A \<Longrightarrow> vs_rep (um_set u u vs) (insert u A)"
  by (simp add: vs_rep_def)

lemma vs_rep_erase: "vs_rep vs A \<Longrightarrow> vs_rep (um_erase u vs) (A - {u})"
  by (simp add: vs_rep_def)

lemma vs_rep_mem: "vs_rep vs A \<Longrightarrow> map_of vs u = None \<longleftrightarrow> u \<notin> A"
  by (simp add: vs_rep_def)

definition edges_rep :: "roles \<Rightarrow> (string, related_vertices) umap \<Rightarrow> bool" where
  "edges_rep WR es \<longleftrightarrow> (\<forall>c. vs_rep (rv_src (um_at RelatedVertices c es)) {u. (u, c) \<in> fst WR} \<and>
     vs_rep (rv_dst (um_at RelatedVertices c es)) {v. (v, c) \<in> snd WR})"

definition list_rep :: "roles \<Rightarrow> (string, vertice_set) umap \<Rightarrow> bool" where
  "list_rep WR l \<longleftrightarrow> um_wf l \<and> (\<forall>u. um_wf (um_at [] u l)) \<and>
     (\<forall>u k v. map_of (um_at [] u l) k = Some v \<longleftrightarrow> (\<exists>c. (u, c) \<in> fst WR \<and> (v, c) \<in> snd WR \<and> k = edge_key (v, c))) \<and>
     flows WR \<subseteq> dom (map_of l) \<times> dom (map_of l)"

definition g_rep :: "roles \<Rightarrow> graph \<Rightarrow> bool" where
  "g_rep WR g \<longleftrightarrow> edges_rep WR (g_edges g) \<and> list_rep WR (g_list g)"

lemma GetKey_edge_key [simp]: "e_GetKey \<lparr>e_src = u, e_dst = v, e_value = c\<rparr> = edge_key (v, c)"
  by (simp add: e_GetKey_def edge_key_def)

lemma fold_edges: "fold (\<lambda>item. f (h (snd item))) xs = fold f (map (\<lambda>item. h (snd item)) xs)"
  by (simp add: fold_map comp_def)

lemma edges_to:
  "vs_rep vs A \<Longrightarrow> \<lparr>e_src = u, e_dst = v, e_value = c\<rparr> \<in> set (map (\<lambda>item. \<lparr>e_src = s, e_dst = snd item, e_value = ch\<rparr>) vs) \<longleftrightarrow>
    u = s \<and> v \<in> A \<and> c = ch"
  using vs_rep_vals [of vs A] by auto

lemma edges_from:
  "vs_rep vs A \<Longrightarrow> \<lparr>e_src = u, e_dst = v, e_value = c\<rparr> \<in> set (map (\<lambda>item. \<lparr>e_src = snd item, e_dst = d, e_value = ch\<rparr>) vs) \<longleftrightarrow>
    u \<in> A \<and> v = d \<and> c = ch"
  using vs_rep_vals [of vs A] by auto

text \<open>The four updates of the adjacency list, over the sets of writers and readers.\<close>

lemma list_rep_insert:
  assumes rep: "list_rep (W, R) l" and inj: "inj_on edge_key P" and R: "R' \<subseteq> P" "R \<subseteq> R'"
    and es: "\<And>u v c. \<lparr>e_src = u, e_dst = v, e_value = c\<rparr> \<in> set es \<longleftrightarrow> (u, c) \<in> W' \<and> (v, c) \<in> R' \<and> c = ch \<and> ((u, c) \<notin> W \<or> (v, c) \<notin> R)"
    and W: "W \<subseteq> W'" "\<And>u c. (u, c) \<in> W' \<Longrightarrow> c \<noteq> ch \<Longrightarrow> (u, c) \<in> W" "\<And>v c. (v, c) \<in> R' \<Longrightarrow> c \<noteq> ch \<Longrightarrow> (v, c) \<in> R"
  shows "list_rep (W', R') (fold InsertCompleteEdge es l)"
proof -
  have mem: "e \<in> set es \<longleftrightarrow> (e_src e, e_value e) \<in> W' \<and> (e_dst e, e_value e) \<in> R' \<and> e_value e = ch \<and>
      ((e_src e, e_value e) \<notin> W \<or> (e_dst e, e_value e) \<notin> R)" for e
    using es [of "e_src e" "e_dst e" "e_value e"] by (cases e) simp
  have key: "e_GetKey e = edge_key (e_dst e, e_value e)" for e by (simp add: e_GetKey_def edge_key_def)
  have inj: "v = v' \<and> c = c'" if "edge_key (v, c) = edge_key (v', c')" "(v, c) \<in> R'" "(v', c') \<in> R'" for v c v' c'
    using inj_onD [OF inj that(1)] R(1) that(2,3) by auto
  have fun_keys: "e_dst e = e_dst e'" if "e \<in> set es" "e' \<in> set es" "e_GetKey e = e_GetKey e'" for e e'
    using inj [of "e_dst e" "e_value e" "e_dst e'" "e_value e'"] that by (auto simp: mem key)
  have old: "map_of (um_at [] u l) k = Some v \<longleftrightarrow> (\<exists>c. (u, c) \<in> W \<and> (v, c) \<in> R \<and> k = edge_key (v, c))" for u k v
    using rep by (simp add: list_rep_def)
  have "map_of (um_at [] u (fold InsertCompleteEdge es l)) k = Some v \<longleftrightarrow>
      (\<exists>c. (u, c) \<in> W' \<and> (v, c) \<in> R' \<and> k = edge_key (v, c))" (is "?L \<longleftrightarrow> ?R") for u k v
  proof -
    have ins: "?L \<longleftrightarrow> (\<exists>e \<in> set es. e_src e = u \<and> e_GetKey e = k \<and> e_dst e = v) \<or>
      (\<forall>e \<in> set es. e_src e = u \<longrightarrow> e_GetKey e \<noteq> k) \<and> map_of (um_at [] u l) k = Some v"
      by (rule insert_edges_at) (rule fun_keys)
    show ?thesis
  proof
    assume ?L
    then consider e where "e \<in> set es" "e_src e = u" "e_GetKey e = k" "e_dst e = v" | "map_of (um_at [] u l) k = Some v"
      unfolding ins by blast
    then show ?R
    proof cases
      case 1
      then show ?thesis using mem [of e] key [of e] by blast
    next
      case 2
      then show ?thesis using W(1) R(2) unfolding old by blast
    qed
  next
    assume ?R
    then obtain c where c: "(u, c) \<in> W'" "(v, c) \<in> R'" "k = edge_key (v, c)" by blast
    show ?L
    proof (cases "(u, c) \<in> W \<and> (v, c) \<in> R")
      case True
      have "e_GetKey e \<noteq> k" if "e \<in> set es" "e_src e = u" for e
        using inj [of "e_dst e" "e_value e" v c] that c True by (auto simp: mem key)
      then show ?thesis unfolding ins old using True c(3) by blast
    next
      case False
      then have "\<lparr>e_src = u, e_dst = v, e_value = c\<rparr> \<in> set es" using es c W(2,3) by blast
      then show ?thesis unfolding ins using c(3) by (intro disjI1 bexI) simp_all
    qed
  qed
  qed
  moreover have "flows (W', R') \<subseteq> dom (map_of (fold InsertCompleteEdge es l)) \<times> dom (map_of (fold InsertCompleteEdge es l))"
  proof clarify
    fix u v assume "(u, v) \<in> flows (W', R')"
    then obtain c where c: "(u, c) \<in> W'" "(v, c) \<in> R'" by (auto simp: flows_def)
    show "u \<in> dom (map_of (fold InsertCompleteEdge es l)) \<and> v \<in> dom (map_of (fold InsertCompleteEdge es l))"
    proof (cases "(u, c) \<in> W \<and> (v, c) \<in> R")
      case True
      then have "(u, v) \<in> flows (W, R)" by (auto simp: flows_def)
      then show ?thesis using rep unfolding insert_edges_dom by (auto simp: list_rep_def)
    next
      case False
      then have "\<lparr>e_src = u, e_dst = v, e_value = c\<rparr> \<in> set es" using es c W(2,3) by blast
      then show ?thesis unfolding insert_edges_dom by force
    qed
  qed
  ultimately show ?thesis using rep by (simp add: list_rep_def insert_edges_wf insert_edges_at_wf)
qed

lemma list_rep_delete:
  assumes rep: "list_rep (W, R) l" and inj: "inj_on edge_key P" and R: "R \<subseteq> P" "R' \<subseteq> R" "W' \<subseteq> W"
    and es: "\<And>u v c. \<lparr>e_src = u, e_dst = v, e_value = c\<rparr> \<in> set es \<longleftrightarrow>
      (u, c) \<in> W \<and> (v, c) \<in> R \<and> ((u, c) \<notin> W' \<or> (v, c) \<notin> R')"
  shows "list_rep (W', R') (fold DeleteCompleteEdge es l)"
proof -
  have mem: "e \<in> set es \<longleftrightarrow> (e_src e, e_value e) \<in> W \<and> (e_dst e, e_value e) \<in> R \<and>
      ((e_src e, e_value e) \<notin> W' \<or> (e_dst e, e_value e) \<notin> R')" for e
    using es [of "e_src e" "e_dst e" "e_value e"] by (cases e) simp
  have key: "e_GetKey e = edge_key (e_dst e, e_value e)" for e by (simp add: e_GetKey_def edge_key_def)
  have inj: "v = v' \<and> c = c'" if "edge_key (v, c) = edge_key (v', c')" "(v, c) \<in> R" "(v', c') \<in> R" for v c v' c'
    using inj_onD [OF inj that(1)] R(1) that(2,3) by auto
  have old: "map_of (um_at [] u l) k = Some v \<longleftrightarrow> (\<exists>c. (u, c) \<in> W \<and> (v, c) \<in> R \<and> k = edge_key (v, c))" for u k v
    using rep by (simp add: list_rep_def)
  have "map_of (um_at [] u (fold DeleteCompleteEdge es l)) k = Some v \<longleftrightarrow>
      (\<exists>c. (u, c) \<in> W' \<and> (v, c) \<in> R' \<and> k = edge_key (v, c))" (is "?L \<longleftrightarrow> ?R") for u k v
  proof
    assume L: ?L
    then obtain c where c: "(u, c) \<in> W" "(v, c) \<in> R" "k = edge_key (v, c)"
      using old [of u k v] by (auto simp: delete_edges_at split: if_splits)
    have "\<lparr>e_src = u, e_dst = v, e_value = c\<rparr> \<notin> set es"
      using L c(3) by (force simp: delete_edges_at split: if_splits)
    then show ?R using es c by blast
  next
    assume ?R
    then obtain c where c: "(u, c) \<in> W'" "(v, c) \<in> R'" "k = edge_key (v, c)" by blast
    then have "e_GetKey e \<noteq> k" if "e \<in> set es" "e_src e = u" for e
      using inj [of "e_dst e" "e_value e" v c] that R(2) by (auto simp: mem key)
    moreover have "map_of (um_at [] u l) k = Some v" using old c R(2,3) by blast
    ultimately show ?L by (auto simp: delete_edges_at)
  qed
  moreover have "flows (W', R') \<subseteq> flows (W, R)" using R(2,3) by (auto simp: flows_def)
  ultimately show ?thesis using rep
    by (auto simp: list_rep_def delete_edges_wf delete_edges_at_wf delete_edges_dom)
qed

section \<open>Half edges\<close>

lemma g_repD:
  assumes "g_rep (W, R) g"
  shows "vs_rep (rv_src (um_at RelatedVertices c (g_edges g))) {u. (u, c) \<in> W}"
    and "vs_rep (rv_dst (um_at RelatedVertices c (g_edges g))) {v. (v, c) \<in> R}"
    and "edges_rep (W, R) (g_edges g)" and "list_rep (W, R) (g_list g)"
  using assms by (simp_all add: g_rep_def edges_rep_def)

lemma edges_rep_set:
  assumes "edges_rep (W, R) es" and "vs_rep (rv_src rv) {u. (u, c) \<in> W'}" and "vs_rep (rv_dst rv) {v. (v, c) \<in> R'}"
    and "\<And>u c'. c' \<noteq> c \<Longrightarrow> (u, c') \<in> W' \<longleftrightarrow> (u, c') \<in> W" and "\<And>v c'. c' \<noteq> c \<Longrightarrow> (v, c') \<in> R' \<longleftrightarrow> (v, c') \<in> R"
  shows "edges_rep (W', R') (um_set c rv es)"
  using assms by (auto simp: edges_rep_def)

lemma InsertOutgoingEdge_rep:
  assumes rep: "g_rep (W, R) g" and inj: "inj_on edge_key P" and R: "R \<subseteq> P"
  shows "g_rep (insert (e_src e, e_value e) W, R) (InsertOutgoingEdge e g)"
proof (cases "(e_src e, e_value e) \<in> W")
  case True
  let ?rv = "um_at RelatedVertices (e_value e) (g_edges g)"
  have "vs_rep (rv_src ?rv) {u. (u, e_value e) \<in> W}" using rep by (rule g_repD)
  then have "map_of (rv_src ?rv) (e_src e) \<noteq> None" using True by (simp add: vs_rep_mem del: not_None_eq)
  then show ?thesis using rep True by (simp add: InsertOutgoingEdge_def insert_absorb)
next
  case False
  let ?rv = "um_at RelatedVertices (e_value e) (g_edges g)" and ?W = "insert (e_src e, e_value e) W"
  have src: "vs_rep (rv_src ?rv) {u. (u, e_value e) \<in> W}" and dst: "vs_rep (rv_dst ?rv) {v. (v, e_value e) \<in> R}"
    and es: "edges_rep (W, R) (g_edges g)" and l: "list_rep (W, R) (g_list g)"
    using rep by (rule g_repD)+
  have none: "map_of (rv_src ?rv) (e_src e) = None" using src False by (simp add: vs_rep_mem)
  have "{u. (u, e_value e) \<in> ?W} = insert (e_src e) {u. (u, e_value e) \<in> W}" by auto
  then have ins: "vs_rep (um_set (e_src e) (e_src e) (rv_src ?rv)) {u. (u, e_value e) \<in> ?W}"
    using vs_rep_insert [OF src] by simp
  have "edges_rep (?W, R) (um_set (e_value e) (?rv\<lparr>rv_src := um_set (e_src e) (e_src e) (rv_src ?rv)\<rparr>) (g_edges g))"
    using ins src dst by (intro edges_rep_set [OF es]) simp_all
  moreover have "list_rep (?W, R) (fold InsertCompleteEdge
      (map (\<lambda>item. \<lparr>e_src = e_src e, e_dst = snd item, e_value = e_value e\<rparr>) (rv_dst ?rv)) (g_list g))"
    by (rule list_rep_insert [OF l inj R order_refl, where ch = "e_value e"])
      (use False in \<open>auto simp only: edges_to [OF dst] mem_Collect_eq insert_iff prod.inject\<close>)
  ultimately show ?thesis using none
    by (simp add: g_rep_def InsertOutgoingEdge_def Let_def fold_edges [where h = "\<lambda>v. \<lparr>e_src = e_src e, e_dst = v, e_value = e_value e\<rparr>"])
qed

lemma InsertIncomingEdge_rep:
  assumes rep: "g_rep (W, R) g" and inj: "inj_on edge_key P" and R: "insert (e_dst e, e_value e) R \<subseteq> P"
  shows "g_rep (W, insert (e_dst e, e_value e) R) (InsertIncomingEdge e g)"
proof (cases "(e_dst e, e_value e) \<in> R")
  case True
  let ?rv = "um_at RelatedVertices (e_value e) (g_edges g)"
  have "vs_rep (rv_dst ?rv) {u. (u, e_value e) \<in> R}" using rep by (rule g_repD)
  then have "map_of (rv_dst ?rv) (e_dst e) \<noteq> None" using True by (simp add: vs_rep_mem del: not_None_eq)
  then show ?thesis using rep True by (simp add: InsertIncomingEdge_def insert_absorb)
next
  case False
  let ?rv = "um_at RelatedVertices (e_value e) (g_edges g)" and ?R = "insert (e_dst e, e_value e) R"
  have src: "vs_rep (rv_src ?rv) {u. (u, e_value e) \<in> W}" and dst: "vs_rep (rv_dst ?rv) {v. (v, e_value e) \<in> R}"
    and es: "edges_rep (W, R) (g_edges g)" and l: "list_rep (W, R) (g_list g)"
    using rep by (rule g_repD)+
  have none: "map_of (rv_dst ?rv) (e_dst e) = None" using dst False by (simp add: vs_rep_mem)
  have "{u. (u, e_value e) \<in> ?R} = insert (e_dst e) {u. (u, e_value e) \<in> R}" by auto
  then have ins: "vs_rep (um_set (e_dst e) (e_dst e) (rv_dst ?rv)) {u. (u, e_value e) \<in> ?R}"
    using vs_rep_insert [OF dst] by simp
  have "edges_rep (W, ?R) (um_set (e_value e) (?rv\<lparr>rv_dst := um_set (e_dst e) (e_dst e) (rv_dst ?rv)\<rparr>) (g_edges g))"
    using ins src dst by (intro edges_rep_set [OF es]) simp_all
  moreover have "list_rep (W, ?R) (fold InsertCompleteEdge
      (map (\<lambda>item. \<lparr>e_src = snd item, e_dst = e_dst e, e_value = e_value e\<rparr>) (rv_src ?rv)) (g_list g))"
    by (rule list_rep_insert [OF l inj R subset_insertI, where ch = "e_value e"])
      (use False in \<open>auto simp only: edges_from [OF src] mem_Collect_eq insert_iff prod.inject\<close>)
  ultimately show ?thesis using none
    by (simp add: g_rep_def InsertIncomingEdge_def Let_def fold_edges [where h = "\<lambda>u. \<lparr>e_src = u, e_dst = e_dst e, e_value = e_value e\<rparr>"])
qed

lemma DeleteOutgoingEdge_rep:
  assumes rep: "g_rep (W, R) g" and inj: "inj_on edge_key P" and R: "R \<subseteq> P"
  shows "g_rep (W - {(e_src e, e_value e)}, R) (DeleteOutgoingEdge e g)"
proof -
  let ?rv = "um_at RelatedVertices (e_value e) (g_edges g)" and ?W = "W - {(e_src e, e_value e)}"
  have src: "vs_rep (rv_src ?rv) {u. (u, e_value e) \<in> W}" and dst: "vs_rep (rv_dst ?rv) {v. (v, e_value e) \<in> R}"
    and es: "edges_rep (W, R) (g_edges g)" and l: "list_rep (W, R) (g_list g)"
    using rep by (rule g_repD)+
  show ?thesis
  proof (cases "(e_src e, e_value e) \<in> W")
    case False
    then have "map_of (rv_src ?rv) (e_src e) = None" using src by (simp add: vs_rep_mem)
    then show ?thesis using rep False by (simp add: DeleteOutgoingEdge_def)
  next
    case True
    have some: "map_of (rv_src ?rv) (e_src e) \<noteq> None" using src True by (simp add: vs_rep_mem del: not_None_eq)
    have "{u. (u, e_value e) \<in> ?W} = {u. (u, e_value e) \<in> W} - {e_src e}" by auto
    then have del: "vs_rep (um_erase (e_src e) (rv_src ?rv)) {u. (u, e_value e) \<in> ?W}"
      using vs_rep_erase [OF src, of "e_src e"] by simp
    have "edges_rep (?W, R) (um_set (e_value e) (?rv\<lparr>rv_src := um_erase (e_src e) (rv_src ?rv)\<rparr>) (g_edges g))"
      using del src dst by (intro edges_rep_set [OF es]) simp_all
    moreover have "list_rep (?W, R) (fold DeleteCompleteEdge
        (map (\<lambda>item. \<lparr>e_src = e_src e, e_dst = snd item, e_value = e_value e\<rparr>) (rv_dst ?rv)) (g_list g))"
      by (rule list_rep_delete [OF l inj R order_refl])
        (use True in \<open>auto simp only: edges_to [OF dst] mem_Collect_eq Diff_iff singleton_iff prod.inject\<close>)
    ultimately show ?thesis using some
      by (auto simp: g_rep_def DeleteOutgoingEdge_def Let_def fold_edges [where h = "\<lambda>v. \<lparr>e_src = e_src e, e_dst = v, e_value = e_value e\<rparr>"])
  qed
qed

lemma DeleteIncomingEdge_rep:
  assumes rep: "g_rep (W, R) g" and inj: "inj_on edge_key P" and R: "R \<subseteq> P"
  shows "g_rep (W, R - {(e_dst e, e_value e)}) (DeleteIncomingEdge e g)"
proof -
  let ?rv = "um_at RelatedVertices (e_value e) (g_edges g)" and ?R = "R - {(e_dst e, e_value e)}"
  have src: "vs_rep (rv_src ?rv) {u. (u, e_value e) \<in> W}" and dst: "vs_rep (rv_dst ?rv) {v. (v, e_value e) \<in> R}"
    and es: "edges_rep (W, R) (g_edges g)" and l: "list_rep (W, R) (g_list g)"
    using rep by (rule g_repD)+
  show ?thesis
  proof (cases "(e_dst e, e_value e) \<in> R")
    case False
    then have "map_of (rv_dst ?rv) (e_dst e) = None" using dst by (simp add: vs_rep_mem)
    then show ?thesis using rep False by (simp add: DeleteIncomingEdge_def)
  next
    case True
    have some: "map_of (rv_dst ?rv) (e_dst e) \<noteq> None" using dst True by (simp add: vs_rep_mem del: not_None_eq)
    have "{u. (u, e_value e) \<in> ?R} = {u. (u, e_value e) \<in> R} - {e_dst e}" by auto
    then have del: "vs_rep (um_erase (e_dst e) (rv_dst ?rv)) {u. (u, e_value e) \<in> ?R}"
      using vs_rep_erase [OF dst, of "e_dst e"] by simp
    have "edges_rep (W, ?R) (um_set (e_value e) (?rv\<lparr>rv_dst := um_erase (e_dst e) (rv_dst ?rv)\<rparr>) (g_edges g))"
      using del src dst by (intro edges_rep_set [OF es]) simp_all
    moreover have "list_rep (W, ?R) (fold DeleteCompleteEdge
        (map (\<lambda>item. \<lparr>e_src = snd item, e_dst = e_dst e, e_value = e_value e\<rparr>) (rv_src ?rv)) (g_list g))"
      by (rule list_rep_delete [OF l inj R Diff_subset order_refl])
        (use True in \<open>auto simp only: edges_from [OF src] mem_Collect_eq Diff_iff singleton_iff prod.inject\<close>)
    ultimately show ?thesis using some
      by (auto simp: g_rep_def DeleteIncomingEdge_def Let_def fold_edges [where h = "\<lambda>u. \<lparr>e_src = u, e_dst = e_dst e, e_value = e_value e\<rparr>"])
  qed
qed

section \<open>Directions\<close>

lemma g_Insert_rep:
  assumes rep: "g_rep (W, R) g" and inj: "inj_on edge_key P" and R: "R \<union> reader_of e \<subseteq> P"
  shows "g_rep (W \<union> writer_of e, R \<union> reader_of e) (g_Insert e g)"
proof (cases "e_IsValid e")
  case True
  let ?g = "if map_of (g_edges g) (e_value e) = None then g\<lparr>g_edges := um_set (e_value e) RelatedVertices (g_edges g)\<rparr> else g"
  let ?g' = "if IsDummy (e_src e) then ?g else InsertOutgoingEdge e ?g"
  have "um_at RelatedVertices c (g_edges ?g) = um_at RelatedVertices c (g_edges g)" for c
    by (auto simp: um_at_def)
  then have "g_rep (W, R) ?g" using rep by (simp add: g_rep_def edges_rep_def)
  then have "g_rep (W \<union> writer_of e, R) ?g'"
    using InsertOutgoingEdge_rep [OF _ inj, of W R ?g e] R True by (auto simp: writer_of_def)
  moreover have "g_Insert e g = (if IsDummy (e_dst e) then ?g' else InsertIncomingEdge e ?g')"
    using True by (simp add: g_Insert_def Let_def)
  ultimately show ?thesis
    using InsertIncomingEdge_rep [OF _ inj, of "W \<union> writer_of e" R ?g' e] R True by (auto simp: reader_of_def)
qed (use rep in \<open>simp add: g_Insert_def writer_of_def reader_of_def\<close>)

lemma g_Delete_rep:
  assumes rep: "g_rep (W, R) g" and inj: "inj_on edge_key P" and R: "R \<subseteq> P"
  shows "g_rep (W - writer_of e, R - reader_of e) (g_Delete e g)"
proof (cases "e_IsValid e")
  case True
  let ?g' = "if IsDummy (e_src e) then g else DeleteOutgoingEdge e g"
  show ?thesis
  proof (cases "map_of (g_edges g) (e_value e)")
    case None
    then have "um_at RelatedVertices (e_value e) (g_edges g) = RelatedVertices" by (simp add: um_at_def)
    then have "{u. (u, e_value e) \<in> W} = {}" "{v. (v, e_value e) \<in> R} = {}"
      using g_repD(1,2) [OF rep, of "e_value e"] by (auto simp: RelatedVertices_def vs_rep_def split: if_splits)
    then have "W - writer_of e = W" "R - reader_of e = R" by (auto simp: writer_of_def reader_of_def)
    then show ?thesis using rep None True by (simp add: g_Delete_def)
  next
    case (Some rv)
    have "g_rep (W - writer_of e, R) ?g'"
      using DeleteOutgoingEdge_rep [OF rep inj R, of e] rep True by (auto simp: writer_of_def)
    moreover have "g_Delete e g = (if IsDummy (e_dst e) then ?g' else DeleteIncomingEdge e ?g')"
      using True Some by (simp add: g_Delete_def Let_def)
    ultimately show ?thesis
      using DeleteIncomingEdge_rep [OF _ inj R, of "W - writer_of e" ?g' e] True by (auto simp: reader_of_def)
  qed
qed (use rep in \<open>simp add: g_Delete_def writer_of_def reader_of_def\<close>)

lemma run_rep:
  assumes "g_rep WR g" and "inj_on edge_key P" and "snd WR \<union> (\<Union>ev \<in> set evs. joined ev) \<subseteq> P"
  shows "g_rep (fold roles_apply evs WR) (fold g_apply evs g)"
  using assms(1,3)
proof (induction evs arbitrary: WR g)
  case (Cons ev evs)
  obtain W R where WR: "WR = (W, R)" by (cases WR)
  have "g_rep (roles_apply ev WR) (g_apply ev g) \<and> snd (roles_apply ev WR) \<subseteq> P"
  proof (cases ev)
    case (Joins e)
    then have "R \<union> reader_of e \<subseteq> P" using Cons.prems(2) WR by auto
    then show ?thesis using g_Insert_rep [OF _ assms(2)] Cons.prems(1) WR Joins by simp
  next
    case (Leaves e)
    then have "R \<subseteq> P" using Cons.prems(2) WR by auto
    then show ?thesis using g_Delete_rep [OF _ assms(2)] Cons.prems(1) WR Leaves by auto
  qed
  then show ?case using Cons.IH [of "roles_apply ev WR" "g_apply ev g"] Cons.prems(2) by simp
qed simp

lemma rep_Graph: "g_rep ({}, {}) Graph"
  by (simp add: g_rep_def Graph_def edges_rep_def list_rep_def vs_rep_def RelatedVertices_def flows_def)

lemma rep_adj: "list_rep WR l \<Longrightarrow> adj l = flows WR"
proof -
  assume rep: "list_rep WR l"
  have "v \<in> set (neighbours l u) \<longleftrightarrow> (\<exists>k. map_of (um_at [] u l) k = Some v)" for u v
  proof -
    have "um_wf (um_at [] u l)" using rep by (simp add: list_rep_def)
    then show ?thesis by (force simp: neighbours_def)
  qed
  moreover have "map_of (um_at [] u l) k = Some v \<longleftrightarrow> (\<exists>c. (u, c) \<in> fst WR \<and> (v, c) \<in> snd WR \<and> k = edge_key (v, c))" for u k v
    using rep by (simp add: list_rep_def)
  ultimately show ?thesis by (auto simp: adj_def flows_def)
qed

lemma LevelTraverse_rep:
  assumes rep: "list_rep WR l" and "map_of l u \<noteq> None"
  shows "LevelTraverse u v l = ((u, v) \<in> (flows WR)\<^sup>*, l)"
proof (rule prod_eqI)
  have vals: "x \<in> all_vals l \<Longrightarrow> \<exists>y. (y, x) \<in> flows WR" for x
  proof -
    assume "x \<in> all_vals l"
    then obtain y vs where "(y, vs) \<in> set l" "x \<in> set (um_vals vs)" unfolding all_vals_def by auto (metis snd_conv image_eqI)
    then have "x \<in> set (neighbours l y)" using rep by (simp add: neighbours_def um_at_def list_rep_def)
    then show ?thesis using rep_adj [OF rep] by (auto simp: adj_def)
  qed
  have "flows WR \<subseteq> dom (map_of l) \<times> dom (map_of l)" using rep by (simp add: list_rep_def)
  then have "\<forall>x \<in> set [u] \<union> all_vals l. map_of l x \<noteq> None" using vals assms(2) by fastforce
  then show "snd (LevelTraverse u v l) = snd ((u, v) \<in> (flows WR)\<^sup>*, l)"
    unfolding LevelTraverse_def snd_conv by (rule traverse_loop_unchanged)
qed (simp add: LevelTraverse_reach rep_adj [OF rep])

lemma flows_outside:
  assumes "list_rep WR l" and "map_of l u = None" and "u \<noteq> v"
  shows "(u, v) \<notin> (flows WR)\<^sup>*" and "(v, u) \<notin> (flows WR)\<^sup>*"
  using assms by (auto simp: list_rep_def elim: converse_rtranclE rtranclE)

lemma direction_of_rep:
  assumes "g_rep WR g" and "u \<noteq> v" and "u \<noteq> []" and "v \<noteq> []"
  shows "GetDirectionOf u v g =
    (if (u, v) \<in> (flows WR)\<^sup>* then UPSTREAM else if (v, u) \<in> (flows WR)\<^sup>* then DOWNSTREAM else UNREACHABLE, g)"
proof -
  have rep: "list_rep WR (g_list g)" using assms(1) by (simp add: g_rep_def)
  show ?thesis
  proof (cases "map_of (g_list g) u = None \<or> map_of (g_list g) v = None")
    case True
    then have "(u, v) \<notin> (flows WR)\<^sup>*" "(v, u) \<notin> (flows WR)\<^sup>*" using flows_outside [OF rep] assms(2) by metis+
    then show ?thesis using True by (auto simp: GetDirectionOf_def)
  next
    case False
    then show ?thesis
      using LevelTraverse_rep [OF rep, of u v] LevelTraverse_rep [OF rep, of v u] assms(3,4)
      by (simp add: GetDirectionOf_def IsDummy_def)
  qed
qed



text \<open>
  Edge keys can coincide: the channel a read by b\_c and the channel a\_b read by c have the
  same key, and a node that writes both channels loses its edge to the first reader, although its
  messages still flow there.
\<close>

lemma colliding_keys_lose_an_edge:
  "let evs = [Joins \<lparr>e_src = '''', e_dst = ''b_c'', e_value = ''a''\<rparr>, Joins \<lparr>e_src = '''', e_dst = ''c'', e_value = ''a_b''\<rparr>,
       Joins \<lparr>e_src = ''w'', e_dst = '''', e_value = ''a''\<rparr>, Joins \<lparr>e_src = ''w'', e_dst = '''', e_value = ''a_b''\<rparr>]
   in fst (GetDirectionOf ''w'' ''b_c'' (fold g_apply evs Graph)) = UNREACHABLE \<and>
      (''w'', ''b_c'') \<in> flows (fold roles_apply evs ({}, {}))"
proof -
  let ?evs = "[Joins \<lparr>e_src = '''', e_dst = ''b_c'', e_value = ''a''\<rparr>, Joins \<lparr>e_src = '''', e_dst = ''c'', e_value = ''a_b''\<rparr>,
       Joins \<lparr>e_src = ''w'', e_dst = '''', e_value = ''a''\<rparr>, Joins \<lparr>e_src = ''w'', e_dst = '''', e_value = ''a_b''\<rparr>]"
  have "fst (GetDirectionOf ''w'' ''b_c'' (fold g_apply ?evs Graph)) = UNREACHABLE" by code_simp
  moreover have "(''w'', ''b_c'') \<in> flows (fold roles_apply ?evs ({}, {}))"
    by (simp add: flows_def writer_of_def reader_of_def e_IsValid_def IsDummy_def)
  ultimately show ?thesis by (simp only: Let_def simp_thms)
qed

end
