(* ===== verification/Topo_Channel.thy ===== *)
theory Topo_Channel
  imports Topo_Manager Topo_Graph
begin

text \<open>
  The manager of channels (\<^verbatim>\<open>specific_manager/channel_manager\<close>): writers and readers are kept by
  channel and by node, the graph of nodes follows their joining and leaving, and the message types
  of a channel are compared.

  The manager as a state machine: orderly joins and leaves of writers and readers are the steps of
  the relation \<open>cm_step\<close>, and an invariant ties the four warehouses to each other and to the graph.
\<close>

section \<open>ChannelManager\<close>

record 'cb channel_manager = "'cb manager" +
  cm_exempted :: "string list"
  cm_graph :: graph
  cm_node_writers :: multi_map
  cm_node_readers :: multi_map
  cm_channel_writers :: multi_map
  cm_channel_readers :: multi_map

definition ChannelManager :: "string \<Rightarrow> int \<Rightarrow> 'cb channel_manager" where
  "ChannelManager host_name process_id =
     manager.extend (Manager host_name process_id
       \<lparr>m_allowed_role := (0 OR role_bit ROLE_WRITER) OR role_bit ROLE_READER, m_change_type := CHANGE_CHANNEL,
        m_channel_name := ''channel_change_broadcast''\<rparr>)
       \<lparr>cm_exempted = [''apollo.cyber.message.RawMessage'', ''apollo.cyber.message.PyMessage''], cm_graph = Graph,
        cm_node_writers = [], cm_node_readers = [], cm_channel_writers = [], cm_channel_readers = []\<rparr>"

definition cm_GetChannelNames :: "string list \<Rightarrow> 'cb channel_manager \<Rightarrow> string list" where
  "cm_GetChannelNames channels m =
     (let roles = mw_GetAllRoles (mw_GetAllRoles [] (cm_channel_writers m)) (cm_channel_readers m)
      in channels @ remdups (map (\<lambda>r. str_of (ra_channel_name (r_attributes r))) roles))"

definition cm_GetProtoDesc ::
  "(string \<Rightarrow> u64) \<Rightarrow> string \<Rightarrow> string \<Rightarrow> 'cb channel_manager \<Rightarrow> global_data \<Rightarrow> (string \<times> global_data) option" where
  "cm_GetProtoDesc Hash channel_name proto_desc m g = do {
     (key, g) \<leftarrow> RegisterChannel Hash channel_name g;
     Some (case mw_Search_role key (cm_channel_writers m) of None \<Rightarrow> proto_desc
       | Some writer \<Rightarrow> if ra_proto_desc (r_attributes writer) \<noteq> None then str_of (ra_proto_desc (r_attributes writer)) else proto_desc, g) }"

definition cm_GetMsgType ::
  "(string \<Rightarrow> u64) \<Rightarrow> string \<Rightarrow> string \<Rightarrow> 'cb channel_manager \<Rightarrow> global_data \<Rightarrow> (string \<times> global_data) option" where
  "cm_GetMsgType Hash channel_name msg_type m g = do {
     (key, g) \<leftarrow> RegisterChannel Hash channel_name g;
     Some (case mw_Search_role key (cm_channel_writers m) of None \<Rightarrow> msg_type
       | Some writer \<Rightarrow> if ra_message_type (r_attributes writer) \<noteq> None then str_of (ra_message_type (r_attributes writer)) else msg_type, g) }"

definition cm_HasWriter :: "(string \<Rightarrow> u64) \<Rightarrow> string \<Rightarrow> 'cb channel_manager \<Rightarrow> global_data \<Rightarrow> (bool \<times> global_data) option" where
  "cm_HasWriter Hash channel_name m g = do {
     (key, g) \<leftarrow> RegisterChannel Hash channel_name g; Some (mw_Search key (cm_channel_writers m), g) }"

definition cm_GetWriters :: "role_attributes list \<Rightarrow> 'cb channel_manager \<Rightarrow> role_attributes list" where
  "cm_GetWriters writers m = mw_GetAllRoles_attr writers (cm_channel_writers m)"

definition cm_GetWritersOfNode ::
  "(string \<Rightarrow> u64) \<Rightarrow> string \<Rightarrow> role_attributes list \<Rightarrow> 'cb channel_manager \<Rightarrow> global_data \<Rightarrow> (role_attributes list \<times> global_data) option" where
  "cm_GetWritersOfNode Hash node_name writers m g = do {
     (key, g) \<leftarrow> RegisterNode Hash node_name g; Some (snd (mw_Search_attrs key writers (cm_node_writers m)), g) }"

definition cm_GetWritersOfChannel ::
  "(string \<Rightarrow> u64) \<Rightarrow> string \<Rightarrow> role_attributes list \<Rightarrow> 'cb channel_manager \<Rightarrow> global_data \<Rightarrow> (role_attributes list \<times> global_data) option" where
  "cm_GetWritersOfChannel Hash channel_name writers m g = do {
     (key, g) \<leftarrow> RegisterChannel Hash channel_name g; Some (snd (mw_Search_attrs key writers (cm_channel_writers m)), g) }"

definition cm_HasReader :: "(string \<Rightarrow> u64) \<Rightarrow> string \<Rightarrow> 'cb channel_manager \<Rightarrow> global_data \<Rightarrow> (bool \<times> global_data) option" where
  "cm_HasReader Hash channel_name m g = do {
     (key, g) \<leftarrow> RegisterChannel Hash channel_name g; Some (mw_Search key (cm_channel_readers m), g) }"

definition cm_GetReaders :: "role_attributes list \<Rightarrow> 'cb channel_manager \<Rightarrow> role_attributes list" where
  "cm_GetReaders readers m = mw_GetAllRoles_attr readers (cm_channel_readers m)"

definition cm_GetReadersOfNode ::
  "(string \<Rightarrow> u64) \<Rightarrow> string \<Rightarrow> role_attributes list \<Rightarrow> 'cb channel_manager \<Rightarrow> global_data \<Rightarrow> (role_attributes list \<times> global_data) option" where
  "cm_GetReadersOfNode Hash node_name readers m g = do {
     (key, g) \<leftarrow> RegisterNode Hash node_name g; Some (snd (mw_Search_attrs key readers (cm_node_readers m)), g) }"

definition cm_GetReadersOfChannel ::
  "(string \<Rightarrow> u64) \<Rightarrow> string \<Rightarrow> role_attributes list \<Rightarrow> 'cb channel_manager \<Rightarrow> global_data \<Rightarrow> (role_attributes list \<times> global_data) option" where
  "cm_GetReadersOfChannel Hash channel_name readers m g = do {
     (key, g) \<leftarrow> RegisterChannel Hash channel_name g; Some (snd (mw_Search_attrs key readers (cm_channel_readers m)), g) }"

text \<open>The nodes of a list of roles, one entry per name; a later role of the same name replaces an earlier one.\<close>

definition nodes_of :: "role_attributes list \<Rightarrow> role_attributes list" where
  "nodes_of roles = um_vals (fold (\<lambda>r. um_set (str_of (ra_node_name r))
     (RoleAttributes\<lparr>ra_host_name := Some (str_of (ra_host_name r)), ra_process_id := Some (int_of (ra_process_id r)),
       ra_node_name := Some (str_of (ra_node_name r)), ra_node_id := Some (u64_of (ra_node_id r))\<rparr>)) roles [])"

text \<open>The loop that collects the roles of several channels.\<close>

fun of_channels ::
  "(string \<Rightarrow> role_attributes list \<Rightarrow> global_data \<Rightarrow> (role_attributes list \<times> global_data) option) \<Rightarrow>
     string list \<Rightarrow> role_attributes list \<Rightarrow> global_data \<Rightarrow> (role_attributes list \<times> global_data) option" where
  "of_channels get [] roles g = Some (roles, g)"
| "of_channels get (c # cs) roles g = do { (roles, g) \<leftarrow> get c roles g; of_channels get cs roles g }"

definition cm_GetUpstreamOfNode ::
  "(string \<Rightarrow> u64) \<Rightarrow> string \<Rightarrow> role_attributes list \<Rightarrow> 'cb channel_manager \<Rightarrow> global_data \<Rightarrow> (role_attributes list \<times> global_data) option" where
  "cm_GetUpstreamOfNode Hash node_name upstream_nodes m g = do {
     (readers, g) \<leftarrow> cm_GetReadersOfNode Hash node_name [] m g;
     if readers = [] then Some (upstream_nodes, g)
     else do {
       let channels = remdups (map (\<lambda>r. str_of (ra_channel_name r)) readers);
       (writers, g) \<leftarrow> of_channels (\<lambda>c ws g. cm_GetWritersOfChannel Hash c ws m g) channels [] g;
       Some (upstream_nodes @ nodes_of writers, g)
     } }"

definition cm_GetDownstreamOfNode ::
  "(string \<Rightarrow> u64) \<Rightarrow> string \<Rightarrow> role_attributes list \<Rightarrow> 'cb channel_manager \<Rightarrow> global_data \<Rightarrow> (role_attributes list \<times> global_data) option" where
  "cm_GetDownstreamOfNode Hash node_name downstream_nodes m g = do {
     (writers, g) \<leftarrow> cm_GetWritersOfNode Hash node_name [] m g;
     if writers = [] then Some (downstream_nodes, g)
     else do {
       let channels = remdups (map (\<lambda>r. str_of (ra_channel_name r)) writers);
       (readers, g) \<leftarrow> of_channels (\<lambda>c rs g. cm_GetReadersOfChannel Hash c rs m g) channels [] g;
       Some (downstream_nodes @ nodes_of readers, g)
     } }"

definition cm_GetFlowDirection :: "string \<Rightarrow> string \<Rightarrow> 'cb channel_manager \<Rightarrow> flow_direction \<times> 'cb channel_manager" where
  "cm_GetFlowDirection lhs rhs m = (let (d, g) = GetDirectionOf lhs rhs (cm_graph m) in (d, m\<lparr>cm_graph := g\<rparr>))"

definition cm_IsMessageTypeMatching :: "string \<Rightarrow> string \<Rightarrow> 'cb channel_manager \<Rightarrow> bool" where
  "cm_IsMessageTypeMatching lhs rhs m =
     (if lhs = rhs then True else if lhs \<in> set (cm_exempted m) then True else if rhs \<in> set (cm_exempted m) then True else False)"

definition cm_Check :: "role_attributes \<Rightarrow> bool" where
  "cm_Check attr =
     (if ra_channel_name attr = None then False else if ra_channel_id attr = None then False
      else if ra_id attr = None then False else True)"

text \<open>\<^verbatim>\<open>ScanMessageType\<close> only reports; each report is an output with the role that does not match.\<close>

definition cm_ScanMessageType :: "change_msg \<Rightarrow> 'cb channel_manager \<Rightarrow> 'cb topo_output list" where
  "cm_ScanMessageType msg m =
     (let key = u64_of (ra_channel_id (ch_role_attr msg));
          report = (\<lambda>attrs. map Mismatch (filter (\<lambda>a. \<not> cm_IsMessageTypeMatching (str_of (ra_message_type (ch_role_attr msg)))
            (str_of (ra_message_type a)) m) attrs))
      in report (snd (mw_Search_attrs key [] (cm_channel_writers m))) @ report (snd (mw_Search_attrs key [] (cm_channel_readers m))))"

text \<open>\<^verbatim>\<open>DisposeJoin\<close>; registering the descriptor with the protobuf factory is left out.\<close>

definition cm_DisposeJoin :: "change_msg \<Rightarrow> 'cb channel_manager \<Rightarrow> 'cb topo_output list \<times> 'cb channel_manager" where
  "cm_DisposeJoin msg m =
     (let outs = cm_ScanMessageType msg m;
          attr = ch_role_attr msg;
          v = str_of (ra_node_name attr);
          role = RoleWriter attr (ch_timestamp msg);
          (m, e) = (if ch_role_type msg = ROLE_WRITER
            then (m\<lparr>cm_node_writers := snd (mw_Add (u64_of (ra_node_id attr)) role True (cm_node_writers m)),
                    cm_channel_writers := snd (mw_Add (u64_of (ra_channel_id attr)) role True (cm_channel_writers m))\<rparr>,
                  \<lparr>e_src = v, e_dst = '''', e_value = str_of (ra_channel_name attr)\<rparr>)
            else (m\<lparr>cm_node_readers := snd (mw_Add (u64_of (ra_node_id attr)) role True (cm_node_readers m)),
                    cm_channel_readers := snd (mw_Add (u64_of (ra_channel_id attr)) role True (cm_channel_readers m))\<rparr>,
                  \<lparr>e_src = '''', e_dst = v, e_value = str_of (ra_channel_name attr)\<rparr>))
      in (outs, m\<lparr>cm_graph := g_Insert e (cm_graph m)\<rparr>))"

definition cm_DisposeLeave :: "change_msg \<Rightarrow> 'cb channel_manager \<Rightarrow> 'cb channel_manager" where
  "cm_DisposeLeave msg m =
     (let attr = ch_role_attr msg;
          v = str_of (ra_node_name attr);
          role = RoleWriter attr 0;
          (m, e) = (if ch_role_type msg = ROLE_WRITER
            then (m\<lparr>cm_node_writers := mw_Remove_role (u64_of (ra_node_id attr)) role (cm_node_writers m),
                    cm_channel_writers := mw_Remove_role (u64_of (ra_channel_id attr)) role (cm_channel_writers m)\<rparr>,
                  \<lparr>e_src = v, e_dst = '''', e_value = str_of (ra_channel_name attr)\<rparr>)
            else (m\<lparr>cm_node_readers := mw_Remove_role (u64_of (ra_node_id attr)) role (cm_node_readers m),
                    cm_channel_readers := mw_Remove_role (u64_of (ra_channel_id attr)) role (cm_channel_readers m)\<rparr>,
                  \<lparr>e_src = '''', e_dst = v, e_value = str_of (ra_channel_name attr)\<rparr>))
      in m\<lparr>cm_graph := g_Delete e (cm_graph m)\<rparr>)"

definition cm_Dispose :: "change_msg \<Rightarrow> 'cb channel_manager \<Rightarrow> 'cb topo_output list \<times> 'cb channel_manager" where
  "cm_Dispose msg m =
     (let (outs, m) = (if ch_operate_type msg = OPT_JOIN then cm_DisposeJoin msg m else ([], cm_DisposeLeave msg m));
          (outs', m) = m_Notify msg m
      in (outs @ outs', m))"

text \<open>The loops over the roles of a process that left.\<close>

fun leave_roles ::
  "(nat \<Rightarrow> u64) \<Rightarrow> role_type \<Rightarrow> role list \<Rightarrow> 'cb channel_manager \<Rightarrow> 'cb topo_output list \<times> 'cb channel_manager" where
  "leave_roles clock rt [] m = ([], m)"
| "leave_roles clock rt (r # rs) m =
     (let msg = m_Convert (clock 0) (r_attributes r) rt OPT_LEAVE m;
          m = cm_DisposeLeave msg m;
          (outs, m) = m_Notify msg m;
          (outs', m) = leave_roles (\<lambda>n. clock (Suc n)) rt rs m
      in (outs @ outs', m))"

definition cm_OnTopoModuleLeave :: "(nat \<Rightarrow> u64) \<Rightarrow> string \<Rightarrow> int \<Rightarrow> 'cb channel_manager \<Rightarrow> 'cb topo_output list \<times> 'cb channel_manager" where
  "cm_OnTopoModuleLeave clock host_name process_id m =
     (if \<not> m_is_discovery_started m then ([], m)
      else
        let attr = process_attr host_name process_id;
            writers_to_remove = snd (mw_Match_roles attr [] (cm_channel_writers m));
            readers_to_remove = snd (mw_Match_roles attr [] (cm_channel_readers m));
            (outs, m) = leave_roles clock ROLE_WRITER writers_to_remove m;
            (outs', m) = leave_roles (\<lambda>n. clock (length writers_to_remove + n)) ROLE_READER readers_to_remove m
        in (outs @ outs', m))"

section \<open>Writers and readers behind the warehouses\<close>

definition rname :: "role \<Rightarrow> string \<times> string" where
  "rname r = (str_of (ra_node_name (r_attributes r)), str_of (ra_channel_name (r_attributes r)))"

abbreviation rid :: "role \<Rightarrow> u64 option" where "rid r \<equiv> ra_id (r_attributes r)"

abbreviation nid :: "role \<Rightarrow> u64" where "nid r \<equiv> u64_of (ra_node_id (r_attributes r))"

abbreviation cid :: "role \<Rightarrow> u64" where "cid r \<equiv> u64_of (ra_channel_id (r_attributes r))"

definition good_role :: "role \<Rightarrow> bool" where
  "good_role r \<longleftrightarrow> r_class r = RoleWriterClass \<and> located r \<and> rid r \<noteq> None \<and> fst (rname r) \<noteq> '''' \<and> snd (rname r) \<noteq> ''''"

text \<open>The warehouses by node and by channel hold the same roles, each with its own id and name.\<close>

definition side :: "multi_map \<Rightarrow> multi_map \<Rightarrow> role list \<Rightarrow> bool" where
  "side nw cw xs \<longleftrightarrow> nw = map (\<lambda>r. (nid r, r)) xs \<and> cw = map (\<lambda>r. (cid r, r)) xs \<and>
     distinct (map rid xs) \<and> distinct (map rname xs) \<and> (\<forall>r \<in> set xs. good_role r)"

lemma side_Nil: "side [] [] []"
  by (simp add: side_def)

lemma side_add:
  assumes "side nw cw xs" and "good_role r" and "rid r \<notin> rid ` set xs" and "rname r \<notin> rname ` set xs"
  shows "side (snd (mw_Add (nid r) r True nw)) (snd (mw_Add (cid r) r True cw)) (xs @ [r])"
  using assms by (simp add: side_def mw_Add_def)

text \<open>Leaving with the attributes of a role removes this role and no other.\<close>

lemma Match_same_role:
  assumes "side nw cw xs" and "r \<in> set xs" and "x \<in> set xs"
  shows "r_Match x (r_attributes r) \<longleftrightarrow> x = r"
proof
  assume match: "r_Match x (r_attributes r)"
  have "good_role x" "good_role r" using assms by (simp_all add: side_def)
  then have "rid x = rid r" using match by (auto simp: good_role_def r_Match_def writer_Match_def split: if_splits)
  then show "x = r" using assms by (auto simp: side_def distinct_map dest: inj_onD)
qed simp

lemma side_remove:
  assumes "side nw cw xs" and "r \<in> set xs" and "r_attributes r' = r_attributes r"
  shows "side (mw_Remove_role (nid r) r' nw) (mw_Remove_role (cid r) r' cw) (filter (\<lambda>x. x \<noteq> r) xs)"
proof -
  have "mw_Remove_role (f r) r' (map (\<lambda>x. (f x, x)) xs) = map (\<lambda>x. (f x, x)) (filter (\<lambda>x. x \<noteq> r) xs)" for f :: "role \<Rightarrow> u64"
    using Match_same_role [OF assms(1,2)] assms(3)
    by (auto simp: mw_Remove_role_def filter_map comp_def intro!: arg_cong [where f = "map _"] filter_cong)
  then show ?thesis using assms(1) by (auto simp: side_def distinct_map_filter)
qed

lemma side_remove_names:
  assumes "side nw cw xs" and "r \<in> set xs"
  shows "rname ` set (filter (\<lambda>x. x \<noteq> r) xs) = rname ` set xs - {rname r}"
  using assms by (auto simp: side_def distinct_map dest: inj_onD)

section \<open>Orderly changes\<close>

definition cm_view :: "(vertice \<times> string) set \<Rightarrow> role list \<Rightarrow> role list \<Rightarrow> 'cb channel_manager \<Rightarrow> bool" where
  "cm_view P ws rs m \<longleftrightarrow> side (cm_node_writers m) (cm_channel_writers m) ws \<and> side (cm_node_readers m) (cm_channel_readers m) rs \<and>
     g_rep (rname ` set ws, rname ` set rs) (cm_graph m) \<and> rname ` set rs \<subseteq> P"

lemma view_Notify: "cm_view P ws rs (snd (m_Notify msg m)) \<longleftrightarrow> cm_view P ws rs m"
  by (simp add: cm_view_def m_Notify_def split: prod.split)

lemma writer_edge:
  assumes "fst (rname r) \<noteq> ''''" and "snd (rname r) \<noteq> ''''"
  shows "writer_of \<lparr>e_src = fst (rname r), e_dst = '''', e_value = snd (rname r)\<rparr> = {rname r}"
    and "reader_of \<lparr>e_src = fst (rname r), e_dst = '''', e_value = snd (rname r)\<rparr> = {}"
    and "writer_of \<lparr>e_src = '''', e_dst = fst (rname r), e_value = snd (rname r)\<rparr> = {}"
    and "reader_of \<lparr>e_src = '''', e_dst = fst (rname r), e_value = snd (rname r)\<rparr> = {rname r}"
  using assms by (simp_all add: writer_of_def reader_of_def e_IsValid_def IsDummy_def)

lemma view_join_writer:
  assumes view: "cm_view P ws rs m" and inj: "inj_on edge_key P" and r: "r = RoleWriter (ch_role_attr msg) (ch_timestamp msg)"
    and good: "good_role r" and new: "rid r \<notin> rid ` set ws" "rname r \<notin> rname ` set ws" and w: "ch_role_type msg = ROLE_WRITER"
  shows "cm_view P (ws @ [r]) rs (snd (cm_DisposeJoin msg m))"
proof -
  let ?e = "\<lparr>e_src = fst (rname r), e_dst = '''', e_value = snd (rname r)\<rparr>"
  have attr: "r_attributes r = ch_role_attr msg" by (simp add: r RoleWriter_def)
  have "g_rep (rname ` set ws \<union> writer_of ?e, rname ` set rs \<union> reader_of ?e) (g_Insert ?e (cm_graph m))"
    by (rule g_Insert_rep [OF _ inj]) (use view good in \<open>simp_all add: cm_view_def writer_edge good_role_def\<close>)
  then have "g_rep (rname ` set (ws @ [r]), rname ` set rs) (g_Insert ?e (cm_graph m))"
    using good by (simp add: writer_edge good_role_def)
  moreover have "?e = \<lparr>e_src = str_of (ra_node_name (ch_role_attr msg)), e_dst = '''', e_value = str_of (ra_channel_name (ch_role_attr msg))\<rparr>"
    by (simp add: rname_def attr)
  moreover have "side (snd (mw_Add (nid r) r True (cm_node_writers m))) (snd (mw_Add (cid r) r True (cm_channel_writers m))) (ws @ [r])"
    by (rule side_add [OF _ good new]) (use view in \<open>simp add: cm_view_def\<close>)
  ultimately show ?thesis using view w by (simp add: cm_view_def cm_DisposeJoin_def Let_def attr flip: r)
qed

lemma view_join_reader:
  assumes view: "cm_view P ws rs m" and inj: "inj_on edge_key P" and r: "r = RoleWriter (ch_role_attr msg) (ch_timestamp msg)"
    and good: "good_role r" and new: "rid r \<notin> rid ` set rs" "rname r \<notin> rname ` set rs" and w: "ch_role_type msg = ROLE_READER"
    and P: "rname r \<in> P"
  shows "cm_view P ws (rs @ [r]) (snd (cm_DisposeJoin msg m))"
proof -
  let ?e = "\<lparr>e_src = '''', e_dst = fst (rname r), e_value = snd (rname r)\<rparr>"
  have attr: "r_attributes r = ch_role_attr msg" by (simp add: r RoleWriter_def)
  have "g_rep (rname ` set ws \<union> writer_of ?e, rname ` set rs \<union> reader_of ?e) (g_Insert ?e (cm_graph m))"
    by (rule g_Insert_rep [OF _ inj]) (use view good P in \<open>simp_all add: cm_view_def writer_edge good_role_def\<close>)
  then have "g_rep (rname ` set ws, rname ` set (rs @ [r])) (g_Insert ?e (cm_graph m))"
    using good by (simp add: writer_edge good_role_def)
  moreover have "?e = \<lparr>e_src = '''', e_dst = str_of (ra_node_name (ch_role_attr msg)), e_value = str_of (ra_channel_name (ch_role_attr msg))\<rparr>"
    by (simp add: rname_def attr)
  moreover have "side (snd (mw_Add (nid r) r True (cm_node_readers m))) (snd (mw_Add (cid r) r True (cm_channel_readers m))) (rs @ [r])"
    by (rule side_add [OF _ good new]) (use view in \<open>simp add: cm_view_def\<close>)
  ultimately show ?thesis using view w P by (simp add: cm_view_def cm_DisposeJoin_def Let_def attr flip: r)
qed

lemma view_leave_writer:
  assumes view: "cm_view P ws rs m" and inj: "inj_on edge_key P" and r: "r \<in> set ws" "ch_role_attr msg = r_attributes r"
    and w: "ch_role_type msg = ROLE_WRITER"
  shows "cm_view P (filter (\<lambda>x. x \<noteq> r) ws) rs (cm_DisposeLeave msg m)"
proof -
  let ?e = "\<lparr>e_src = fst (rname r), e_dst = '''', e_value = snd (rname r)\<rparr>"
  have s: "side (cm_node_writers m) (cm_channel_writers m) ws" using view by (simp add: cm_view_def)
  then have good: "fst (rname r) \<noteq> ''''" "snd (rname r) \<noteq> ''''" using r(1) by (auto simp: side_def good_role_def)
  have "g_rep (rname ` set ws - writer_of ?e, rname ` set rs - reader_of ?e) (g_Delete ?e (cm_graph m))"
    by (rule g_Delete_rep [OF _ inj]) (use view in \<open>simp_all add: cm_view_def\<close>)
  then have "g_rep (rname ` set (filter (\<lambda>x. x \<noteq> r) ws), rname ` set rs) (g_Delete ?e (cm_graph m))"
    unfolding side_remove_names [OF s r(1)] by (simp add: writer_edge good)
  moreover have "?e = \<lparr>e_src = str_of (ra_node_name (ch_role_attr msg)), e_dst = '''', e_value = str_of (ra_channel_name (ch_role_attr msg))\<rparr>"
    by (simp add: rname_def r(2))
  ultimately show ?thesis using view w side_remove [OF s r(1), of "RoleWriter (r_attributes r) 0"]
    by (simp add: cm_view_def cm_DisposeLeave_def Let_def r(2) RoleWriter_def)
qed

lemma view_leave_reader:
  assumes view: "cm_view P ws rs m" and inj: "inj_on edge_key P" and r: "r \<in> set rs" "ch_role_attr msg = r_attributes r"
    and w: "ch_role_type msg = ROLE_READER"
  shows "cm_view P ws (filter (\<lambda>x. x \<noteq> r) rs) (cm_DisposeLeave msg m)"
proof -
  let ?e = "\<lparr>e_src = '''', e_dst = fst (rname r), e_value = snd (rname r)\<rparr>"
  have s: "side (cm_node_readers m) (cm_channel_readers m) rs" using view by (simp add: cm_view_def)
  then have good: "fst (rname r) \<noteq> ''''" "snd (rname r) \<noteq> ''''" using r(1) by (auto simp: side_def good_role_def)
  have "g_rep (rname ` set ws - writer_of ?e, rname ` set rs - reader_of ?e) (g_Delete ?e (cm_graph m))"
    by (rule g_Delete_rep [OF _ inj]) (use view in \<open>simp_all add: cm_view_def\<close>)
  then have "g_rep (rname ` set ws, rname ` set (filter (\<lambda>x. x \<noteq> r) rs)) (g_Delete ?e (cm_graph m))"
    unfolding side_remove_names [OF s r(1)] by (simp add: writer_edge good)
  moreover have "?e = \<lparr>e_src = '''', e_dst = str_of (ra_node_name (ch_role_attr msg)), e_value = str_of (ra_channel_name (ch_role_attr msg))\<rparr>"
    by (simp add: rname_def r(2))
  moreover have "rname ` set (filter (\<lambda>x. x \<noteq> r) rs) \<subseteq> P" using view by (auto simp: cm_view_def)
  ultimately show ?thesis using view w side_remove [OF s r(1), of "RoleWriter (r_attributes r) 0"]
    by (simp add: cm_view_def cm_DisposeLeave_def Let_def r(2) RoleWriter_def)
qed

section \<open>A process leaves\<close>

lemma m_Convert_located:
  "located r \<Longrightarrow> m_Convert now (r_attributes r) rt opt m =
     \<lparr>ch_timestamp = now, ch_change_type = m_change_type m, ch_operate_type = opt, ch_role_type = rt, ch_role_attr = r_attributes r\<rparr>"
  by (auto simp: m_Convert_def located_def)

lemma si_call_again: "fst (si_call (snd (si_call s))) = fst (si_call s)"
proof -
  have "concat (map (\<lambda>a. sl_call (si_heap s a)) (filter (\<lambda>a. sl_connected (si_heap s a)) xs)) = concat (map (\<lambda>a. sl_call (si_heap s a)) xs)" for xs
    by (induction xs) (simp_all add: sl_call_def)
  then show ?thesis by (simp add: si_call_def Let_def si_ClearDisconnectedSlots_def)
qed

definition listeners :: "('cb, 'z) manager_scheme \<Rightarrow> 'cb list" where
  "listeners m = fst (si_call (m_signal m))"

lemma m_Notify_eq:
  "fst (m_Notify msg m) = map (\<lambda>cb. Notified cb msg) (listeners m)"
  "listeners (snd (m_Notify msg m)) = listeners m" "m_change_type (snd (m_Notify msg m)) = m_change_type m"
  using si_call_again [of "m_signal m"] by (simp_all add: m_Notify_def listeners_def split_beta)

lemma cm_DisposeLeave_base:
  "listeners (cm_DisposeLeave msg m) = listeners m" "m_change_type (cm_DisposeLeave msg m) = m_change_type m"
  by (simp_all add: cm_DisposeLeave_def listeners_def Let_def)

text \<open>The announcements for the roles of a process: to every listener, in order.\<close>

fun leave_notes :: "(nat \<Rightarrow> u64) \<Rightarrow> change_type \<Rightarrow> role_type \<Rightarrow> 'cb list \<Rightarrow> role list \<Rightarrow> 'cb topo_output list" where
  "leave_notes clock ct rt cbs [] = []"
| "leave_notes clock ct rt cbs (r # rs) =
     map (\<lambda>cb. Notified cb \<lparr>ch_timestamp = clock 0, ch_change_type = ct, ch_operate_type = OPT_LEAVE, ch_role_type = rt,
       ch_role_attr = r_attributes r\<rparr>) cbs @ leave_notes (\<lambda>n. clock (Suc n)) ct rt cbs rs"

lemma leave_roles_Cons:
  assumes "located r"
  defines "msg \<equiv> \<lambda>t ct rt. \<lparr>ch_timestamp = t, ch_change_type = ct, ch_operate_type = OPT_LEAVE, ch_role_type = rt, ch_role_attr = r_attributes r\<rparr>"
  shows "leave_roles clock rt (r # xs) m =
    (let m' = snd (m_Notify (msg (clock 0) (m_change_type m) rt) (cm_DisposeLeave (msg (clock 0) (m_change_type m) rt) m));
         (outs, m'') = leave_roles (\<lambda>n. clock (Suc n)) rt xs m'
     in (map (\<lambda>cb. Notified cb (msg (clock 0) (m_change_type m) rt)) (listeners m) @ outs, m''))"
  using m_Notify_eq(1) [of "msg (clock 0) (m_change_type m) rt" "cm_DisposeLeave (msg (clock 0) (m_change_type m) rt) m"]
  by (simp add: m_Convert_located [OF assms(1)] msg_def cm_DisposeLeave_base Let_def split_beta)

lemma leave_writers:
  assumes "cm_view P ws rs m" and "inj_on edge_key P" and "distinct xs" and "set xs \<subseteq> set ws"
  shows "cm_view P (filter (\<lambda>x. x \<notin> set xs) ws) rs (snd (leave_roles clock ROLE_WRITER xs m)) \<and>
    fst (leave_roles clock ROLE_WRITER xs m) = leave_notes clock (m_change_type m) ROLE_WRITER (listeners m) xs \<and>
    listeners (snd (leave_roles clock ROLE_WRITER xs m)) = listeners m \<and>
    m_change_type (snd (leave_roles clock ROLE_WRITER xs m)) = m_change_type m"
  using assms(1,3,4)
proof (induction xs arbitrary: ws m clock)
  case (Cons r xs)
  have r: "r \<in> set ws" using Cons.prems(3) by simp
  then have loc: "located r" using Cons.prems(1) by (auto simp: cm_view_def side_def good_role_def)
  let ?msg = "\<lparr>ch_timestamp = clock 0, ch_change_type = m_change_type m, ch_operate_type = OPT_LEAVE, ch_role_type = ROLE_WRITER,
    ch_role_attr = r_attributes r\<rparr>"
  let ?m = "snd (m_Notify ?msg (cm_DisposeLeave ?msg m))"
  have "cm_view P (filter (\<lambda>x. x \<noteq> r) ws) rs ?m"
    unfolding view_Notify by (rule view_leave_writer [OF Cons.prems(1) assms(2) r]) simp_all
  then have "cm_view P (filter (\<lambda>x. x \<notin> set xs) (filter (\<lambda>x. x \<noteq> r) ws)) rs (snd (leave_roles (\<lambda>n. clock (Suc n)) ROLE_WRITER xs ?m)) \<and>
    fst (leave_roles (\<lambda>n. clock (Suc n)) ROLE_WRITER xs ?m) = leave_notes (\<lambda>n. clock (Suc n)) (m_change_type ?m) ROLE_WRITER (listeners ?m) xs \<and>
    listeners (snd (leave_roles (\<lambda>n. clock (Suc n)) ROLE_WRITER xs ?m)) = listeners ?m \<and>
    m_change_type (snd (leave_roles (\<lambda>n. clock (Suc n)) ROLE_WRITER xs ?m)) = m_change_type ?m"
    by (rule Cons.IH) (use Cons.prems(2,3) in auto)
  moreover have "filter (\<lambda>x. x \<notin> set xs) (filter (\<lambda>x. x \<noteq> r) ws) = filter (\<lambda>x. x \<notin> set (r # xs)) ws"
    by (auto intro: filter_cong)
  ultimately show ?case
    by (simp add: leave_roles_Cons [OF loc] m_Notify_eq cm_DisposeLeave_base Let_def split_beta del: leave_roles.simps)
qed simp

lemma leave_readers:
  assumes "cm_view P ws rs m" and "inj_on edge_key P" and "distinct xs" and "set xs \<subseteq> set rs"
  shows "cm_view P ws (filter (\<lambda>x. x \<notin> set xs) rs) (snd (leave_roles clock ROLE_READER xs m)) \<and>
    fst (leave_roles clock ROLE_READER xs m) = leave_notes clock (m_change_type m) ROLE_READER (listeners m) xs"
  using assms(1,3,4)
proof (induction xs arbitrary: rs m clock)
  case (Cons r xs)
  have r: "r \<in> set rs" using Cons.prems(3) by simp
  then have loc: "located r" using Cons.prems(1) by (auto simp: cm_view_def side_def good_role_def)
  let ?msg = "\<lparr>ch_timestamp = clock 0, ch_change_type = m_change_type m, ch_operate_type = OPT_LEAVE, ch_role_type = ROLE_READER,
    ch_role_attr = r_attributes r\<rparr>"
  let ?m = "snd (m_Notify ?msg (cm_DisposeLeave ?msg m))"
  have "cm_view P ws (filter (\<lambda>x. x \<noteq> r) rs) ?m"
    unfolding view_Notify by (rule view_leave_reader [OF Cons.prems(1) assms(2) r]) simp_all
  then have "cm_view P ws (filter (\<lambda>x. x \<notin> set xs) (filter (\<lambda>x. x \<noteq> r) rs)) (snd (leave_roles (\<lambda>n. clock (Suc n)) ROLE_READER xs ?m)) \<and>
    fst (leave_roles (\<lambda>n. clock (Suc n)) ROLE_READER xs ?m) = leave_notes (\<lambda>n. clock (Suc n)) (m_change_type ?m) ROLE_READER (listeners ?m) xs"
    by (rule Cons.IH) (use Cons.prems(2,3) in auto)
  moreover have "filter (\<lambda>x. x \<notin> set xs) (filter (\<lambda>x. x \<noteq> r) rs) = filter (\<lambda>x. x \<notin> set (r # xs)) rs"
    by (auto intro: filter_cong)
  ultimately show ?case
    by (simp add: leave_roles_Cons [OF loc] m_Notify_eq cm_DisposeLeave_base Let_def split_beta del: leave_roles.simps)
qed simp

lemma matched_roles:
  assumes "side nw cw xs"
  shows "snd (mw_Match_roles (process_attr host pid) [] cw) = filter (of_process host pid) xs"
  using assms by (simp add: side_def mw_Match_roles_def match_fold Match_process filter_map comp_def)

lemma side_distinct: "side nw cw xs \<Longrightarrow> distinct xs"
  by (auto simp: side_def distinct_map)

lemma filter_others:
  "filter (\<lambda>x. x \<notin> set (filter Q xs)) xs = filter (\<lambda>x. \<not> Q x) xs"
  by (rule filter_cong) auto

lemma process_leaves:
  assumes view: "cm_view P ws rs m" and inj: "inj_on edge_key P" and on: "m_is_discovery_started m"
  shows "cm_view P (filter (\<lambda>x. \<not> of_process host pid x) ws) (filter (\<lambda>x. \<not> of_process host pid x) rs)
      (snd (cm_OnTopoModuleLeave clock host pid m)) \<and>
    fst (cm_OnTopoModuleLeave clock host pid m) =
      leave_notes clock (m_change_type m) ROLE_WRITER (listeners m) (filter (of_process host pid) ws) @
      leave_notes (\<lambda>n. clock (length (filter (of_process host pid) ws) + n)) (m_change_type m) ROLE_READER (listeners m)
        (filter (of_process host pid) rs)"
proof -
  let ?W = "filter (of_process host pid) ws" and ?R = "filter (of_process host pid) rs"
  have s: "side (cm_node_writers m) (cm_channel_writers m) ws" "side (cm_node_readers m) (cm_channel_readers m) rs"
    using view by (simp_all add: cm_view_def)
  obtain outs m1 where 1: "leave_roles clock ROLE_WRITER ?W m = (outs, m1)" by (cases "leave_roles clock ROLE_WRITER ?W m")
  have W: "cm_view P (filter (\<lambda>x. \<not> of_process host pid x) ws) rs m1"
      "outs = leave_notes clock (m_change_type m) ROLE_WRITER (listeners m) ?W"
      "listeners m1 = listeners m" "m_change_type m1 = m_change_type m"
    using leave_writers [OF view inj, of ?W clock, unfolded filter_others] side_distinct [OF s(1)] 1 by simp_all
  obtain outs' m2 where 2: "leave_roles (\<lambda>n. clock (length ?W + n)) ROLE_READER ?R m1 = (outs', m2)"
    by (cases "leave_roles (\<lambda>n. clock (length ?W + n)) ROLE_READER ?R m1")
  have R: "cm_view P (filter (\<lambda>x. \<not> of_process host pid x) ws) (filter (\<lambda>x. \<not> of_process host pid x) rs) m2"
      "outs' = leave_notes (\<lambda>n. clock (length ?W + n)) (m_change_type m) ROLE_READER (listeners m) ?R"
    using leave_readers [OF W(1) inj, of ?R "\<lambda>n. clock (length ?W + n)", unfolded filter_others] side_distinct [OF s(2)] 2 W(3,4)
    by simp_all
  show ?thesis using on R W(2) by (simp add: cm_OnTopoModuleLeave_def matched_roles [OF s(1)] matched_roles [OF s(2)] 1 2 Let_def)
qed

section \<open>Reachable managers\<close>

text \<open>
  The orderly changes: a writer or reader joins with an id and a pair of node and channel that no
  other of its kind has; one that is present leaves with its attributes; a process leaves;
  discovery starts and stops, and listeners come and go. The pairs of the readers that may join are
  \<open>P\<close>.
\<close>

inductive cm_step :: "(vertice \<times> string) set \<Rightarrow> 'cb channel_manager \<Rightarrow> 'cb channel_manager \<Rightarrow> bool" for P where
  join_writer: "ch_operate_type msg = OPT_JOIN \<Longrightarrow> ch_role_type msg = ROLE_WRITER \<Longrightarrow>
    r = RoleWriter (ch_role_attr msg) (ch_timestamp msg) \<Longrightarrow> good_role r \<Longrightarrow>
    rid r \<notin> rid ` snd ` set (cm_channel_writers m) \<Longrightarrow> rname r \<notin> rname ` snd ` set (cm_channel_writers m) \<Longrightarrow>
    cm_step P m (snd (cm_Dispose msg m))"
| join_reader: "ch_operate_type msg = OPT_JOIN \<Longrightarrow> ch_role_type msg = ROLE_READER \<Longrightarrow>
    r = RoleWriter (ch_role_attr msg) (ch_timestamp msg) \<Longrightarrow> good_role r \<Longrightarrow> rname r \<in> P \<Longrightarrow>
    rid r \<notin> rid ` snd ` set (cm_channel_readers m) \<Longrightarrow> rname r \<notin> rname ` snd ` set (cm_channel_readers m) \<Longrightarrow>
    cm_step P m (snd (cm_Dispose msg m))"
| leave_writer: "ch_operate_type msg = OPT_LEAVE \<Longrightarrow> ch_role_type msg = ROLE_WRITER \<Longrightarrow>
    r \<in> snd ` set (cm_channel_writers m) \<Longrightarrow> ch_role_attr msg = r_attributes r \<Longrightarrow> cm_step P m (snd (cm_Dispose msg m))"
| leave_reader: "ch_operate_type msg = OPT_LEAVE \<Longrightarrow> ch_role_type msg = ROLE_READER \<Longrightarrow>
    r \<in> snd ` set (cm_channel_readers m) \<Longrightarrow> ch_role_attr msg = r_attributes r \<Longrightarrow> cm_step P m (snd (cm_Dispose msg m))"
| module_leave: "m_is_discovery_started m \<Longrightarrow> cm_step P m (snd (cm_OnTopoModuleLeave clock host pid m))"
| start: "cm_step P m (snd (m_StartDiscovery participant publisher subscriber m))"
| stop: "cm_step P m (m_StopDiscovery m)"
| listen: "cm_step P m (snd (m_AddChangeListener func m))"
| unlisten: "cm_step P m (m_RemoveChangeListener conn m)"

lemma snd_cm_Dispose:
  "snd (cm_Dispose msg m) = snd (m_Notify msg (if ch_operate_type msg = OPT_JOIN then snd (cm_DisposeJoin msg m) else cm_DisposeLeave msg m))"
  by (simp add: cm_Dispose_def Let_def split_beta)

lemma view_roles:
  "cm_view P ws rs m \<Longrightarrow> snd ` set (cm_channel_writers m) = set ws \<and> snd ` set (cm_channel_readers m) = set rs"
  by (auto simp: cm_view_def side_def image_image)

lemma cm_step_view:
  assumes "cm_step P m m'" and "inj_on edge_key P" and view: "cm_view P ws rs m"
  shows "\<exists>ws' rs'. cm_view P ws' rs' m'"
  using assms(1)
proof cases
  case (join_writer msg r)
  then have "cm_view P (ws @ [r]) rs (snd (cm_DisposeJoin msg m))"
    using view_roles [OF view] by (intro view_join_writer [OF view assms(2)]) simp_all
  then show ?thesis using join_writer by (auto simp: snd_cm_Dispose view_Notify)
next
  case (join_reader msg r)
  then have "cm_view P ws (rs @ [r]) (snd (cm_DisposeJoin msg m))"
    using view_roles [OF view] by (intro view_join_reader [OF view assms(2)]) simp_all
  then show ?thesis using join_reader by (auto simp: snd_cm_Dispose view_Notify)
next
  case (leave_writer msg r)
  then have "cm_view P (filter (\<lambda>x. x \<noteq> r) ws) rs (cm_DisposeLeave msg m)"
    using view_roles [OF view] by (intro view_leave_writer [OF view assms(2)]) simp_all
  then show ?thesis using leave_writer by (auto simp: snd_cm_Dispose view_Notify)
next
  case (leave_reader msg r)
  then have "cm_view P ws (filter (\<lambda>x. x \<noteq> r) rs) (cm_DisposeLeave msg m)"
    using view_roles [OF view] by (intro view_leave_reader [OF view assms(2)]) simp_all
  then show ?thesis using leave_reader by (auto simp: snd_cm_Dispose view_Notify)
next
  case (module_leave clock host pid)
  then show ?thesis using process_leaves [OF view assms(2)] by blast
next
  case (start participant publisher subscriber)
  have "cm_view P ws rs m'"
    using view by (simp add: start cm_view_def m_StartDiscovery_def m_StopDiscovery_def Let_def)
  then show ?thesis by blast
next
  case stop
  have "cm_view P ws rs m'" using view by (simp add: stop cm_view_def m_StopDiscovery_def)
  then show ?thesis by blast
next
  case (listen func)
  have "cm_view P ws rs m'" using view by (simp add: listen cm_view_def m_AddChangeListener_def Let_def split_beta)
  then show ?thesis by blast
next
  case (unlisten conn)
  have "cm_view P ws rs m'" using view by (simp add: unlisten cm_view_def m_RemoveChangeListener_def)
  then show ?thesis by blast
qed

lemma reachable_view:
  assumes "(cm_step P)\<^sup>*\<^sup>* (ChannelManager host pid) m" and "inj_on edge_key P"
  shows "\<exists>ws rs. cm_view P ws rs m"
  using assms(1)
proof (induction rule: rtranclp_induct)
  case base
  have "cm_view P [] [] (ChannelManager host pid)"
    using rep_Graph by (simp add: cm_view_def ChannelManager_def manager.defs side_Nil)
  then show ?case by blast
next
  case (step m m')
  then show ?case using cm_step_view [OF _ assms(2)] by blast
qed

text \<open>The pairs of node and channel of the roles in a warehouse.\<close>

definition pairs_of :: "multi_map \<Rightarrow> (string \<times> string) set" where
  "pairs_of w = (\<lambda>x. rname (snd x)) ` set w"

lemma view_pairs: "cm_view P ws rs m \<Longrightarrow> (rname ` set ws, rname ` set rs) = (pairs_of (cm_channel_writers m), pairs_of (cm_channel_readers m))"
  using view_roles [of P ws rs m] by (simp add: pairs_of_def flip: image_image)

definition channel_change :: "operate_type \<Rightarrow> role_type \<Rightarrow> string \<Rightarrow> u64 \<Rightarrow> u64 \<Rightarrow> change_msg" where
  "channel_change opt rt node node_id ident = \<lparr>ch_timestamp = 5, ch_change_type = CHANGE_CHANNEL, ch_operate_type = opt, ch_role_type = rt,
     ch_role_attr = RoleAttributes\<lparr>ra_host_name := Some ''h'', ra_process_id := Some 4, ra_node_name := Some node,
       ra_node_id := Some node_id, ra_channel_name := Some ''x'', ra_channel_id := Some 7, ra_id := Some ident\<rparr>\<rparr>"

definition example_manager :: "nat channel_manager" where
  "example_manager =
     snd (cm_Dispose (channel_change OPT_JOIN ROLE_READER ''b'' 2 20)
       (snd (cm_Dispose (channel_change OPT_JOIN ROLE_WRITER ''a'' 1 10)
         (snd (m_AddChangeListener 0 (snd (m_StartDiscovery True True True (ChannelManager ''k'' 9))))))))"

lemma example_roles:
  "cm_channel_writers example_manager = [(7, RoleWriter (ch_role_attr (channel_change OPT_JOIN ROLE_WRITER ''a'' 1 10)) 5)]"
  "cm_channel_readers example_manager = [(7, RoleWriter (ch_role_attr (channel_change OPT_JOIN ROLE_READER ''b'' 2 20)) 5)]"
  "m_is_discovery_started example_manager" "listeners example_manager = [0]" "m_change_type example_manager = CHANGE_CHANNEL"
  by (simp_all add: example_manager_def snd_cm_Dispose m_Notify_def cm_DisposeJoin_def m_AddChangeListener_def m_StartDiscovery_def
      ChannelManager_def manager.defs Manager_def channel_change_def mw_Add_def Let_def split_beta listeners_def si_Connect_def Signal_def
      si_call_def sl_call_def Slot_def si_ClearDisconnectedSlots_def)

lemma example_reachable: "(cm_step {(''b'', ''x'')})\<^sup>*\<^sup>* (ChannelManager ''k'' 9) example_manager"
proof -
  let ?P = "{(''b'', ''x'')}" and ?m0 = "ChannelManager ''k'' 9 :: nat channel_manager"
  let ?m1 = "snd (m_StartDiscovery True True True ?m0)"
  let ?m2 = "snd (m_AddChangeListener 0 ?m1)"
  let ?w = "channel_change OPT_JOIN ROLE_WRITER ''a'' 1 10" and ?r = "channel_change OPT_JOIN ROLE_READER ''b'' 2 20"
  have "cm_channel_writers ?m2 = []" "cm_channel_readers ?m2 = []"
    by (simp_all add: m_AddChangeListener_def m_StartDiscovery_def ChannelManager_def manager.defs Let_def split_beta)
  moreover have "cm_channel_readers (snd (cm_Dispose ?w ?m2)) = cm_channel_readers ?m2"
    by (simp add: snd_cm_Dispose m_Notify_def cm_DisposeJoin_def channel_change_def Let_def split_beta)
  ultimately have "cm_step ?P ?m2 (snd (cm_Dispose ?w ?m2))"
      "cm_step ?P (snd (cm_Dispose ?w ?m2)) (snd (cm_Dispose ?r (snd (cm_Dispose ?w ?m2))))"
    by (intro cm_step.join_writer [OF _ _ refl] cm_step.join_reader [OF _ _ refl];
        simp add: channel_change_def good_role_def RoleWriter_def located_def rname_def RoleAttributes_def)+
  then show ?thesis
    unfolding example_manager_def using cm_step.start [of ?P ?m0 True True True] cm_step.listen [of ?P ?m1 0] by (meson converse_rtranclp_into_rtranclp rtranclp.rtrancl_refl)
qed

text \<open>
  Claim C24. After any orderly changes the flow direction between two nodes is reachability over the
  writers and readers that the manager holds at that moment, and asking for it changes nothing.
\<close>

theorem flow_follows_roles:
  assumes "(cm_step P)\<^sup>*\<^sup>* (ChannelManager host pid) m" and "inj_on edge_key P"
    and "u \<noteq> v" and "u \<noteq> []" and "v \<noteq> []"
  defines "E \<equiv> flows (pairs_of (cm_channel_writers m), pairs_of (cm_channel_readers m))"
  shows "cm_GetFlowDirection u v m =
    (if (u, v) \<in> E\<^sup>* then UPSTREAM else if (v, u) \<in> E\<^sup>* then DOWNSTREAM else UNREACHABLE, m)"
proof -
  obtain ws rs where view: "cm_view P ws rs m" using reachable_view [OF assms(1,2)] by blast
  have "g_rep (pairs_of (cm_channel_writers m), pairs_of (cm_channel_readers m)) (cm_graph m)"
    using view view_pairs [OF view] by (simp add: cm_view_def)
  from direction_of_rep [OF this assms(3-5)] show ?thesis by (simp add: cm_GetFlowDirection_def E_def)
qed

theorem flow_follows_roles_witness:
  "cm_GetFlowDirection ''b'' ''a'' example_manager = (DOWNSTREAM, example_manager)"
proof -
  have E: "flows (pairs_of (cm_channel_writers example_manager), pairs_of (cm_channel_readers example_manager)) = {(''a'', ''b'')}"
    by (auto simp: flows_def pairs_of_def example_roles rname_def RoleWriter_def channel_change_def)
  have "(''b'', ''a'') \<notin> {(''a'', ''b'')}\<^sup>*" by (auto elim: converse_rtranclE)
  moreover have "(''a'', ''b'') \<in> {(''a'', ''b'')}\<^sup>*" by blast
  ultimately show ?thesis using flow_follows_roles [OF example_reachable, of "''b''" "''a''"] by (simp add: E)
qed


text \<open>
  When a process leaves, exactly its writers and readers disappear, from the warehouses by
  channel and by node alike, and every listener is told of each of them once, writers first.
\<close>

lemma process_leave_removes_its_roles:
  fixes m :: "'cb channel_manager" and clock :: "nat \<Rightarrow> u64" and h :: string and p :: int
  assumes "(cm_step P)\<^sup>*\<^sup>* (ChannelManager host pid) m" and "inj_on edge_key P" and "m_is_discovery_started m"
  defines "m' \<equiv> snd (cm_OnTopoModuleLeave clock h p m)" and "others \<equiv> filter (\<lambda>x. \<not> of_process h p (snd x))"
    and "gone \<equiv> \<lambda>w. filter (of_process h p) (map snd w)"
  shows "cm_channel_writers m' = others (cm_channel_writers m) \<and> cm_node_writers m' = others (cm_node_writers m) \<and>
    cm_channel_readers m' = others (cm_channel_readers m) \<and> cm_node_readers m' = others (cm_node_readers m) \<and>
    fst (cm_OnTopoModuleLeave clock h p m) =
      leave_notes clock (m_change_type m) ROLE_WRITER (listeners m) (gone (cm_channel_writers m)) @
      leave_notes (\<lambda>n. clock (length (gone (cm_channel_writers m)) + n)) (m_change_type m) ROLE_READER (listeners m)
        (gone (cm_channel_readers m))"
proof -
  obtain ws rs where view: "cm_view P ws rs m" using reachable_view [OF assms(1,2)] by blast
  have "map snd (cm_channel_writers m) = ws" "map snd (cm_channel_readers m) = rs"
    using view by (simp_all add: cm_view_def side_def comp_def)
  then show ?thesis
    using process_leaves [OF view assms(2,3), of h p clock] view
    by (simp add: m'_def others_def gone_def cm_view_def side_def filter_map comp_def)
qed

theorem process_leave_removes_its_roles_witness:
  "cm_channel_writers (snd (cm_OnTopoModuleLeave (\<lambda>n. of_nat n) ''h'' 4 example_manager)) = [] \<and>
   cm_channel_readers (snd (cm_OnTopoModuleLeave (\<lambda>n. of_nat n) ''h'' 4 example_manager)) = [] \<and>
   fst (cm_OnTopoModuleLeave (\<lambda>n. of_nat n) ''h'' 4 example_manager) =
     [Notified 0 (channel_change OPT_LEAVE ROLE_WRITER ''a'' 1 10\<lparr>ch_timestamp := 0\<rparr>),
      Notified 0 (channel_change OPT_LEAVE ROLE_READER ''b'' 2 20\<lparr>ch_timestamp := 1\<rparr>)]"
proof -
  have "of_process ''h'' 4 (RoleWriter (ch_role_attr (channel_change opt rt node n i)) 5)" for opt rt node n i
    by (simp add: of_process_def RoleWriter_def channel_change_def)
  then show ?thesis
    using process_leave_removes_its_roles [OF example_reachable _ example_roles(3), of "\<lambda>n. of_nat n" "''h''" 4]
    by (simp add: example_roles) (simp add: channel_change_def RoleWriter_def)
qed

end
