(* ===== verification/Topo_Topology.thy ===== *)
theory Topo_Topology
  imports Topo_Channel
begin

text \<open>
  The topology manager (\<^verbatim>\<open>service_discovery/topology_manager\<close>) owns the managers of nodes, channels
  and services and follows the RTPS participants: the name of a participant carries host and process
  id, and when it is lost the three managers drop the roles of the process.

  \<^verbatim>\<open>std::to_string\<close> and \<^verbatim>\<open>std::stoi\<close> are modelled on decimal digits; the discovery information of
  RTPS is an argument.
\<close>

section \<open>Numbers as text\<close>

definition digit :: "nat \<Rightarrow> char" where
  "digit d = char_of (48 + d)"

definition digit_value :: "char \<Rightarrow> nat" where
  "digit_value c = of_char c - 48"

definition is_digit :: "char \<Rightarrow> bool" where
  "is_digit c \<longleftrightarrow> 48 \<le> (of_char c :: nat) \<and> (of_char c :: nat) \<le> 57"

fun nat_text :: "nat \<Rightarrow> string" where
  "nat_text n = (if n < 10 then [digit n] else nat_text (n div 10) @ [digit (n mod 10)])"

declare nat_text.simps [simp del]

definition to_string :: "int \<Rightarrow> string" where
  "to_string i = (if i < 0 then ''-'' @ nat_text (nat (- i)) else nat_text (nat i))"

definition is_space :: "char \<Rightarrow> bool" where
  "is_space c \<longleftrightarrow> (of_char c :: nat) \<in> {9, 10, 11, 12, 13, 32}"

definition text_nat :: "string \<Rightarrow> nat" where
  "text_nat ds = fold (\<lambda>c n. n * 10 + digit_value c) ds 0"

text \<open>\<^verbatim>\<open>None\<close> is an exception: no digits, or out of the range of \<^verbatim>\<open>int\<close>.\<close>

definition stoi :: "string \<Rightarrow> int option" where
  "stoi s =
     (let s = dropWhile is_space s;
          negative = (s \<noteq> [] \<and> hd s = CHR ''-'');
          s = (if s \<noteq> [] \<and> (hd s = CHR ''-'' \<or> hd s = CHR ''+'') then tl s else s);
          ds = takeWhile is_digit s;
          v = (if negative then - int (text_nat ds) else int (text_nat ds))
      in if ds = [] then None else if v < - (2 ^ 31) \<or> 2 ^ 31 \<le> v then None else Some v)"

section \<open>TopologyManager\<close>

datatype discovery_status = DISCOVERED_PARTICIPANT | REMOVED_PARTICIPANT | DROPPED_PARTICIPANT | OTHER_STATUS

record participant_info =
  pi_status :: discovery_status
  pi_guid :: nat
  pi_participant_name :: string

record 'cb topology_manager =
  tm_init :: bool
  tm_node_manager :: "'cb node_manager option"
  tm_channel_manager :: "'cb channel_manager option"
  tm_service_manager :: "'cb service_manager option"
  tm_participant :: bool
  tm_change_signal :: "'cb signal"
  tm_participant_names :: "(nat, string) umap"

definition participant_name :: "string \<Rightarrow> int \<Rightarrow> string" where
  "participant_name host_name process_id = host_name @ ''+'' @ to_string process_id"

definition ParseParticipantName :: "string \<Rightarrow> (string \<times> int) option" where
  "ParseParticipantName name =
     (if CHR ''+'' \<notin> set name then None
      else
        let host_name = takeWhile (\<lambda>c. c \<noteq> CHR ''+'') name;
            pid_str = tl (dropWhile (\<lambda>c. c \<noteq> CHR ''+'') name)
        in case stoi pid_str of None \<Rightarrow> None | Some process_id \<Rightarrow> Some (host_name, process_id))"

text \<open>\<^verbatim>\<open>Convert\<close>; the operation is left unset for other states, whose name is empty and does not parse.\<close>

definition tm_Convert :: "u64 \<Rightarrow> participant_info \<Rightarrow> 'cb topology_manager \<Rightarrow> change_msg option \<times> 'cb topology_manager" where
  "tm_Convert now info tm =
     (let names = tm_participant_names tm; guid = pi_guid info;
          known = (case map_of names guid of None \<Rightarrow> '''' | Some n \<Rightarrow> n);
          (name, opt, names) = (case pi_status info of
              DISCOVERED_PARTICIPANT \<Rightarrow> (pi_participant_name info, OPT_JOIN, um_set guid (pi_participant_name info) names)
            | REMOVED_PARTICIPANT \<Rightarrow> (known, OPT_LEAVE, um_erase guid names)
            | DROPPED_PARTICIPANT \<Rightarrow> (known, OPT_LEAVE, um_erase guid names)
            | OTHER_STATUS \<Rightarrow> ('''', OPT_JOIN, names));
          tm = tm\<lparr>tm_participant_names := names\<rparr>
      in case ParseParticipantName name of None \<Rightarrow> (None, tm)
         | Some (host_name, process_id) \<Rightarrow>
             (Some \<lparr>ch_timestamp = now, ch_change_type = CHANGE_PARTICIPANT, ch_operate_type = opt, ch_role_type = ROLE_PARTICIPANT,
                ch_role_attr = process_attr host_name process_id\<rparr>, tm))"

text \<open>The managers are dereferenced; \<open>None\<close> is a null pointer. Each call reads the clock on its own.\<close>

definition tm_OnParticipantChange ::
  "u64 \<Rightarrow> (nat \<Rightarrow> u64) \<Rightarrow> (nat \<Rightarrow> u64) \<Rightarrow> (nat \<Rightarrow> u64) \<Rightarrow> participant_info \<Rightarrow> 'cb topology_manager \<Rightarrow>
     ('cb topo_output list \<times> 'cb topology_manager) option" where
  "tm_OnParticipantChange now clock1 clock2 clock3 info tm =
     (case tm_Convert now info tm of
        (None, tm) \<Rightarrow> Some ([], tm)
      | (Some msg, tm) \<Rightarrow>
          if \<not> tm_init tm then Some ([], tm)
          else do {
            (outs, tm) \<leftarrow> (if ch_operate_type msg = OPT_LEAVE then do {
                let host_name = str_of (ra_host_name (ch_role_attr msg));
                let process_id = int_of (ra_process_id (ch_role_attr msg));
                nm \<leftarrow> tm_node_manager tm;
                let (outs1, nm) = nm_OnTopoModuleLeave clock1 host_name process_id nm;
                cm \<leftarrow> tm_channel_manager tm;
                let (outs2, cm) = cm_OnTopoModuleLeave clock2 host_name process_id cm;
                sm \<leftarrow> tm_service_manager tm;
                let (outs3, sm) = sm_OnTopoModuleLeave clock3 host_name process_id sm;
                Some (outs1 @ outs2 @ outs3, tm\<lparr>tm_node_manager := Some nm, tm_channel_manager := Some cm, tm_service_manager := Some sm\<rparr>) }
              else Some ([], tm));
            let (called, s) = si_call (tm_change_signal tm);
            Some (outs @ map (\<lambda>cb. Notified cb msg) called, tm\<lparr>tm_change_signal := s\<rparr>)
          })"

definition tm_AddChangeListener :: "'cb \<Rightarrow> 'cb topology_manager \<Rightarrow> nat \<times> 'cb topology_manager" where
  "tm_AddChangeListener func tm = (let (conn, s) = si_Connect (Some func) (tm_change_signal tm) in (conn, tm\<lparr>tm_change_signal := s\<rparr>))"

definition tm_RemoveChangeListener :: "nat \<Rightarrow> 'cb topology_manager \<Rightarrow> 'cb topology_manager" where
  "tm_RemoveChangeListener conn tm = tm\<lparr>tm_change_signal := snd (si_Disconnect conn (tm_change_signal tm))\<rparr>"

text \<open>
  \<^verbatim>\<open>Init\<close>; for each manager it is given whether the participant creates its publisher and its
  subscriber. The result of creating the participant itself is not looked at.
\<close>

definition tm_Init ::
  "string \<Rightarrow> int \<Rightarrow> bool \<times> bool \<Rightarrow> bool \<times> bool \<Rightarrow> bool \<times> bool \<Rightarrow> 'cb topology_manager \<Rightarrow> bool \<times> 'cb topology_manager" where
  "tm_Init host_name process_id n_ok c_ok s_ok tm =
     (if tm_init tm then (True, tm)
      else
        let (n, nm) = m_StartDiscovery True (fst n_ok) (snd n_ok) (NodeManager host_name process_id);
            (c, cm) = (if n then m_StartDiscovery True (fst c_ok) (snd c_ok) (ChannelManager host_name process_id)
                       else (False, ChannelManager host_name process_id));
            (s, sm) = (if n \<and> c then m_StartDiscovery True (fst s_ok) (snd s_ok) (ServiceManager host_name process_id)
                       else (False, ServiceManager host_name process_id))
        in if \<not> (n \<and> c \<and> s)
           then (False, tm\<lparr>tm_init := False, tm_node_manager := None, tm_channel_manager := None, tm_service_manager := None, tm_participant := False\<rparr>)
           else (True, tm\<lparr>tm_init := True, tm_node_manager := Some nm, tm_channel_manager := Some cm, tm_service_manager := Some sm,
                  tm_participant := True\<rparr>))"

definition TopologyManager :: "string \<Rightarrow> int \<Rightarrow> bool \<times> bool \<Rightarrow> bool \<times> bool \<Rightarrow> bool \<times> bool \<Rightarrow> 'cb topology_manager" where
  "TopologyManager host_name process_id n_ok c_ok s_ok =
     snd (tm_Init host_name process_id n_ok c_ok s_ok
       \<lparr>tm_init = False, tm_node_manager = None, tm_channel_manager = None, tm_service_manager = None, tm_participant = False,
        tm_change_signal = Signal, tm_participant_names = []\<rparr>)"

text \<open>\<^verbatim>\<open>Shutdown\<close>; the participant's own shutdown is not modelled.\<close>

definition tm_Shutdown :: "'cb topology_manager \<Rightarrow> 'cb topology_manager option" where
  "tm_Shutdown tm =
     (if \<not> tm_init tm then Some tm
      else do {
        nm \<leftarrow> tm_node_manager tm;
        cm \<leftarrow> tm_channel_manager tm;
        sm \<leftarrow> tm_service_manager tm;
        Some (tm\<lparr>tm_init := False, tm_node_manager := Some (m_Shutdown nm), tm_channel_manager := Some (m_Shutdown cm),
          tm_service_manager := Some (m_Shutdown sm), tm_change_signal := si_DisconnectAllSlots (tm_change_signal tm)\<rparr>) })"

section \<open>Participant names\<close>

lemma of_char_digit [simp]: "d < 10 \<Longrightarrow> (of_char (digit d) :: nat) = 48 + d"
  by (simp add: digit_def)

lemma digit_facts:
  "d < 10 \<Longrightarrow> is_digit (digit d)" "d < 10 \<Longrightarrow> digit_value (digit d) = d" "d < 10 \<Longrightarrow> \<not> is_space (digit d)"
  by (auto simp: is_digit_def digit_value_def is_space_def)

lemma nat_text_digits: "\<forall>c \<in> set (nat_text n). is_digit c"
proof (induction n rule: nat_text.induct)
  case (1 n)
  then show ?case by (subst nat_text.simps) (auto simp: digit_facts)
qed

lemma nat_text_Nil [simp]: "nat_text n \<noteq> []"
  by (subst nat_text.simps) simp

lemma text_nat_text: "text_nat (nat_text n) = n"
proof (induction n rule: nat_text.induct)
  case (1 n)
  show ?case
  proof (cases "n < 10")
    case True
    then show ?thesis by (subst nat_text.simps) (simp add: text_nat_def digit_facts)
  next
    case False
    then show ?thesis using 1 by (subst nat_text.simps) (simp add: text_nat_def digit_facts)
  qed
qed

lemma digit_not_sign: "is_digit c \<Longrightarrow> c \<noteq> CHR ''-'' \<and> c \<noteq> CHR ''+'' \<and> \<not> is_space c"
  by (auto simp: is_digit_def is_space_def)

lemma nat_text_hd: "is_digit (hd (nat_text n))"
  using nat_text_digits [of n] nat_text_Nil [of n] by (cases "nat_text n") auto

lemma nat_text_scan: "dropWhile is_space (nat_text n) = nat_text n" "takeWhile is_digit (nat_text n) = nat_text n"
proof -
  show "dropWhile is_space (nat_text n) = nat_text n"
    using nat_text_hd [of n] digit_not_sign by (cases "nat_text n") auto
  show "takeWhile is_digit (nat_text n) = nat_text n" using nat_text_digits [of n] by (simp add: takeWhile_eq_all_conv)
qed

lemma stoi_to_string:
  assumes "- (2 ^ 31) \<le> i" and "i < 2 ^ 31"
  shows "stoi (to_string i) = Some i"
proof (cases "i < 0")
  case True
  have "\<not> is_space (CHR ''-'')" by (simp add: is_space_def)
  then show ?thesis using True assms
    by (simp add: stoi_def to_string_def Let_def nat_text_scan text_nat_text)
next
  case False
  have "hd (nat_text n) \<noteq> CHR ''-''" "hd (nat_text n) \<noteq> CHR ''+''" for n using digit_not_sign [OF nat_text_hd [of n]] by simp_all
  then show ?thesis using False assms by (simp add: stoi_def to_string_def Let_def nat_text_scan text_nat_text)
qed

lemma parse_participant_name:
  assumes "CHR ''+'' \<notin> set host" and "- (2 ^ 31) \<le> pid" and "pid < 2 ^ 31"
  shows "ParseParticipantName (participant_name host pid) = Some (host, pid)"
proof -
  have "takeWhile (\<lambda>c. c \<noteq> CHR ''+'') (host @ CHR ''+'' # t) = host" "dropWhile (\<lambda>c. c \<noteq> CHR ''+'') (host @ CHR ''+'' # t) = CHR ''+'' # t" for t
    using assms(1) by (induction host) auto
  then show ?thesis using stoi_to_string [OF assms(2,3)] by (simp add: ParseParticipantName_def participant_name_def)
qed

text \<open>
  Claim C27. The name that a process gives its participant is read back as its host and process id, for
  every process id of 32 bits and every host name without a plus sign.
\<close>

theorem participant_name_roundtrip:
  assumes "CHR ''+'' \<notin> set host" and "- (2 ^ 31) \<le> pid" and "pid < 2 ^ 31"
  shows "ParseParticipantName (participant_name host pid) = Some (host, pid)"
  using assms by (rule parse_participant_name)

theorem participant_name_roundtrip_witness:
  "ParseParticipantName (participant_name ''car-7'' 31415) = Some (''car-7'', 31415)"
  by (rule participant_name_roundtrip) simp_all

section \<open>A lost participant\<close>

text \<open>Nodes, servers and clients are stored under their own ids, and clients name their process.\<close>

definition nm_inv :: "'cb node_manager \<Rightarrow> bool" where
  "nm_inv m \<longleftrightarrow> um_wf (nm_nodes m) \<and> (\<forall>x \<in> set (nm_nodes m). fst x = nid (snd x))"

abbreviation sid :: "role \<Rightarrow> u64" where "sid r \<equiv> u64_of (ra_service_id (r_attributes r))"

definition sm_inv :: "'cb service_manager \<Rightarrow> bool" where
  "sm_inv m \<longleftrightarrow> um_wf (sm_servers m) \<and> (\<forall>x \<in> set (sm_servers m). fst x = sid (snd x)) \<and>
     (\<forall>x \<in> set (sm_clients m). fst x = sid (snd x) \<and> located (snd x))"

lemma notify_leaves_more: "manager.more (snd (notify_leaves clock rt rs m)) = manager.more m"
  by (induction rs arbitrary: clock m) (simp_all add: Let_def split_beta m_Notify_simps)

lemma sm_more: "manager.more m = manager.more m' \<Longrightarrow> sm_servers m = sm_servers m' \<and> sm_clients m = sm_clients m'"
  by (cases m, cases m') auto

lemma nm_leave_eq:
  assumes "m_is_discovery_started m"
  shows "nm_nodes (snd (nm_OnTopoModuleLeave clock host pid m)) =
    fold (\<lambda>node. sw_Remove (nid node)) (snd (sw_Match_roles (process_attr host pid) [] (nm_nodes m))) (nm_nodes m)"
proof -
  let ?rs = "snd (sw_Match_roles (process_attr host pid) [] (nm_nodes m))"
  let ?m = "m\<lparr>nm_nodes := fold (\<lambda>node. sw_Remove (nid node)) ?rs (nm_nodes m)\<rparr>"
  show ?thesis
    using assms nm_nodes_more [OF notify_leaves_more [of clock ROLE_NODE ?rs ?m]] by (simp add: nm_OnTopoModuleLeave_def Let_def)
qed

lemma nm_module_leave:
  assumes "nm_inv m" and "m_is_discovery_started m"
  shows "mset (nm_nodes (snd (nm_OnTopoModuleLeave clock host pid m))) =
    filter_mset (\<lambda>x. \<not> of_process host pid (snd x)) (mset (nm_nodes m))"
  using swh.purge_process_keys [of "nm_nodes m" nid] assms(1) by (simp add: nm_leave_eq [OF assms(2)] nm_inv_def)

lemma sm_leave_eq:
  assumes "m_is_discovery_started m"
  shows "sm_servers (snd (sm_OnTopoModuleLeave clock host pid m)) =
      fold (\<lambda>r. sw_Remove (sid r)) (snd (sw_Match_roles (process_attr host pid) [] (sm_servers m))) (sm_servers m) \<and>
    sm_clients (snd (sm_OnTopoModuleLeave clock host pid m)) =
      fold (\<lambda>r. mw_Remove_role (sid r) r) (snd (mw_Match_roles (process_attr host pid) [] (sm_clients m))) (sm_clients m)"
proof -
  let ?ss = "snd (sw_Match_roles (process_attr host pid) [] (sm_servers m))"
  let ?cs = "snd (mw_Match_roles (process_attr host pid) [] (sm_clients m))"
  let ?m = "m\<lparr>sm_servers := fold (\<lambda>r. sw_Remove (sid r)) ?ss (sm_servers m), sm_clients := fold (\<lambda>r. mw_Remove_role (sid r) r) ?cs (sm_clients m)\<rparr>"
  let ?m1 = "snd (notify_leaves clock ROLE_SERVER ?ss ?m)"
  let ?m2 = "snd (notify_leaves (\<lambda>n. clock (length ?ss + n)) ROLE_CLIENT ?cs ?m1)"
  have "snd (sm_OnTopoModuleLeave clock host pid m) = ?m2"
    using assms by (simp add: sm_OnTopoModuleLeave_def Let_def split_beta)
  moreover have "manager.more ?m2 = manager.more ?m" by (simp add: notify_leaves_more)
  ultimately show ?thesis using sm_more [of ?m2 ?m] by simp
qed

lemma sm_module_leave:
  assumes "sm_inv m" and "m_is_discovery_started m"
  shows "mset (sm_servers (snd (sm_OnTopoModuleLeave clock host pid m))) =
      filter_mset (\<lambda>x. \<not> of_process host pid (snd x)) (mset (sm_servers m)) \<and>
    mset (sm_clients (snd (sm_OnTopoModuleLeave clock host pid m))) =
      filter_mset (\<lambda>x. \<not> of_process host pid (snd x)) (mset (sm_clients m))"
  using swh.purge_process_keys [of "sm_servers m" sid] mwh.purge_process [of "sm_clients m" sid] assms(1)
  by (simp add: sm_leave_eq [OF assms(2)] sm_inv_def)

text \<open>What every \<^verbatim>\<open>Dispose\<close> keeps is kept by the operations of the base class.\<close>

definition located_attr :: "role_attributes \<Rightarrow> bool" where
  "located_attr a \<longleftrightarrow> ra_host_name a \<noteq> None \<and> ra_process_id a \<noteq> None"

lemma located_Convert: "located_attr (ch_role_attr (m_Convert now attr role opt m))"
  by (simp add: located_attr_def m_Convert_def Let_def)

lemma m_Join_keeps:
  assumes "\<And>msg m. located_attr (ch_role_attr msg) \<Longrightarrow> Q m \<Longrightarrow> Q (snd (Dispose msg m))" and "Q m"
  shows "Q (snd (snd (m_Join Check Dispose ser wr now attr role pub m)))"
  using assms located_Convert [of now attr role OPT_JOIN m] by (simp add: m_Join_def Let_def split_beta)

lemma m_Leave_keeps:
  assumes "\<And>msg m. located_attr (ch_role_attr msg) \<Longrightarrow> Q m \<Longrightarrow> Q (snd (Dispose msg m))" and "Q m"
  shows "Q (snd (snd (m_Leave Check Dispose ser wr now attr role m)))"
  using assms located_Convert [of now attr role OPT_LEAVE m] by (simp add: m_Leave_def Let_def split_beta)

lemma m_Remote_keeps:
  assumes "\<And>msg m. located_attr (ch_role_attr msg) \<Longrightarrow> Q m \<Longrightarrow> Q (snd (Dispose msg m))" and "Q m"
    and "\<And>msg. parsed = Some msg \<Longrightarrow> located_attr (ch_role_attr msg)"
  shows "Q (snd (m_OnRemoteChange Check Dispose parsed m))"
  using assms by (simp add: m_OnRemoteChange_def split: option.split)

lemma um_set_pairs: "x \<in> set (um_set k v w) \<Longrightarrow> x = (k, v) \<or> x \<in> set w"
  by (induction w) (auto split: if_splits)

lemma nm_Dispose_keeps: "nm_inv m \<Longrightarrow> nm_inv (snd (nm_Dispose msg m))"
proof -
  assume inv: "nm_inv m"
  have "nm_inv (snd (nm_DisposeJoin msg m))"
    using inv by (auto simp: nm_inv_def nm_DisposeJoin_simps node_key_def node_role_def RoleBase_def split: option.splits dest!: um_set_pairs)
  moreover have "nm_inv (nm_DisposeLeave msg m)"
    using inv by (auto simp: nm_inv_def nm_DisposeLeave_def sw_Remove_def um_erase_filter distinct_map_filter)
  moreover have "nm_inv (snd (m_Notify msg m')) \<longleftrightarrow> nm_inv m'" for m' :: "'a node_manager"
    using nm_nodes_more [OF m_Notify_simps(4) [of msg m']] by (simp add: nm_inv_def)
  ultimately show ?thesis by (simp add: nm_Dispose_def Let_def split_beta)
qed

lemma sm_Dispose_keeps:
  assumes "located_attr (ch_role_attr msg)" and inv: "sm_inv m"
  shows "sm_inv (snd (sm_Dispose msg m))"
proof -
  have "located (RoleServer (ch_role_attr msg) 0)" using assms(1) by (simp add: located_attr_def located_def RoleServer_def)
  then have "sm_inv (sm_DisposeJoin msg m)"
    using inv by (auto simp: sm_inv_def sm_DisposeJoin_def sw_Add_def mw_Add_def RoleServer_def Let_def dest!: um_set_pairs)
  moreover have "sm_inv (sm_DisposeLeave msg m)"
    using inv by (auto simp: sm_inv_def sm_DisposeLeave_def sw_Remove_def mw_Remove_role_def um_erase_filter distinct_map_filter Let_def)
  moreover have "sm_inv (snd (m_Notify msg m')) \<longleftrightarrow> sm_inv m'" for m' :: "'a service_manager"
    using sm_more [OF m_Notify_simps(4) [of msg m']] by (simp add: sm_inv_def)
  ultimately show ?thesis by (simp add: sm_Dispose_def)
qed

lemma mset_keyed_filter:
  "mset (map (\<lambda>r. (f r, r)) (filter Q xs)) = filter_mset (\<lambda>x. Q (snd x)) (mset (map (\<lambda>r. (f r, r)) xs))"
  by (induction xs) simp_all

lemma filtered_subset: "mset xs = filter_mset Q (mset ys) \<Longrightarrow> set xs \<subseteq> set ys"
  by (metis filter_is_subset mset_eq_setD mset_filter)

lemma nm_inv_leave:
  assumes inv: "nm_inv m"
  shows "nm_inv (snd (nm_OnTopoModuleLeave clock host pid m))"
proof (cases "m_is_discovery_started m")
  case True
  have "um_wf (nm_nodes (snd (nm_OnTopoModuleLeave clock host pid m)))"
    unfolding nm_leave_eq [OF True] using swh.remove_keys [of "nm_nodes m" nid] inv by (simp add: nm_inv_def)
  then show ?thesis using filtered_subset [OF nm_module_leave [OF inv True, of clock host pid]] inv unfolding nm_inv_def by blast
qed (simp add: nm_OnTopoModuleLeave_def inv)

lemma sm_inv_leave:
  assumes inv: "sm_inv m"
  shows "sm_inv (snd (sm_OnTopoModuleLeave clock host pid m))"
proof (cases "m_is_discovery_started m")
  case True
  have "um_wf (sm_servers (snd (sm_OnTopoModuleLeave clock host pid m)))"
    unfolding sm_leave_eq [OF True, THEN conjunct1] using swh.remove_keys [of "sm_servers m" sid] inv by (simp add: sm_inv_def)
  moreover have "set (sm_servers (snd (sm_OnTopoModuleLeave clock host pid m))) \<subseteq> set (sm_servers m)"
      "set (sm_clients (snd (sm_OnTopoModuleLeave clock host pid m))) \<subseteq> set (sm_clients m)"
    using sm_module_leave [OF inv True, of clock host pid] filtered_subset by blast+
  ultimately show ?thesis using inv unfolding sm_inv_def by blast
qed (simp add: sm_OnTopoModuleLeave_def inv)

lemma cm_view_leave:
  assumes "cm_view P ws rs m" and "inj_on edge_key P"
  shows "\<exists>ws' rs'. cm_view P ws' rs' (snd (cm_OnTopoModuleLeave clock host pid m))"
proof (cases "m_is_discovery_started m")
  case True
  then show ?thesis using process_leaves [OF assms True] by blast
next
  case False
  then show ?thesis using assms(1) by (auto simp: cm_OnTopoModuleLeave_def)
qed

section \<open>Reachable topologies\<close>

inductive tm_step :: "(vertice \<times> string) set \<Rightarrow> 'cb topology_manager \<Rightarrow> 'cb topology_manager \<Rightarrow> bool" for P where
  node_join: "tm_node_manager tm = Some m \<Longrightarrow>
    tm_step P tm (tm\<lparr>tm_node_manager := Some (snd (snd (m_Join nm_Check nm_Dispose ser wr now attr role pub m)))\<rparr>)"
| node_leave: "tm_node_manager tm = Some m \<Longrightarrow>
    tm_step P tm (tm\<lparr>tm_node_manager := Some (snd (snd (m_Leave nm_Check nm_Dispose ser wr now attr role m)))\<rparr>)"
| node_remote: "tm_node_manager tm = Some m \<Longrightarrow> (\<And>msg. parsed = Some msg \<Longrightarrow> located_attr (ch_role_attr msg)) \<Longrightarrow>
    tm_step P tm (tm\<lparr>tm_node_manager := Some (snd (m_OnRemoteChange nm_Check nm_Dispose parsed m))\<rparr>)"
| service_join: "tm_service_manager tm = Some s \<Longrightarrow>
    tm_step P tm (tm\<lparr>tm_service_manager := Some (snd (snd (m_Join sm_Check sm_Dispose ser wr now attr role pub s)))\<rparr>)"
| service_leave: "tm_service_manager tm = Some s \<Longrightarrow>
    tm_step P tm (tm\<lparr>tm_service_manager := Some (snd (snd (m_Leave sm_Check sm_Dispose ser wr now attr role s)))\<rparr>)"
| service_remote: "tm_service_manager tm = Some s \<Longrightarrow> (\<And>msg. parsed = Some msg \<Longrightarrow> located_attr (ch_role_attr msg)) \<Longrightarrow>
    tm_step P tm (tm\<lparr>tm_service_manager := Some (snd (m_OnRemoteChange sm_Check sm_Dispose parsed s))\<rparr>)"
| channel: "tm_channel_manager tm = Some c \<Longrightarrow> cm_step P c c' \<Longrightarrow> tm_step P tm (tm\<lparr>tm_channel_manager := Some c'\<rparr>)"
| participant: "tm_OnParticipantChange now clock1 clock2 clock3 info tm = Some (outs, tm') \<Longrightarrow> tm_step P tm tm'"
| listen: "tm_step P tm (snd (tm_AddChangeListener func tm))"
| unlisten: "tm_step P tm (tm_RemoveChangeListener conn tm)"

definition tm_inv :: "(vertice \<times> string) set \<Rightarrow> 'cb topology_manager \<Rightarrow> bool" where
  "tm_inv P tm \<longleftrightarrow> (\<forall>m. tm_node_manager tm = Some m \<longrightarrow> nm_inv m) \<and>
     (\<forall>c. tm_channel_manager tm = Some c \<longrightarrow> (\<exists>ws rs. cm_view P ws rs c)) \<and>
     (\<forall>s. tm_service_manager tm = Some s \<longrightarrow> sm_inv s)"

lemma tm_Convert_managers:
  "tm_Convert now info tm = (r, tm') \<Longrightarrow> tm_node_manager tm' = tm_node_manager tm \<and> tm_channel_manager tm' = tm_channel_manager tm \<and>
     tm_service_manager tm' = tm_service_manager tm \<and> tm_init tm' = tm_init tm \<and> tm_change_signal tm' = tm_change_signal tm"
  by (auto simp: tm_Convert_def Let_def split_beta split: option.splits)

lemma participant_keeps:
  assumes "tm_OnParticipantChange now clock1 clock2 clock3 info tm = Some (outs, tm')" and inv: "tm_inv P tm" and inj: "inj_on edge_key P"
  shows "tm_inv P tm'"
proof -
  obtain r tm1 where 1: "tm_Convert now info tm = (r, tm1)" by (cases "tm_Convert now info tm")
  note same = tm_Convert_managers [OF 1]
  show ?thesis
  proof (cases "\<exists>msg. r = Some msg \<and> tm_init tm1 \<and> ch_operate_type msg = OPT_LEAVE")
    case False
    then have "tm_node_manager tm' = tm_node_manager tm" "tm_channel_manager tm' = tm_channel_manager tm" "tm_service_manager tm' = tm_service_manager tm"
      using assms(1) same by (auto simp: tm_OnParticipantChange_def 1 Let_def split_beta split: option.splits if_splits)
    then show ?thesis using inv by (simp add: tm_inv_def)
  next
    case True
    then obtain msg where msg: "r = Some msg" "tm_init tm1" "ch_operate_type msg = OPT_LEAVE" by blast
    let ?h = "str_of (ra_host_name (ch_role_attr msg))" and ?p = "int_of (ra_process_id (ch_role_attr msg))"
    obtain nm cm sm where m: "tm_node_manager tm = Some nm" "tm_channel_manager tm = Some cm" "tm_service_manager tm = Some sm"
      using assms(1) msg same by (auto simp: tm_OnParticipantChange_def 1 bind_eq_Some_conv Let_def split_beta)
    have "tm_node_manager tm' = Some (snd (nm_OnTopoModuleLeave clock1 ?h ?p nm))"
        "tm_channel_manager tm' = Some (snd (cm_OnTopoModuleLeave clock2 ?h ?p cm))"
        "tm_service_manager tm' = Some (snd (sm_OnTopoModuleLeave clock3 ?h ?p sm))"
      using assms(1) msg same m by (auto simp: tm_OnParticipantChange_def 1 Let_def split_beta)
    then show ?thesis using inv m nm_inv_leave sm_inv_leave cm_view_leave [OF _ inj] by (auto simp: tm_inv_def)
  qed
qed

lemma tm_step_keeps:
  assumes "tm_step P tm tm'" and inj: "inj_on edge_key P" and inv: "tm_inv P tm"
  shows "tm_inv P tm'"
  using assms(1)
proof cases
  case (node_join m ser wr now attr role pub)
  have "nm_inv (snd (snd (m_Join nm_Check nm_Dispose ser wr now attr role pub m)))"
    by (rule m_Join_keeps) (use inv node_join nm_Dispose_keeps in \<open>simp_all add: tm_inv_def\<close>)
  then show ?thesis using inv node_join by (simp add: tm_inv_def)
next
  case (node_leave m ser wr now attr role)
  have "nm_inv (snd (snd (m_Leave nm_Check nm_Dispose ser wr now attr role m)))"
    by (rule m_Leave_keeps) (use inv node_leave nm_Dispose_keeps in \<open>simp_all add: tm_inv_def\<close>)
  then show ?thesis using inv node_leave by (simp add: tm_inv_def)
next
  case (node_remote m parsed)
  have "nm_inv (snd (m_OnRemoteChange nm_Check nm_Dispose parsed m))"
    by (rule m_Remote_keeps) (use inv node_remote nm_Dispose_keeps in \<open>simp_all add: tm_inv_def\<close>)
  then show ?thesis using inv node_remote by (simp add: tm_inv_def)
next
  case (service_join s ser wr now attr role pub)
  have "sm_inv (snd (snd (m_Join sm_Check sm_Dispose ser wr now attr role pub s)))"
    by (rule m_Join_keeps) (use inv service_join sm_Dispose_keeps in \<open>simp_all add: tm_inv_def\<close>)
  then show ?thesis using inv service_join by (simp add: tm_inv_def)
next
  case (service_leave s ser wr now attr role)
  have "sm_inv (snd (snd (m_Leave sm_Check sm_Dispose ser wr now attr role s)))"
    by (rule m_Leave_keeps) (use inv service_leave sm_Dispose_keeps in \<open>simp_all add: tm_inv_def\<close>)
  then show ?thesis using inv service_leave by (simp add: tm_inv_def)
next
  case (service_remote s parsed)
  have "sm_inv (snd (m_OnRemoteChange sm_Check sm_Dispose parsed s))"
    by (rule m_Remote_keeps) (use inv service_remote sm_Dispose_keeps in \<open>simp_all add: tm_inv_def\<close>)
  then show ?thesis using inv service_remote by (simp add: tm_inv_def)
next
  case (channel c c')
  obtain ws rs where "cm_view P ws rs c" using inv channel(2) by (auto simp: tm_inv_def)
  then have "\<exists>ws rs. cm_view P ws rs c'" by (rule cm_step_view [OF channel(3) inj])
  then show ?thesis using inv channel(1) by (simp add: tm_inv_def)
next
  case (participant now clock1 clock2 clock3 info outs)
  then show ?thesis by (rule participant_keeps [OF _ inv inj])
next
  case (listen func)
  then show ?thesis using inv by (simp add: tm_inv_def tm_AddChangeListener_def Let_def split_beta)
next
  case (unlisten conn)
  then show ?thesis using inv by (simp add: tm_inv_def tm_RemoveChangeListener_def)
qed

lemma reachable_tm_inv:
  assumes "(tm_step P)\<^sup>*\<^sup>* (TopologyManager host pid n_ok c_ok s_ok) tm" and inj: "inj_on edge_key P"
  shows "tm_inv P tm"
  using assms(1)
proof (induction rule: rtranclp_induct)
  case base
  have "nm_inv (snd (m_StartDiscovery True a b (NodeManager host pid :: 'a node_manager)))" for a b
    by (simp add: nm_inv_def m_StartDiscovery_def m_StopDiscovery_def NodeManager_def manager.defs Let_def)
  moreover have "sm_inv (snd (m_StartDiscovery True a b (ServiceManager host pid :: 'a service_manager)))" for a b
    by (simp add: sm_inv_def m_StartDiscovery_def m_StopDiscovery_def ServiceManager_def manager.defs Let_def)
  moreover have "cm_view P [] [] (snd (m_StartDiscovery True a b (ChannelManager host pid :: 'a channel_manager)))" for a b
    using rep_Graph by (simp add: cm_view_def m_StartDiscovery_def m_StopDiscovery_def ChannelManager_def manager.defs Let_def side_Nil)
  then have "\<exists>ws rs. cm_view P ws rs (snd (m_StartDiscovery True a b (ChannelManager host pid :: 'a channel_manager)))" for a b by blast
  ultimately show ?case by (simp add: TopologyManager_def tm_Init_def tm_inv_def Let_def split_beta)
next
  case (step tm tm')
  then show ?case using tm_step_keeps [OF _ inj] by blast
qed

text \<open>
  Claim C26. When the participant of a process is removed or dropped, the topology loses exactly the
  nodes, writers, readers, servers and clients of this process; everything else stays, and the name
  of the participant is forgotten.
\<close>

theorem lost_participant_is_purged:
  fixes tm :: "'cb topology_manager"
  assumes "(tm_step P)\<^sup>*\<^sup>* (TopologyManager host pid n_ok c_ok s_ok) tm" and "inj_on edge_key P" and "tm_init tm"
    and "tm_node_manager tm = Some nm" and "tm_channel_manager tm = Some cm" and "tm_service_manager tm = Some sm"
    and "m_is_discovery_started nm" and "m_is_discovery_started cm" and "m_is_discovery_started sm"
    and "pi_status info = REMOVED_PARTICIPANT \<or> pi_status info = DROPPED_PARTICIPANT"
    and "map_of (tm_participant_names tm) (pi_guid info) = Some (participant_name h p)"
    and "CHR ''+'' \<notin> set h" and "- (2 ^ 31) \<le> p" and "p < 2 ^ 31"
  defines "rest \<equiv> filter_mset (\<lambda>x. \<not> of_process h p (snd x))"
  shows "\<exists>outs tm' nm' cm' sm'. tm_OnParticipantChange now clockn clockc clocks info tm = Some (outs, tm') \<and>
    tm_node_manager tm' = Some nm' \<and> tm_channel_manager tm' = Some cm' \<and> tm_service_manager tm' = Some sm' \<and>
    mset (nm_nodes nm') = rest (mset (nm_nodes nm)) \<and>
    mset (cm_channel_writers cm') = rest (mset (cm_channel_writers cm)) \<and> mset (cm_node_writers cm') = rest (mset (cm_node_writers cm)) \<and>
    mset (cm_channel_readers cm') = rest (mset (cm_channel_readers cm)) \<and> mset (cm_node_readers cm') = rest (mset (cm_node_readers cm)) \<and>
    mset (sm_servers sm') = rest (mset (sm_servers sm)) \<and> mset (sm_clients sm') = rest (mset (sm_clients sm)) \<and>
    map_of (tm_participant_names tm') (pi_guid info) = None"
proof -
  have inv: "nm_inv nm" "\<exists>ws rs. cm_view P ws rs cm" "sm_inv sm"
    using reachable_tm_inv [OF assms(1,2)] assms(4-6) by (simp_all add: tm_inv_def)
  obtain ws rs where view: "cm_view P ws rs cm" using inv(2) by blast
  let ?msg = "\<lparr>ch_timestamp = now, ch_change_type = CHANGE_PARTICIPANT, ch_operate_type = OPT_LEAVE, ch_role_type = ROLE_PARTICIPANT,
      ch_role_attr = process_attr h p\<rparr>"
  let ?tm = "tm\<lparr>tm_participant_names := um_erase (pi_guid info) (tm_participant_names tm)\<rparr>"
  have parse: "ParseParticipantName (participant_name h p) = Some (h, p)" by (rule parse_participant_name [OF assms(12-14)])
  have conv: "tm_Convert now info tm = (Some ?msg, ?tm)"
    using assms(10,11) parse by (auto simp: tm_Convert_def Let_def)
  let ?nm = "snd (nm_OnTopoModuleLeave clockn h p nm)" and ?cm = "snd (cm_OnTopoModuleLeave clockc h p cm)"
    and ?sm = "snd (sm_OnTopoModuleLeave clocks h p sm)"
  have attr: "str_of (ra_host_name (process_attr h p)) = h" "int_of (ra_process_id (process_attr h p)) = p"
    by (simp_all add: process_attr_def)
  have "\<exists>outs tm'. tm_OnParticipantChange now clockn clockc clocks info tm = Some (outs, tm') \<and>
      tm_node_manager tm' = Some ?nm \<and> tm_channel_manager tm' = Some ?cm \<and> tm_service_manager tm' = Some ?sm \<and>
      tm_participant_names tm' = tm_participant_names ?tm"
    using assms(3-6) by (simp add: tm_OnParticipantChange_def conv attr Let_def split_beta)
  moreover have "mset (nm_nodes ?nm) = rest (mset (nm_nodes nm))" unfolding rest_def by (rule nm_module_leave [OF inv(1) assms(7)])
  moreover have "mset (sm_servers ?sm) = rest (mset (sm_servers sm))" "mset (sm_clients ?sm) = rest (mset (sm_clients sm))"
    unfolding rest_def using sm_module_leave [OF inv(3) assms(9)] by blast+
  moreover have "mset (cm_channel_writers ?cm) = rest (mset (cm_channel_writers cm))" "mset (cm_node_writers ?cm) = rest (mset (cm_node_writers cm))"
      "mset (cm_channel_readers ?cm) = rest (mset (cm_channel_readers cm))" "mset (cm_node_readers ?cm) = rest (mset (cm_node_readers cm))"
    using process_leaves [OF view assms(2,8), of h p clockc, THEN conjunct1] view unfolding rest_def cm_view_def side_def
    by (simp_all only: mset_keyed_filter)
  moreover have "map_of (tm_participant_names ?tm) (pi_guid info) = None" by simp
  ultimately show ?thesis by metis
qed

definition example_start :: "nat topology_manager" where
  "example_start = TopologyManager ''k'' 9 (True, True) (True, True) (True, True)"

definition example_topology :: "nat topology_manager" where
  "example_topology = example_start\<lparr>tm_participant_names := [(3, participant_name ''h'' 4)],
     tm_node_manager := Some (snd (m_OnRemoteChange nm_Check nm_Dispose (Some (node_join ''h'' 4 50))
       (snd (m_StartDiscovery True True True (NodeManager ''k'' 9)))))\<rparr>"

lemma example_start_fields:
  "tm_init example_start" "tm_node_manager example_start = Some (snd (m_StartDiscovery True True True (NodeManager ''k'' 9)))"
  "tm_channel_manager example_start = Some (snd (m_StartDiscovery True True True (ChannelManager ''k'' 9)))"
  "tm_service_manager example_start = Some (snd (m_StartDiscovery True True True (ServiceManager ''k'' 9)))"
  "tm_change_signal example_start = Signal" "tm_participant_names example_start = []"
  by (simp_all add: example_start_def TopologyManager_def tm_Init_def m_StartDiscovery_def NodeManager_def ChannelManager_def
      ServiceManager_def manager.defs Manager_def Let_def)

lemma example_topology_reachable: "(tm_step {})\<^sup>*\<^sup>* example_start example_topology"
proof -
  let ?info = "\<lparr>pi_status = DISCOVERED_PARTICIPANT, pi_guid = 3, pi_participant_name = participant_name ''h'' 4\<rparr>"
  let ?tm = "example_start\<lparr>tm_participant_names := [(3, participant_name ''h'' 4)]\<rparr>"
  have parse: "ParseParticipantName (participant_name ''h'' 4) = Some (''h'', 4)" by (rule parse_participant_name) simp_all
  have "\<exists>outs. tm_OnParticipantChange 0 (\<lambda>_. 0) (\<lambda>_. 0) (\<lambda>_. 0) ?info example_start = Some (outs, ?tm)"
    by (simp add: tm_OnParticipantChange_def tm_Convert_def example_start_fields parse si_call_def Signal_def si_ClearDisconnectedSlots_def Let_def)
  then have "tm_step {} example_start ?tm" by (auto intro: tm_step.participant)
  moreover have "tm_step {} ?tm example_topology"
    unfolding example_topology_def
    using tm_step.node_remote [of ?tm "snd (m_StartDiscovery True True True (NodeManager ''k'' 9))" "Some (node_join ''h'' 4 50)" "{}"]
    by (simp add: example_start_fields located_attr_def node_join_def)
  ultimately show ?thesis by (meson converse_rtranclp_into_rtranclp rtranclp.rtrancl_refl)
qed

lemma example_topology_node:
  "nm_nodes (snd (m_OnRemoteChange nm_Check nm_Dispose (Some (node_join ''h'' 4 50))
     (snd (m_StartDiscovery True True True (NodeManager ''k'' 9 :: nat node_manager))))) = [(9, node_role (node_join ''h'' 4 50))]"
  "m_is_discovery_started (snd (m_OnRemoteChange nm_Check nm_Dispose (Some (node_join ''h'' 4 50))
     (snd (m_StartDiscovery True True True (NodeManager ''k'' 9 :: nat node_manager)))))"
  by code_simp+

theorem lost_participant_is_purged_witness:
  "\<exists>outs tm' nm'. tm_OnParticipantChange 0 (\<lambda>_. 0) (\<lambda>_. 0) (\<lambda>_. 0)
       \<lparr>pi_status = DROPPED_PARTICIPANT, pi_guid = 3, pi_participant_name = []\<rparr> example_topology = Some (outs, tm') \<and>
     tm_node_manager tm' = Some nm' \<and> nm_nodes nm' = [] \<and> map_of (tm_participant_names tm') 3 = None"
proof -
  let ?info = "\<lparr>pi_status = DROPPED_PARTICIPANT, pi_guid = 3, pi_participant_name = []\<rparr>"
  let ?nm = "snd (m_OnRemoteChange nm_Check nm_Dispose (Some (node_join ''h'' 4 50)) (snd (m_StartDiscovery True True True (NodeManager ''k'' 9 :: nat node_manager))))"
  let ?cm = "snd (m_StartDiscovery True True True (ChannelManager ''k'' 9)) :: nat channel_manager"
  let ?sm = "snd (m_StartDiscovery True True True (ServiceManager ''k'' 9)) :: nat service_manager"
  have "of_process ''h'' 4 (node_role (node_join ''h'' 4 50))" by (simp add: of_process_def node_role_def RoleBase_def node_join_def)
  moreover have fields: "tm_init example_topology" "tm_node_manager example_topology = Some ?nm" "tm_channel_manager example_topology = Some ?cm"
      "tm_service_manager example_topology = Some ?sm" "map_of (tm_participant_names example_topology) (pi_guid ?info) = Some (participant_name ''h'' 4)"
    by (simp_all add: example_topology_def example_start_fields)
  moreover have "m_is_discovery_started ?cm" "m_is_discovery_started ?sm"
    by (simp_all add: m_StartDiscovery_def ChannelManager_def ServiceManager_def manager.defs Manager_def Let_def)
  ultimately show ?thesis
    using lost_participant_is_purged [OF example_topology_reachable [unfolded example_start_def] _ fields(1-4) example_topology_node(2) _ _ _ fields(5),
        where now = 0 and clockn = "\<lambda>_. 0" and clockc = "\<lambda>_. 0" and clocks = "\<lambda>_. 0"]
    by (auto simp: example_topology_node(1))
qed

end
