(* ===== verification/Spec2Isabelle.thy ===== *)
theory Spec2Isabelle
  imports Sched_System Timer_Timer Base_ReentrantLock Data_Fusion Base_BoundedQueue Base_UnboundedQueue
    Shm_SegmentFacts Shm_Notifier Shm_Delivery Topo_Topology
begin

text \<open>
  A verification of Cyber RT, the middleware of Apollo (\<^verbatim>\<open>src/cyber\<close>). Nodes in several processes exchange
  messages over channels: a writer hands a message to a transmitter, which puts it into a shared memory
  segment and notifies the other processes; a dispatcher there reads it and calls the listeners of the
  channel; these fill the ring buffers of the readers and notify the scheduler, which resumes the
  coroutine that fetches the message. Which nodes talk to each other is the business of the service
  discovery. Timers drive periodic work.

  \<^bold>\<open>How the theories follow the code.\<close> A class is a record with its fields, a method is a definition with the
  prefix of its class (\<open>cb_\<close> \<^verbatim>\<open>CacheBuffer\<close>, \<open>bq_\<close> \<^verbatim>\<open>BoundedQueue\<close>, \<open>sd_\<close> \<^verbatim>\<open>ShmDispatcher\<close>, \<open>tw_\<close> \<^verbatim>\<open>TimingWheel\<close>,
  \<open>cm_\<close> \<^verbatim>\<open>ChannelManager\<close>, and so on) or just its name; a constructor has the name of the class. State that
  is shared by pointers is an explicit store with numbered objects. Unsigned integers are words where a
  computation depends on their width. A method that fails returns an option or a flag, as in the source.
  A section under a mutex is one step; lock-free code is a step relation with one step per atomic
  access, and the theorems are about every interleaving.

  \<^bold>\<open>Base.\<close>
  \<^item> \<open>Cyber_Prelude\<close>: words, association lists for \<^verbatim>\<open>unordered_map\<close>, generic lemmas. \<open>Cyber_Interfaces\<close>: the contracts
    of queues and maps as locales.
  \<^item> \<open>Base_HashMap\<close> (\<^verbatim>\<open>base/atomic_hash_map.h\<close>): an insert that races with other inserts ends with its key bound
    and loses no key.
  \<^item> \<open>Base_BoundedQueue\<close>, \<open>Base_UnboundedQueue\<close> (\<^verbatim>\<open>base/bounded_queue.h\<close>, \<^verbatim>\<open>wait_strategy.h\<close>, \<^verbatim>\<open>unbounded_queue.h\<close>,
    \<^verbatim>\<open>thread_safe_queue.h\<close>): concurrent enqueues and dequeues take effect in one order, first in first out;
    the linked queue leaks no node.
  \<^item> \<open>Base_Locks\<close>, \<open>Base_ReentrantLock\<close> (\<^verbatim>\<open>base/atomic_rw_lock.h\<close>, \<^verbatim>\<open>reentrant_rw_lock.h\<close>): a writer is alone in every
    interleaving; the reentrant lock can be lost for good by the late reset of its owner.

  \<^bold>\<open>Data.\<close>
  \<^item> \<open>Data_Buffer\<close>, \<open>Data_Dispatch\<close>, \<open>Data_Fusion\<close> (\<^verbatim>\<open>data/\<close>): a reader behaves like a private ring on the messages
    of its channel; it gets them in order, each at most once, and all of them when it keeps up; fused
    readers get the tuples of the reference fusion.

  \<^bold>\<open>Transport.\<close>
  \<^item> \<open>Shm_Conf\<close>, \<open>Shm_Block\<close>, \<open>Shm_Segment\<close>, \<open>Shm_SegmentFacts\<close> (\<^verbatim>\<open>transport/shm\<close>): the layout of a segment is disjoint,
    the lock of a block is exclusive, the search for a free block ends, an acquired block holds the
    message.
  \<^item> \<open>Transport_Message\<close>, \<open>Transport_Listener\<close> (\<^verbatim>\<open>transport/message\<close>, \<^verbatim>\<open>dispatcher/dispatcher.h\<close>, \<^verbatim>\<open>base/signal.h\<close>): byte
    formats round trip, and a message reaches exactly the subscribers of its channel.
  \<^item> \<open>Shm_Notifier\<close>, \<open>Shm_Transport\<close>, \<open>Shm_Delivery\<close>: notifications are heard in order, and a message transmitted by one
    process reaches the listeners of the other with its bytes and its info.

  \<^bold>\<open>Service discovery.\<close>
  \<^item> \<open>Common_GlobalData\<close> (\<^verbatim>\<open>common/global_data\<close>): names and ids.
  \<^item> \<open>Topo_Graph\<close>, \<open>Topo_Warehouse\<close>, \<open>Topo_Manager\<close>, \<open>Topo_Channel\<close>, \<open>Topo_Topology\<close> (\<^verbatim>\<open>service_discovery/\<close>): flow
    directions are reachability over the roles, duplicate nodes are resolved in the same way everywhere,
    and a lost participant takes exactly its roles with it.

  \<^bold>\<open>Timers and scheduling.\<close>
  \<^item> \<open>Timer_Wheel\<close>, \<open>Timer_Timer\<close> (\<^verbatim>\<open>timer/\<close>): a task fires in the round its duration ends, and a periodic timer does
    not drift.
  \<^item> \<open>Sched_Croutine\<close> (\<^verbatim>\<open>croutine/\<close>, \<^verbatim>\<open>task/task_manager.cc\<close>): no wake-up of a data driven coroutine is lost.

  \<^bold>\<open>Bounds.\<close> Loops that spin until another process moves on are step relations, without fuel. Loops
  that may not end are \<^verbatim>\<open>partial_function (option)\<close>, with a theorem that they return where that is so: the
  probing for a free id and the search for a writable block. Timers are proved for all periods they accept
  (below 65536 ms) and for clocks below $2^{62}$ ns.

  \<^bold>\<open>Parameters.\<close> The hash function, the protobuf serializer, system calls on shared memory, the clocks and
  the RTPS participant are arguments of the definitions that use them.
\<close>

end
